(* ===== verification/Prelude.thy ===== *)
theory Prelude
  imports Main "HOL-Library.Word" "HOL-Library.AList" "HOL-Library.List_Lexorder"
    "HOL-Library.Char_ord" "HOL-Library.Multiset"
begin

text \<open>
  Shared vocabulary of the development: the Go types the code uses, and the
  generic lemmas every component relies on.

  \<^item> A Go string is a \<^typ>\<open>string\<close>, one \<^typ>\<open>char\<close> per byte; its order
    (from \<open>List_Lexorder\<close> and \<open>Char_ord\<close>) is Go's bytewise order.
  \<^item> \<open>uint64\<close> and \<open>int32\<close> are words. Go's \<open>int\<close> (64 bits on the targets) is an
    \<^typ>\<open>int\<close> whose increments wrap explicitly (\<open>wrap64\<close>).
  \<^item> A \<open>time.Time\<close> is the number of nanoseconds since Go's zero time, so that
    \<open>IsZero\<close> is \<open>t = 0\<close>; a \<open>time.Duration\<close> is a signed 64-bit count of
    nanoseconds, and \<open>Time.Sub\<close> saturates.
  \<^item> A Go map is an association list with distinct keys: Go leaves the iteration order
    open, and what the code computes from a map is shown not to depend on it where that
    matters. A nil map and an empty map are both the empty list (reads and \<open>delete\<close> agree
    on them, and the code allocates before it writes).
\<close>

named_theorems go_simps \<open>unfolding rules of the small Go operations\<close>

type_synonym u64 = "64 word"
type_synonym i32 = "32 word"
type_synonym instant = int
type_synonym duration = int
type_synonym ('k, 'v) gomap = "('k \<times> 'v) list"

section \<open>Integers\<close>

text \<open>Two's complement wrap-around of Go's \<open>int\<close> and \<open>int64\<close>.\<close>

definition wrap64 :: "int \<Rightarrow> int" where
  "wrap64 n = (n + 2 ^ 63) mod 2 ^ 64 - 2 ^ 63"

definition max_int64 :: int where "max_int64 = 2 ^ 63 - 1"
definition min_int64 :: int where "min_int64 = - (2 ^ 63)"

lemma wrap64_id [simp]: "min_int64 \<le> n \<Longrightarrow> n \<le> max_int64 \<Longrightarrow> wrap64 n = n"
  by (simp add: wrap64_def min_int64_def max_int64_def)

lemma wrap64_bounds: "min_int64 \<le> wrap64 n \<and> wrap64 n \<le> max_int64"
proof -
  have "0 \<le> (n + 2 ^ 63) mod 2 ^ 64" "(n + 2 ^ 63) mod 2 ^ 64 < (2 ^ 64 :: int)"
    by simp_all
  then show ?thesis by (simp add: wrap64_def min_int64_def max_int64_def)
qed

lemma wrap64_Suc:
  "0 \<le> n \<Longrightarrow> n < max_int64 \<Longrightarrow> wrap64 (n + 1) = n + 1"
  by (rule wrap64_id) (simp_all add: min_int64_def)

lemma unat_inc_u64:
  fixes w :: u64
  assumes "unat w + 1 < 2 ^ 64"
  shows "unat (w + 1) = unat w + 1"
  using assms by (simp add: unat_word_ariths)

section \<open>Time\<close>

definition zero_time :: instant where "zero_time = 0"

definition IsZero :: "instant \<Rightarrow> bool" where
  [go_simps]: "IsZero t = (t = zero_time)"

definition second :: duration where "second = 1000000000"

text \<open>\<open>Time.Sub\<close> saturates at the ends of the \<open>Duration\<close> range.\<close>

definition time_sub :: "instant \<Rightarrow> instant \<Rightarrow> duration" where
  "time_sub t u = max min_int64 (min max_int64 (t - u))"

lemma time_sub_exact [simp]:
  "min_int64 \<le> t - u \<Longrightarrow> t - u \<le> max_int64 \<Longrightarrow> time_sub t u = t - u"
  by (simp add: time_sub_def)

lemma time_sub_self [simp]: "time_sub t t = 0"
  by (simp add: time_sub_def min_int64_def max_int64_def)

lemma time_sub_mono: "t \<le> t' \<Longrightarrow> time_sub t u \<le> time_sub t' u"
  by (auto simp: time_sub_def)

lemma time_sub_ge_iff:
  "min_int64 < d \<Longrightarrow> d \<le> max_int64 \<Longrightarrow> d \<le> time_sub t u \<longleftrightarrow> d \<le> t - u"
  by (auto simp: time_sub_def)

section \<open>Maps\<close>

text \<open>Reading a key, with the zero value for a missing one, as Go's \<open>m[k]\<close> does.\<close>

definition gget :: "('k, 'v) gomap \<Rightarrow> 'k \<Rightarrow> 'v \<Rightarrow> 'v" where
  "gget m k z = (case map_of m k of None \<Rightarrow> z | Some v \<Rightarrow> v)"

abbreviation gwf :: "('k, 'v) gomap \<Rightarrow> bool" where
  "gwf m \<equiv> distinct (map fst m)"

lemma gget_Nil [simp]: "gget [] k z = z"
  by (simp add: gget_def)

lemma gget_update [simp]:
  "gget (AList.update k v m) j z = (if j = k then v else gget m j z)"
  by (simp add: gget_def update_conv)

lemma map_of_update [simp]:
  "map_of (AList.update k v m) j = (if j = k then Some v else map_of m j)"
  by (simp add: update_conv)

lemma map_of_delete [simp]:
  "map_of (AList.delete k m) j = (if j = k then None else map_of m j)"
  by (simp add: delete_conv)

lemma gwf_update [simp]: "gwf m \<Longrightarrow> gwf (AList.update k v m)"
  by (rule distinct_update)

lemma gwf_delete [simp]: "gwf m \<Longrightarrow> gwf (AList.delete k m)"
  by (rule distinct_delete)

lemma gwf_filter [simp]: "gwf m \<Longrightarrow> gwf (filter P m)"
  by (induction m) auto

lemma map_of_filter_gwf:
  "gwf m \<Longrightarrow> map_of (filter P m) k =
     (case map_of m k of None \<Rightarrow> None | Some v \<Rightarrow> if P (k, v) then Some v else None)"
proof (induction m)
  case Nil
  then show ?case by simp
next
  case (Cons kv m)
  then show ?case
    by (cases kv) (auto simp: map_of_eq_None_iff split: option.splits)
qed

lemma gwf_mem_iff: "gwf m \<Longrightarrow> (k, v) \<in> set m \<longleftrightarrow> map_of m k = Some v"
  by (simp add: map_of_eq_Some_iff)

lemma gwf_ball:
  "gwf m \<Longrightarrow> (\<forall>(k, v) \<in> set m. P k v) \<longleftrightarrow> (\<forall>k v. map_of m k = Some v \<longrightarrow> P k v)"
  by (auto simp: map_of_eq_Some_iff)

text \<open>Maps are read through \<^const>\<open>map_of\<close>; membership of pairs stays out of the way.\<close>

declare map_of_eq_Some_iff [simp del] Some_eq_map_of_iff [simp del]

lemma map_of_cong_update: "map_of (AList.update k v m) = (map_of m)(k \<mapsto> v)"
  by (rule update_conv')

section \<open>Lists and options\<close>

lemma sort_key_perm: "mset (sort_key f xs) = mset xs"
  by simp

lemma distinct_map_eqD:
  "distinct (map f xs) \<Longrightarrow> x \<in> set xs \<Longrightarrow> y \<in> set xs \<Longrightarrow> f x = f y \<Longrightarrow> x = y"
  by (auto simp: distinct_map inj_on_def)

lemma distinct_map_filter_eqD:
  "distinct (map f (filter P xs)) \<Longrightarrow> distinct (map f xs) \<Longrightarrow> x \<in> set xs \<Longrightarrow> f x \<in> f ` set ys
    \<Longrightarrow> \<exists>y \<in> set ys. f x = f y"
  by auto

lemma length_filter_neq:
  "distinct xs \<Longrightarrow> x \<in> set xs \<Longrightarrow> length (filter (\<lambda>y. y \<noteq> x) xs) = length xs - 1"
proof (induction xs)
  case (Cons a xs)
  have "filter (\<lambda>y. y \<noteq> x) xs = xs" if "x \<notin> set xs"
    using that by (auto intro: filter_True)
  then show ?case using Cons by (cases "a = x") (auto simp: Suc_diff_le dest: length_pos_if_in_set)
qed simp

lemma mset_map_distinct: "mset xs = mset ys \<Longrightarrow> distinct (map f xs) \<longleftrightarrow> distinct (map f ys)"
  by (metis mset_eq_imp_distinct_iff mset_map)

text \<open>The last \<open>n\<close> elements of a list.\<close>

definition takeLast :: "nat \<Rightarrow> 'a list \<Rightarrow> 'a list" where
  "takeLast n xs = drop (length xs - n) xs"

lemma takeLast_all: "length xs \<le> n \<Longrightarrow> takeLast n xs = xs"
  by (simp add: takeLast_def)

lemma length_takeLast [simp]: "length (takeLast n xs) = min n (length xs)"
  by (auto simp: takeLast_def)

lemma takeLast_takeLast: "takeLast n (takeLast n xs @ ys) = takeLast n (xs @ ys)"
proof (cases "length xs \<le> n")
  case True
  then show ?thesis by (simp add: takeLast_all)
next
  case False
  then show ?thesis
    by (cases "length ys \<le> n") (auto simp: takeLast_def drop_append add.commute [of "length ys"])
qed

lemma takeLast_snoc:
  "length xs = n \<Longrightarrow> 0 < n \<Longrightarrow> takeLast n (xs @ [x]) = tl xs @ [x]"
  by (cases xs) (simp_all add: takeLast_def)

lemma filter_partition_length:
  "length (filter P xs) + length (filter (\<lambda>x. \<not> P x) xs) = length xs"
  by (induction xs) auto

lemma update_subset: "set (AList.update k v m) \<subseteq> insert (k, v) (set m)"
  by (induction m) auto

end
