(* ===== verification/Registry.thy ===== *)
theory Registry
  imports Prelude
begin

text \<open>
  The leader registry of bigbrain (\<open>registry/registry.go\<close>): the published leader of every
  deployment, its sequence number, and the one-slot channels of the stream subscribers.

  Every method holds \<open>r.mu\<close> for its whole body, so an execution is a sequence of the
  operations below. A channel is an address into \<open>chans\<close>; its buffer holds at most
  \<open>subscriberBuffer\<close> events. A send on a closed channel panics in Go: \<open>None\<close> here.
\<close>

section \<open>State\<close>

record deployment =
  namespace :: string
  leaderPod :: string
  leaderURL :: string
  seq :: u64
  published :: bool

record LeaderEvent =
  Name :: string
  LeaderPod :: string
  LeaderURL :: string
  Seq :: u64
  Epoch :: u64

record channel =
  buf :: "LeaderEvent list"
  chan_closed :: bool

record Registry =
  epoch :: u64
  deps :: "(string, deployment) gomap"
  subs :: "(string, nat list) gomap"
  chans :: "(nat, channel) gomap"
  nextChan :: nat

definition subscriberBuffer :: nat where "subscriberBuffer = 1"
definition maxSubscribersPerDeployment :: nat where "maxSubscribersPerDeployment = 128"

section \<open>Operations\<close>

text \<open>\<open>newEpoch\<close> reads eight random bytes, little endian, and avoids zero.\<close>

definition littleEndian64 :: "8 word list \<Rightarrow> u64" where
  "littleEndian64 bs = word_rcat (rev bs)"

definition newEpoch :: "8 word list \<Rightarrow> u64" where
  "newEpoch bs = (let e = littleEndian64 bs in if e \<noteq> 0 then e else 1)"

definition NewRegistry :: "8 word list \<Rightarrow> Registry" where
  "NewRegistry bs = \<lparr>epoch = newEpoch bs, deps = [], subs = [], chans = [], nextChan = 0\<rparr>"

definition EnsureDeployment :: "Registry \<Rightarrow> string \<Rightarrow> string \<Rightarrow> Registry" where
  "EnsureDeployment r name ns =
     (case map_of (deps r) name of
        None \<Rightarrow> r\<lparr>deps := AList.update name
          \<lparr>namespace = ns, leaderPod = '''', leaderURL = '''', seq = 0, published = False\<rparr>
          (deps r)\<rparr>
      | Some _ \<Rightarrow> r)"

definition Names :: "Registry \<Rightarrow> string list" where
  "Names r = map fst (deps r)"

definition Namespace :: "Registry \<Rightarrow> string \<Rightarrow> string option" where
  "Namespace r name =
     (case map_of (deps r) name of None \<Rightarrow> None | Some d \<Rightarrow> Some (namespace d))"

text \<open>
  \<open>select { case ch <- ev: default: }\<close>: the flag says whether the event was sent;
  \<open>select { case <-ch: default: }\<close> drops the oldest buffered event, if any.
\<close>

definition trySend :: "LeaderEvent \<Rightarrow> channel \<Rightarrow> (channel \<times> bool) option" where
  "trySend ev ch =
     (if chan_closed ch then None
      else if length (buf ch) < subscriberBuffer then Some (ch\<lparr>buf := buf ch @ [ev]\<rparr>, True)
      else Some (ch, False))"

definition tryDrain :: "channel \<Rightarrow> channel" where
  "tryDrain ch = (case buf ch of [] \<Rightarrow> ch | _ # evs \<Rightarrow> ch\<lparr>buf := evs\<rparr>)"

definition offer :: "LeaderEvent \<Rightarrow> channel \<Rightarrow> channel option" where
  "offer ev ch =
     (case trySend ev ch of
        None \<Rightarrow> None
      | Some (ch', sent) \<Rightarrow>
          (if sent then Some ch' else map_option fst (trySend ev (tryDrain ch'))))"

fun notifyAll ::
  "LeaderEvent \<Rightarrow> nat list \<Rightarrow> (nat, channel) gomap \<Rightarrow> (nat, channel) gomap option" where
  "notifyAll ev [] cs = Some cs"
| "notifyAll ev (c # ids) cs =
     (case map_of cs c of
        None \<Rightarrow> None
      | Some ch \<Rightarrow>
          (case offer ev ch of
             None \<Rightarrow> None
           | Some ch' \<Rightarrow> notifyAll ev ids (AList.update c ch' cs)))"

definition Update :: "Registry \<Rightarrow> string \<Rightarrow> string \<Rightarrow> string \<Rightarrow> Registry option" where
  "Update r name pod url =
     (case map_of (deps r) name of
        None \<Rightarrow> Some r
      | Some d \<Rightarrow>
          (let changed = (leaderPod d \<noteq> pod \<or> leaderURL d \<noteq> url \<or> \<not> published d);
               d1 = d\<lparr>leaderPod := pod, leaderURL := url, published := True\<rparr>
           in if \<not> changed then Some (r\<lparr>deps := AList.update name d1 (deps r)\<rparr>)
              else
                (let d2 = d1\<lparr>seq := seq d1 + 1\<rparr>;
                     r2 = r\<lparr>deps := AList.update name d2 (deps r)\<rparr>;
                     ev = \<lparr>Name = name, LeaderPod = pod, LeaderURL = url,
                           Seq = seq d2, Epoch = epoch r\<rparr>
                 in map_option (\<lambda>cs. r2\<lparr>chans := cs\<rparr>)
                      (notifyAll ev (gget (subs r2) name []) (chans r2)))))"

definition Leader :: "Registry \<Rightarrow> string \<Rightarrow> LeaderEvent \<times> bool" where
  "Leader r name =
     (case map_of (deps r) name of
        None \<Rightarrow> (\<lparr>Name = name, LeaderPod = '''', LeaderURL = '''', Seq = 0, Epoch = epoch r\<rparr>, False)
      | Some d \<Rightarrow> (\<lparr>Name = name, LeaderPod = leaderPod d, LeaderURL = leaderURL d,
                    Seq = seq d, Epoch = epoch r\<rparr>, leaderURL d \<noteq> ''''))"

definition Published :: "Registry \<Rightarrow> string \<Rightarrow> bool" where
  "Published r name = (case map_of (deps r) name of None \<Rightarrow> False | Some d \<Rightarrow> published d)"

fun allPublishedLoop :: "(string, deployment) gomap \<Rightarrow> bool" where
  "allPublishedLoop [] = True"
| "allPublishedLoop ((_, d) # ds) = (if \<not> published d then False else allPublishedLoop ds)"

definition AllPublished :: "Registry \<Rightarrow> bool" where
  "AllPublished r = (if allPublishedLoop (deps r) then length (deps r) > 0 else False)"

definition Subscribe :: "Registry \<Rightarrow> string \<Rightarrow> (Registry \<times> nat) option" where
  "Subscribe r name =
     (if map_of (deps r) name = None then None
      else if length (gget (subs r) name []) \<ge> maxSubscribersPerDeployment then None
      else let ch = nextChan r in
        Some (r\<lparr>chans := AList.update ch \<lparr>buf = [], chan_closed = False\<rparr> (chans r),
                subs := AList.update name (gget (subs r) name [] @ [ch]) (subs r),
                nextChan := Suc ch\<rparr>, ch))"

definition closeChan :: "nat \<Rightarrow> (nat, channel) gomap \<Rightarrow> (nat, channel) gomap option" where
  "closeChan c cs =
     (case map_of cs c of
        None \<Rightarrow> None
      | Some ch \<Rightarrow>
          if chan_closed ch then None
          else Some (AList.update c (ch\<lparr>chan_closed := True\<rparr>) cs))"

text \<open>The \<open>cancel\<close> closure of \<open>Subscribe\<close>; closing a closed channel would panic.\<close>

definition cancelSub :: "Registry \<Rightarrow> string \<Rightarrow> nat \<Rightarrow> Registry option" where
  "cancelSub r name ch =
     (let ids = gget (subs r) name [] in
      if ch \<notin> set ids then Some r
      else map_option
        (\<lambda>cs. r\<lparr>subs := AList.update name (remove1 ch ids) (subs r), chans := cs\<rparr>)
        (closeChan ch (chans r)))"

text \<open>
  The receiving side (\<open>ev, open := <-ch\<close> in the stream handler): \<open>None\<close> while it would
  block, otherwise the event (if the channel still had one) and the new state.
\<close>

definition recv :: "Registry \<Rightarrow> nat \<Rightarrow> (LeaderEvent option \<times> Registry) option" where
  "recv r c =
     (case map_of (chans r) c of
        None \<Rightarrow> None
      | Some ch \<Rightarrow>
          (case buf ch of
             ev # evs \<Rightarrow> Some (Some ev, r\<lparr>chans := AList.update c (ch\<lparr>buf := evs\<rparr>) (chans r)\<rparr>)
           | [] \<Rightarrow> if chan_closed ch then Some (None, r) else None))"

section \<open>The invariant\<close>

text \<open>
  A subscribed channel is open and holds at most one event, and that event is the current
  state of its deployment: a slow subscriber never sees a stale leader.
\<close>

definition chan_ok :: "Registry \<Rightarrow> string \<Rightarrow> nat \<Rightarrow> bool" where
  "chan_ok r n c = (case map_of (chans r) c of None \<Rightarrow> False
     | Some ch \<Rightarrow> \<not> chan_closed ch \<and> (buf ch = [] \<or> buf ch = [fst (Leader r n)]))"

definition subs_ok :: "Registry \<Rightarrow> bool" where
  "subs_ok r = (\<forall>(n, ids) \<in> set (subs r).
     map_of (deps r) n \<noteq> None \<and> distinct ids \<and> length ids \<le> maxSubscribersPerDeployment
     \<and> (\<forall>c \<in> set ids. chan_ok r n c))"

definition subs_disjoint :: "Registry \<Rightarrow> bool" where
  "subs_disjoint r = (\<forall>(n, ids) \<in> set (subs r). \<forall>(m, jds) \<in> set (subs r).
     n \<noteq> m \<longrightarrow> set ids \<inter> set jds = {})"

definition deps_ok :: "Registry \<Rightarrow> bool" where
  "deps_ok r = (\<forall>(n, d) \<in> set (deps r).
     published d \<or> (leaderPod d = '''' \<and> leaderURL d = '''' \<and> seq d = 0))"

definition reg_inv :: "Registry \<Rightarrow> bool" where
  "reg_inv r = (gwf (deps r) \<and> gwf (subs r) \<and> gwf (chans r) \<and> epoch r \<noteq> 0
     \<and> deps_ok r \<and> subs_ok r \<and> subs_disjoint r \<and> (\<forall>c \<in> fst ` set (chans r). c < nextChan r))"


subsection \<open>Reading the invariant through \<open>map_of\<close>\<close>

lemma subs_ok_iff:
  "gwf (subs r) \<Longrightarrow> subs_ok r \<longleftrightarrow> (\<forall>n ids. map_of (subs r) n = Some ids \<longrightarrow>
     map_of (deps r) n \<noteq> None \<and> distinct ids \<and> length ids \<le> maxSubscribersPerDeployment
     \<and> (\<forall>c \<in> set ids. chan_ok r n c))"
  unfolding subs_ok_def by (rule gwf_ball)

lemma subs_disjoint_iff:
  "gwf (subs r) \<Longrightarrow> subs_disjoint r \<longleftrightarrow> (\<forall>n ids m jds. map_of (subs r) n = Some ids \<longrightarrow>
     map_of (subs r) m = Some jds \<longrightarrow> n \<noteq> m \<longrightarrow> set ids \<inter> set jds = {})"
  unfolding subs_disjoint_def by (simp only: gwf_ball) blast

lemma deps_ok_iff:
  "gwf (deps r) \<Longrightarrow> deps_ok r \<longleftrightarrow> (\<forall>n d. map_of (deps r) n = Some d \<longrightarrow>
     published d \<or> (leaderPod d = '''' \<and> leaderURL d = '''' \<and> seq d = 0))"
  unfolding deps_ok_def by (rule gwf_ball)

lemma reg_invI:
  assumes "gwf (deps r)" "gwf (subs r)" "gwf (chans r)" "epoch r \<noteq> 0"
    and "\<And>n d. map_of (deps r) n = Some d \<Longrightarrow>
      published d \<or> (leaderPod d = '''' \<and> leaderURL d = '''' \<and> seq d = 0)"
    and "\<And>n ids. map_of (subs r) n = Some ids \<Longrightarrow> map_of (deps r) n \<noteq> None \<and> distinct ids
      \<and> length ids \<le> maxSubscribersPerDeployment \<and> (\<forall>c \<in> set ids. chan_ok r n c)"
    and "\<And>n ids m jds. map_of (subs r) n = Some ids \<Longrightarrow> map_of (subs r) m = Some jds \<Longrightarrow>
      n \<noteq> m \<Longrightarrow> set ids \<inter> set jds = {}"
    and "\<And>c. map_of (chans r) c \<noteq> None \<Longrightarrow> c < nextChan r"
  shows "reg_inv r"
proof -
  have "\<forall>c \<in> fst ` set (chans r). c < nextChan r"
    using assms(8) by (metis map_of_eq_None_iff)
  moreover have "deps_ok r" using assms(1,5) by (simp add: deps_ok_iff)
  moreover have "subs_ok r" using assms(2,6) by (simp add: subs_ok_iff)
  moreover have "subs_disjoint r" using assms(2,7) by (simp add: subs_disjoint_iff)
  ultimately show ?thesis using assms(1-4) by (simp add: reg_inv_def)
qed

lemma reg_inv_gwf [dest]:
  "reg_inv r \<Longrightarrow> gwf (deps r)" "reg_inv r \<Longrightarrow> gwf (subs r)" "reg_inv r \<Longrightarrow> gwf (chans r)"
  "reg_inv r \<Longrightarrow> epoch r \<noteq> 0"
  by (simp_all add: reg_inv_def)

lemma reg_inv_deps:
  "reg_inv r \<Longrightarrow> map_of (deps r) n = Some d \<Longrightarrow>
     published d \<or> (leaderPod d = '''' \<and> leaderURL d = '''' \<and> seq d = 0)"
  using deps_ok_iff [of r] by (simp add: reg_inv_def)

lemma reg_inv_subs:
  "reg_inv r \<Longrightarrow> map_of (subs r) n = Some ids \<Longrightarrow> map_of (deps r) n \<noteq> None \<and> distinct ids
     \<and> length ids \<le> maxSubscribersPerDeployment \<and> (\<forall>c \<in> set ids. chan_ok r n c)"
  using subs_ok_iff [of r] by (simp add: reg_inv_def)

lemma reg_inv_disjoint:
  "reg_inv r \<Longrightarrow> map_of (subs r) n = Some ids \<Longrightarrow> map_of (subs r) m = Some jds \<Longrightarrow> n \<noteq> m \<Longrightarrow>
     c \<in> set ids \<Longrightarrow> c \<notin> set jds"
  using subs_disjoint_iff [of r] unfolding reg_inv_def by blast

lemma reg_inv_fresh: "reg_inv r \<Longrightarrow> map_of (chans r) c = Some ch \<Longrightarrow> c < nextChan r"
  by (auto simp: reg_inv_def dest!: map_of_SomeD)

lemma chan_okD:
  "chan_ok r n c \<Longrightarrow> \<exists>ch. map_of (chans r) c = Some ch \<and> \<not> chan_closed ch
     \<and> (buf ch = [] \<or> buf ch = [fst (Leader r n)])"
  by (simp add: chan_ok_def split: option.splits)

lemma chan_okI:
  "map_of (chans r) c = Some ch \<Longrightarrow> \<not> chan_closed ch \<Longrightarrow>
     buf ch = [] \<or> buf ch = [fst (Leader r n)] \<Longrightarrow> chan_ok r n c"
  by (simp add: chan_ok_def)

lemma chan_ok_cong:
  "chan_ok r n c \<Longrightarrow> map_of (chans r') c = map_of (chans r) c \<Longrightarrow> Leader r' n = Leader r n \<Longrightarrow>
     chan_ok r' n c"
  by (simp add: chan_ok_def split: option.splits)

lemma Leader_cong:
  "map_of (deps r') n = map_of (deps r) n \<Longrightarrow> epoch r' = epoch r \<Longrightarrow> Leader r' n = Leader r n"
  by (simp add: Leader_def split: option.splits)

section \<open>Channels: the newest event always gets through\<close>

lemma offer_newest:
  "\<not> chan_closed ch \<Longrightarrow> length (buf ch) \<le> subscriberBuffer \<Longrightarrow>
     offer ev ch = Some (ch\<lparr>buf := [ev]\<rparr>)"
  by (cases "buf ch") (auto simp: offer_def trySend_def tryDrain_def subscriberBuffer_def)

lemma notifyAll_spec:
  assumes "gwf cs" "distinct ids"
    and "\<And>c. c \<in> set ids \<Longrightarrow>
      \<exists>ch. map_of cs c = Some ch \<and> \<not> chan_closed ch \<and> length (buf ch) \<le> subscriberBuffer"
  shows "\<exists>cs'. notifyAll ev ids cs = Some cs' \<and> gwf cs' \<and>
    (\<forall>c. map_of cs' c = (if c \<in> set ids then Some \<lparr>buf = [ev], chan_closed = False\<rparr>
                         else map_of cs c))"
  using assms
proof (induction ids arbitrary: cs)
  case Nil
  then show ?case by simp
next
  case (Cons c ids)
  obtain ch where ch: "map_of cs c = Some ch" "\<not> chan_closed ch"
    "length (buf ch) \<le> subscriberBuffer"
    using Cons.prems(3) [of c] by auto
  let ?cs = "AList.update c (ch\<lparr>buf := [ev]\<rparr>) cs"
  have "\<exists>cs'. notifyAll ev ids ?cs = Some cs' \<and> gwf cs' \<and>
    (\<forall>d. map_of cs' d = (if d \<in> set ids then Some \<lparr>buf = [ev], chan_closed = False\<rparr>
                         else map_of ?cs d))"
    using Cons.prems by (intro Cons.IH) auto
  then show ?case
    using ch Cons.prems(2) by (cases ch) (auto simp: offer_newest)
qed

section \<open>What each operation does\<close>

lemma update_same: "map_of m k = Some v \<Longrightarrow> AList.update k v m = m"
  by (induction m) (auto split: if_splits)

lemma Update_unknown: "map_of (deps r) n = None \<Longrightarrow> Update r n pod url = Some r"
  by (simp add: Update_def)

lemma Update_unchanged:
  assumes "map_of (deps r) n = Some d" "leaderPod d = pod" "leaderURL d = url" "published d"
  shows "Update r n pod url = Some r"
proof -
  have "d\<lparr>leaderPod := pod, leaderURL := url, published := True\<rparr> = d"
    using assms by (cases d) simp
  then show ?thesis
    using assms by (simp add: Update_def Let_def update_same)
qed

text \<open>The event a changing \<open>Update\<close> publishes.\<close>

definition publishedEvent :: "Registry \<Rightarrow> string \<Rightarrow> deployment \<Rightarrow> string \<Rightarrow> string \<Rightarrow> LeaderEvent" where
  "publishedEvent r n d pod url =
     \<lparr>Name = n, LeaderPod = pod, LeaderURL = url, Seq = seq d + 1, Epoch = epoch r\<rparr>"

lemma reg_inv_channels:
  assumes "reg_inv r" "c \<in> set (gget (subs r) n [])"
  shows "\<exists>ch. map_of (chans r) c = Some ch \<and> \<not> chan_closed ch
    \<and> length (buf ch) \<le> subscriberBuffer"
proof -
  obtain ids where "map_of (subs r) n = Some ids" "c \<in> set ids"
    using assms(2) by (cases "map_of (subs r) n") (auto simp: gget_def)
  then have "chan_ok r n c" using reg_inv_subs [OF assms(1)] by blast
  then show ?thesis by (auto dest!: chan_okD simp: subscriberBuffer_def)
qed

lemma reg_inv_distinct_subs: "reg_inv r \<Longrightarrow> distinct (gget (subs r) n [])"
  using reg_inv_subs [of r n] by (auto simp: gget_def split: option.splits)

lemma Update_changed:
  assumes inv: "reg_inv r" and d: "map_of (deps r) n = Some d"
    and ch: "leaderPod d \<noteq> pod \<or> leaderURL d \<noteq> url \<or> \<not> published d"
  shows "\<exists>cs. Update r n pod url = Some (r\<lparr>
      deps := AList.update n (d\<lparr>leaderPod := pod, leaderURL := url, published := True,
                               seq := seq d + 1\<rparr>) (deps r),
      chans := cs\<rparr>)
    \<and> gwf cs
    \<and> (\<forall>c. map_of cs c = (if c \<in> set (gget (subs r) n [])
          then Some \<lparr>buf = [publishedEvent r n d pod url], chan_closed = False\<rparr>
          else map_of (chans r) c))"
proof -
  let ?ev = "publishedEvent r n d pod url"
  obtain cs where "notifyAll ?ev (gget (subs r) n []) (chans r) = Some cs" "gwf cs"
    "\<forall>c. map_of cs c = (if c \<in> set (gget (subs r) n [])
       then Some \<lparr>buf = [?ev], chan_closed = False\<rparr> else map_of (chans r) c)"
    using notifyAll_spec [of "chans r" "gget (subs r) n []" ?ev]
      reg_inv_channels [OF inv] reg_inv_distinct_subs [OF inv] inv
    by (metis reg_inv_gwf(3))
  then show ?thesis
    using d ch by (auto simp: Update_def Let_def publishedEvent_def)
qed

lemma Leader_Update_self:
  assumes "map_of (deps r) n = Some d" "Update r n pod url = Some r'"
  shows "LeaderPod (fst (Leader r' n)) = pod \<and> LeaderURL (fst (Leader r' n)) = url
    \<and> snd (Leader r' n) = (url \<noteq> '''')
    \<and> Seq (fst (Leader r' n)) =
        (if leaderPod d \<noteq> pod \<or> leaderURL d \<noteq> url \<or> \<not> published d then seq d + 1 else seq d)
    \<and> Published r' n"
  using assms by (auto simp: Update_def Let_def Leader_def Published_def split: if_splits)

lemma deps_Update:
  assumes "Update r n pod url = Some r'"
  shows "epoch r' = epoch r \<and> subs r' = subs r \<and> nextChan r' = nextChan r
    \<and> (\<forall>m. m \<noteq> n \<longrightarrow> map_of (deps r') m = map_of (deps r) m)
    \<and> (\<forall>m. map_of (deps r') m = None \<longleftrightarrow> map_of (deps r) m = None)"
  using assms by (auto simp: Update_def Let_def split: option.splits if_splits)

lemma Leader_Update_other: "Update r n pod url = Some r' \<Longrightarrow> m \<noteq> n \<Longrightarrow> Leader r' m = Leader r m"
  by (rule Leader_cong) (simp_all add: deps_Update)

section \<open>Every operation keeps the invariant\<close>

lemma newEpoch_nonzero: "newEpoch bs \<noteq> 0"
  by (simp add: newEpoch_def Let_def)

lemma reg_inv_New: "reg_inv (NewRegistry bs)"
  by (rule reg_invI) (simp_all add: NewRegistry_def newEpoch_nonzero)

lemma reg_inv_Ensure:
  assumes inv: "reg_inv r"
  shows "reg_inv (EnsureDeployment r n ns)"
proof (cases "map_of (deps r) n")
  case (Some d)
  then show ?thesis using inv by (simp add: EnsureDeployment_def)
next
  case None
  let ?r = "EnsureDeployment r n ns"
  have r: "deps ?r = AList.update n
      \<lparr>namespace = ns, leaderPod = '''', leaderURL = '''', seq = 0, published = False\<rparr> (deps r)"
    "subs ?r = subs r" "chans ?r = chans r" "epoch ?r = epoch r" "nextChan ?r = nextChan r"
    using None by (simp_all add: EnsureDeployment_def)
  have other: "chan_ok ?r m c" if "chan_ok r m c" "map_of (deps r) m \<noteq> None" for m c
    using that None by (intro chan_ok_cong [OF that(1)] Leader_cong) (auto simp: r)
  show ?thesis
  proof (rule reg_invI)
    fix m ids assume "map_of (subs ?r) m = Some ids"
    then have "map_of (subs r) m = Some ids" by (simp add: r)
    from reg_inv_subs [OF inv this] show "map_of (deps ?r) m \<noteq> None \<and> distinct ids
      \<and> length ids \<le> maxSubscribersPerDeployment \<and> (\<forall>c \<in> set ids. chan_ok ?r m c)"
      using other by (auto simp: r)
  next
    fix m ids k jds
    assume "map_of (subs ?r) m = Some ids" "map_of (subs ?r) k = Some jds" "m \<noteq> k"
    then show "set ids \<inter> set jds = {}"
      using reg_inv_disjoint [OF inv, of m ids k jds] by (auto simp: r)
  qed (use inv reg_inv_deps [OF inv] in \<open>auto simp: r dest: reg_inv_fresh split: if_splits\<close>)
qed

lemma reg_inv_Update:
  assumes inv: "reg_inv r" and upd: "Update r n pod url = Some r'"
  shows "reg_inv r'"
proof (cases "map_of (deps r) n")
  case None
  then show ?thesis using upd inv by (simp add: Update_unknown)
next
  case d: (Some d)
  show ?thesis
  proof (cases "leaderPod d \<noteq> pod \<or> leaderURL d \<noteq> url \<or> \<not> published d")
    case False
    then show ?thesis using Update_unchanged [OF d] upd inv by simp
  next
    case True
    from Update_changed [OF inv d True] upd obtain cs where
      r': "r' = r\<lparr>deps := AList.update n (d\<lparr>leaderPod := pod, leaderURL := url,
              published := True, seq := seq d + 1\<rparr>) (deps r), chans := cs\<rparr>"
      and gwf: "gwf cs"
      and cs: "\<And>c. map_of cs c = (if c \<in> set (gget (subs r) n [])
          then Some \<lparr>buf = [publishedEvent r n d pod url], chan_closed = False\<rparr>
          else map_of (chans r) c)"
      by auto
    have ev: "fst (Leader r' n) = publishedEvent r n d pod url"
      by (simp add: r' Leader_def publishedEvent_def)
    show ?thesis
    proof (rule reg_invI)
      fix m ids assume "map_of (subs r') m = Some ids"
      then have ids: "map_of (subs r) m = Some ids" by (simp add: r')
      have "chan_ok r' m c" if c: "c \<in> set ids" for c
      proof (cases "m = n")
        case True
        then have "c \<in> set (gget (subs r) n [])" using ids c by (simp add: gget_def)
        then have "map_of (chans r') c =
            Some \<lparr>buf = [publishedEvent r n d pod url], chan_closed = False\<rparr>"
          by (simp add: r' cs)
        then show ?thesis using ev True by (auto intro: chan_okI)
      next
        case False
        then have "c \<notin> set (gget (subs r) n [])"
          using reg_inv_disjoint [OF inv ids _ False c]
          by (cases "map_of (subs r) n") (auto simp: gget_def)
        then show ?thesis
          using reg_inv_subs [OF inv ids] c False Leader_Update_other [OF upd False]
          by (intro chan_ok_cong [of r m c r']) (auto simp: r' cs)
      qed
      then show "map_of (deps r') m \<noteq> None \<and> distinct ids
          \<and> length ids \<le> maxSubscribersPerDeployment \<and> (\<forall>c \<in> set ids. chan_ok r' m c)"
        using reg_inv_subs [OF inv ids] by (auto simp: r')
    next
      fix m ids k jds
      assume "map_of (subs r') m = Some ids" "map_of (subs r') k = Some jds" "m \<noteq> k"
      then show "set ids \<inter> set jds = {}"
        using reg_inv_disjoint [OF inv, of m ids k jds] by (auto simp: r')
    next
      fix c assume "map_of (chans r') c \<noteq> None"
      then show "c < nextChan r'"
        using reg_inv_channels [OF inv, of c n] reg_inv_fresh [OF inv]
        by (auto simp: r' cs split: if_splits)
    qed (use inv gwf reg_inv_deps [OF inv] in \<open>auto simp: r' split: if_splits\<close>)
  qed
qed

lemma reg_inv_Subscribe:
  assumes inv: "reg_inv r" and sub: "Subscribe r n = Some (r', c)"
  shows "reg_inv r'"
proof -
  have c: "c = nextChan r" and known: "map_of (deps r) n \<noteq> None"
    and len: "length (gget (subs r) n []) < maxSubscribersPerDeployment"
    and r': "r' = r\<lparr>chans := AList.update c \<lparr>buf = [], chan_closed = False\<rparr> (chans r),
      subs := AList.update n (gget (subs r) n [] @ [c]) (subs r), nextChan := Suc c\<rparr>"
    using sub by (auto simp: Subscribe_def Let_def split: if_splits)
  have old: "d \<noteq> c \<and> chan_ok r' m d" if "map_of (subs r) m = Some ids" "d \<in> set ids" for m ids d
  proof -
    have ok: "chan_ok r m d" using reg_inv_subs [OF inv that(1)] that(2) by blast
    then have "d \<noteq> c"
      using reg_inv_fresh [OF inv] by (auto dest!: chan_okD simp: c)
    then show ?thesis
      by (auto intro!: chan_ok_cong [OF ok] Leader_cong simp: r')
  qed
  have old_n: "d \<noteq> c \<and> chan_ok r' n d" if "d \<in> set (gget (subs r) n [])" for d
    using that old by (cases "map_of (subs r) n") (auto simp: gget_def)
  have origin: "(d = c \<and> m = n) \<or>
      (d \<noteq> c \<and> (\<exists>ids0. map_of (subs r) m = Some ids0 \<and> d \<in> set ids0))"
    if "map_of (subs r') m = Some ids" "d \<in> set ids" for m ids d
    using that old by (cases "map_of (subs r) m") (auto simp: r' gget_def split: if_splits)
  have new: "chan_ok r' n c" by (rule chan_okI [where ch = "\<lparr>buf = [], chan_closed = False\<rparr>"]) (simp_all add: r')
  show ?thesis
  proof (rule reg_invI)
    fix m ids assume ids: "map_of (subs r') m = Some ids"
    show "map_of (deps r') m \<noteq> None \<and> distinct ids
        \<and> length ids \<le> maxSubscribersPerDeployment \<and> (\<forall>c \<in> set ids. chan_ok r' m c)"
    proof (cases "m = n")
      case True
      then have "ids = gget (subs r) n [] @ [c]" using ids by (simp add: r')
      then show ?thesis
        using True known len reg_inv_distinct_subs [OF inv, of n] old_n new by (auto simp: r')
    next
      case False
      then have "map_of (subs r) m = Some ids" using ids by (simp add: r')
      then show ?thesis
        using reg_inv_subs [OF inv, of m ids] old by (auto simp: r')
    qed
  next
    fix m ids k jds
    assume m: "map_of (subs r') m = Some ids" and k: "map_of (subs r') k = Some jds"
      and ne: "m \<noteq> k"
    have False if "d \<in> set ids" "d \<in> set jds" for d
      using origin [OF m that(1)] origin [OF k that(2)] ne
      by (auto dest: reg_inv_disjoint [OF inv])
    then show "set ids \<inter> set jds = {}" by blast
  next
    fix d assume "map_of (chans r') d \<noteq> None"
    then have "d = c \<or> d < nextChan r"
      using reg_inv_fresh [OF inv, of d] by (auto simp: r' split: if_splits)
    then show "d < nextChan r'" by (auto simp: r' c)
  qed (use inv reg_inv_deps [OF inv] in \<open>auto simp: r'\<close>)
qed

lemma cancelSub_spec:
  assumes inv: "reg_inv r"
  shows "\<exists>r'. cancelSub r n c = Some r' \<and> reg_inv r' \<and> deps r' = deps r \<and> epoch r' = epoch r
    \<and> c \<notin> set (gget (subs r') n [])"
proof (cases "c \<in> set (gget (subs r) n [])")
  case False
  then show ?thesis using inv by (simp add: cancelSub_def Let_def)
next
  case True
  obtain ids where ids: "map_of (subs r) n = Some ids" "c \<in> set ids"
    using True by (cases "map_of (subs r) n") (auto simp: gget_def)
  have "chan_ok r n c" using reg_inv_subs [OF inv ids(1)] ids(2) by blast
  then obtain ch where ch: "map_of (chans r) c = Some ch" "\<not> chan_closed ch"
    by (auto dest: chan_okD)
  define r' where "r' = r\<lparr>subs := AList.update n (remove1 c ids) (subs r),
    chans := AList.update c (ch\<lparr>chan_closed := True\<rparr>) (chans r)\<rparr>"
  have "cancelSub r n c = Some r'"
    using ids ch by (simp add: cancelSub_def Let_def closeChan_def gget_def r'_def)
  moreover have dist: "distinct ids" using reg_inv_subs [OF inv ids(1)] by blast
  have keep: "chan_ok r' m d" if "map_of (subs r) m = Some jds" "d \<in> set jds" "d \<noteq> c" for m jds d
    using reg_inv_subs [OF inv that(1)] that(2,3)
    by (intro chan_ok_cong [of r m d r'] Leader_cong) (auto simp: r'_def)
  have origin: "\<exists>jds0. map_of (subs r) m = Some jds0 \<and> d \<in> set jds0"
    if "map_of (subs r') m = Some jds" "d \<in> set jds" for m jds d
    using that ids(1) by (auto simp: r'_def split: if_splits dest: set_remove1_subset [THEN subsetD])
  have "reg_inv r'"
  proof (rule reg_invI)
    fix m jds assume jds: "map_of (subs r') m = Some jds"
    show "map_of (deps r') m \<noteq> None \<and> distinct jds
        \<and> length jds \<le> maxSubscribersPerDeployment \<and> (\<forall>c \<in> set jds. chan_ok r' m c)"
    proof (cases "m = n")
      case True
      then have "jds = remove1 c ids" using jds by (simp add: r'_def)
      then show ?thesis
        using True reg_inv_subs [OF inv ids(1)] keep [OF ids(1)] dist
        by (auto simp: r'_def length_remove1)
    next
      case False
      then have "map_of (subs r) m = Some jds" using jds by (simp add: r'_def)
      then show ?thesis
        using reg_inv_subs [OF inv, of m jds] keep [of m jds] ids False
          reg_inv_disjoint [OF inv ids(1), of m jds c]
        by (auto simp: r'_def)
    qed
  next
    fix m jds k kds
    assume m: "map_of (subs r') m = Some jds" and k: "map_of (subs r') k = Some kds"
      and ne: "m \<noteq> k"
    have False if "d \<in> set jds" "d \<in> set kds" for d
      using origin [OF m that(1)] origin [OF k that(2)] ne
      by (auto dest: reg_inv_disjoint [OF inv])
    then show "set jds \<inter> set kds = {}" by blast
  qed (use inv reg_inv_deps [OF inv] ch in
      \<open>auto simp: r'_def dest: reg_inv_fresh split: if_splits\<close>)
  ultimately show ?thesis
    using dist by (auto simp: r'_def)
qed

lemma reg_inv_recv:
  assumes inv: "reg_inv r" and rv: "recv r c = Some (e, r')"
  shows "reg_inv r'"
proof (cases "\<exists>ch ev evs. map_of (chans r) c = Some ch \<and> buf ch = ev # evs")
  case False
  then have "r' = r" using rv by (auto simp: recv_def split: option.splits list.splits if_splits)
  then show ?thesis using inv by simp
next
  case True
  then obtain ch ev evs where ch: "map_of (chans r) c = Some ch" "buf ch = ev # evs" by blast
  then have r': "r' = r\<lparr>chans := AList.update c (ch\<lparr>buf := evs\<rparr>) (chans r)\<rparr>"
    using rv by (simp add: recv_def)
  have keep: "chan_ok r' m d" if ok: "chan_ok r m d" for m d
  proof (cases "d = c")
    case True
    have "evs = []" "\<not> chan_closed ch" using chan_okD [OF ok] ch True by auto
    then show ?thesis
      using True by (intro chan_okI [where ch = "ch\<lparr>buf := evs\<rparr>"]) (simp_all add: r')
  next
    case False
    then show ?thesis by (intro chan_ok_cong [OF ok] Leader_cong) (simp_all add: r')
  qed
  show ?thesis
  proof (rule reg_invI)
    fix m ids assume "map_of (subs r') m = Some ids"
    then have "map_of (subs r) m = Some ids" by (simp add: r')
    from reg_inv_subs [OF inv this] show "map_of (deps r') m \<noteq> None \<and> distinct ids
      \<and> length ids \<le> maxSubscribersPerDeployment \<and> (\<forall>c \<in> set ids. chan_ok r' m c)"
      using keep by (auto simp: r')
  next
    fix m ids k jds
    assume "map_of (subs r') m = Some ids" "map_of (subs r') k = Some jds" "m \<noteq> k"
    then show "set ids \<inter> set jds = {}"
      using reg_inv_disjoint [OF inv, of m ids k jds] by (auto simp: r')
  qed (use inv reg_inv_deps [OF inv] ch in
      \<open>auto simp: r' dest: reg_inv_fresh split: if_splits\<close>)
qed

section \<open>Executions: any interleaving of the methods\<close>

inductive registry_step :: "Registry \<Rightarrow> Registry \<Rightarrow> bool" where
  ensure: "registry_step r (EnsureDeployment r n ns)"
| update: "Update r n pod url = Some r' \<Longrightarrow> registry_step r r'"
| subscribe: "Subscribe r n = Some (r', c) \<Longrightarrow> registry_step r r'"
| cancel: "cancelSub r n c = Some r' \<Longrightarrow> registry_step r r'"
| receive: "recv r c = Some (e, r') \<Longrightarrow> registry_step r r'"

inductive registry_reachable :: "Registry \<Rightarrow> bool" where
  new: "registry_reachable (NewRegistry bs)"
| step: "registry_reachable r \<Longrightarrow> registry_step r r' \<Longrightarrow> registry_reachable r'"

lemma registry_step_inv: "registry_step r r' \<Longrightarrow> reg_inv r \<Longrightarrow> reg_inv r'"
proof (induction rule: registry_step.induct)
  case (cancel r n c r')
  then show ?case using cancelSub_spec [of r n c] by auto
qed (auto intro: reg_inv_Ensure reg_inv_Update reg_inv_Subscribe reg_inv_recv)

lemma reachable_reg_inv: "registry_reachable r \<Longrightarrow> reg_inv r"
  by (induction rule: registry_reachable.induct) (auto intro: reg_inv_New registry_step_inv)

lemma Update_total: "reg_inv r \<Longrightarrow> \<exists>r'. Update r n pod url = Some r' \<and> reg_inv r'"
  using Update_unknown [of r n pod url] Update_unchanged [of r n] Update_changed [of r n]
    reg_inv_Update [of r n pod url]
  by (cases "map_of (deps r) n") (metis, metis)

section \<open>The registry as a leader store\<close>

text \<open>
  What the election controller, the HTTP server and the stream handler rely on: publishing
  for a known deployment always succeeds, makes the given leader current, leaves the other
  deployments alone, and either changes nothing or advances the sequence number by one.
\<close>

fun publishes ::
  "('s \<Rightarrow> string \<Rightarrow> string \<Rightarrow> string \<Rightarrow> 's option) \<Rightarrow> 's \<Rightarrow> string \<Rightarrow> (string \<times> string) list \<Rightarrow> 's option"
where
  "publishes upd s n [] = Some s"
| "publishes upd s n ((pod, url) # xs) =
     (case upd s n pod url of None \<Rightarrow> None | Some s' \<Rightarrow> publishes upd s' n xs)"

text \<open>The states of one deployment along such a run, as events.\<close>

fun history ::
  "('s \<Rightarrow> string \<Rightarrow> string \<Rightarrow> string \<Rightarrow> 's option) \<Rightarrow> ('s \<Rightarrow> string \<Rightarrow> LeaderEvent \<times> bool) \<Rightarrow> 's
    \<Rightarrow> string \<Rightarrow> (string \<times> string) list \<Rightarrow> LeaderEvent list"
where
  "history upd lead s n [] = [fst (lead s n)]"
| "history upd lead s n ((pod, url) # xs) =
     fst (lead s n) # (case upd s n pod url of None \<Rightarrow> [] | Some s' \<Rightarrow> history upd lead s' n xs)"

locale leader_store =
  fixes inv :: "'s \<Rightarrow> bool"
    and known :: "'s \<Rightarrow> string \<Rightarrow> bool"
    and upd :: "'s \<Rightarrow> string \<Rightarrow> string \<Rightarrow> string \<Rightarrow> 's option"
    and lead :: "'s \<Rightarrow> string \<Rightarrow> LeaderEvent \<times> bool"
  assumes upd_total: "inv s \<Longrightarrow> \<exists>s'. upd s n pod url = Some s' \<and> inv s'"
    and upd_known: "upd s n pod url = Some s' \<Longrightarrow> known s' m = known s m"
    and upd_leader: "known s n \<Longrightarrow> upd s n pod url = Some s' \<Longrightarrow>
      LeaderPod (fst (lead s' n)) = pod \<and> LeaderURL (fst (lead s' n)) = url
        \<and> snd (lead s' n) = (url \<noteq> '''')"
    and upd_other: "upd s n pod url = Some s' \<Longrightarrow> m \<noteq> n \<Longrightarrow> lead s' m = lead s m"
    and upd_seq: "known s n \<Longrightarrow> upd s n pod url = Some s' \<Longrightarrow>
      fst (lead s' n) = fst (lead s n) \<or> Seq (fst (lead s' n)) = Seq (fst (lead s n)) + 1"
    and upd_epoch: "upd s n pod url = Some s' \<Longrightarrow> Epoch (fst (lead s' n)) = Epoch (fst (lead s n))"
begin

lemma publishes_total:
  "inv s \<Longrightarrow> \<exists>s'. publishes upd s n xs = Some s' \<and> inv s'"
proof (induction xs arbitrary: s)
  case Nil
  then show ?case by simp
next
  case (Cons x xs)
  obtain pod url where x: "x = (pod, url)" by (cases x)
  obtain s1 where "upd s n pod url = Some s1" "inv s1"
    using upd_total [OF Cons.prems] by blast
  then show ?case using Cons.IH x by auto
qed

lemma publishes_last:
  assumes "known s n" "publishes upd s n (xs @ [(pod, url)]) = Some s'"
  shows "LeaderPod (fst (lead s' n)) = pod \<and> LeaderURL (fst (lead s' n)) = url"
  using assms
proof (induction xs arbitrary: s)
  case Nil
  then show ?case using upd_leader by (auto split: option.splits)
next
  case (Cons x xs)
  obtain a b where x: "x = (a, b)" by (cases x)
  then obtain s1 where s1: "upd s n a b = Some s1"
    and pub: "publishes upd s1 n (xs @ [(pod, url)]) = Some s'"
    using Cons.prems(2) by (auto split: option.splits)
  have "known s1 n" using upd_known [OF s1] Cons.prems(1) by simp
  then show ?case using pub by (rule Cons.IH)
qed

lemma history_nonempty: "history upd lead s n xs \<noteq> []"
  by (cases xs) auto

lemma history_versions:
  assumes "inv s" "known s n" "unat (Seq (fst (lead s n))) + length xs < 2 ^ 64"
  shows "\<exists>s'. publishes upd s n xs = Some s'
    \<and> last (history upd lead s n xs) = fst (lead s' n)
    \<and> (\<forall>e \<in> set (history upd lead s n xs).
          Epoch e = Epoch (fst (lead s n))
        \<and> unat (Seq (fst (lead s n))) \<le> unat (Seq e)
        \<and> unat (Seq e) \<le> unat (Seq (fst (lead s' n)))
        \<and> (\<forall>e' \<in> set (history upd lead s n xs). Seq e = Seq e' \<longrightarrow> e = e'))"
  using assms
proof (induction xs arbitrary: s)
  case Nil
  then show ?case by simp
next
  case (Cons x xs)
  obtain pod url where x: "x = (pod, url)" by (cases x)
  obtain s1 where s1: "upd s n pod url = Some s1" "inv s1"
    using upd_total [OF Cons.prems(1)] by blast
  let ?v = "unat (Seq (fst (lead s n)))" and ?v1 = "unat (Seq (fst (lead s1 n)))"
  have known1: "known s1 n" using upd_known [OF s1(1)] Cons.prems(2) by simp
  have step: "fst (lead s1 n) = fst (lead s n) \<or> ?v1 = ?v + 1"
    using upd_seq [OF Cons.prems(2) s1(1)] Cons.prems(3) unat_inc_u64 [of "Seq (fst (lead s n))"]
    by auto
  then have "?v1 + length xs < 2 ^ 64" using Cons.prems(3) by auto
  from Cons.IH [OF s1(2) known1 this] obtain s' where
    pub: "publishes upd s1 n xs = Some s'"
    and last: "last (history upd lead s1 n xs) = fst (lead s' n)"
    and hist: "\<And>e. e \<in> set (history upd lead s1 n xs) \<Longrightarrow>
        Epoch e = Epoch (fst (lead s1 n)) \<and> ?v1 \<le> unat (Seq e)
        \<and> unat (Seq e) \<le> unat (Seq (fst (lead s' n)))
        \<and> (\<forall>e' \<in> set (history upd lead s1 n xs). Seq e = Seq e' \<longrightarrow> e = e')"
    by blast
  have first: "fst (lead s1 n) \<in> set (history upd lead s1 n xs)"
    by (cases xs) auto
  have top: "?v \<le> unat (Seq (fst (lead s' n)))"
    using hist [OF first] step by auto
  have same: "e = fst (lead s n)"
    if "e \<in> set (history upd lead s1 n xs)" "Seq e = Seq (fst (lead s n))" for e
    using hist [OF that(1)] hist [OF first] first step that(2) by auto
  have low: "?v \<le> unat (Seq e)" if "e \<in> set (history upd lead s1 n xs)" for e
    using hist [OF that] step by auto
  have H: "history upd lead s n (x # xs) = fst (lead s n) # history upd lead s1 n xs"
    and P: "publishes upd s n (x # xs) = Some s'"
    by (simp_all add: x s1(1) pub)
  have "Epoch e = Epoch (fst (lead s n)) \<and> ?v \<le> unat (Seq e)
      \<and> unat (Seq e) \<le> unat (Seq (fst (lead s' n)))
      \<and> (\<forall>e' \<in> set (history upd lead s n (x # xs)). Seq e = Seq e' \<longrightarrow> e = e')"
    if e: "e \<in> set (history upd lead s n (x # xs))" for e
  proof (cases "e = fst (lead s n)")
    case True
    then show ?thesis using top same unfolding H by fastforce
  next
    case False
    then have "e \<in> set (history upd lead s1 n xs)" using e H by simp
    then show ?thesis
      using hist [of e] low [of e] same [of e] upd_epoch [OF s1(1)] unfolding H by simp
  qed
  moreover have "last (history upd lead s n (x # xs)) = fst (lead s' n)"
    using last history_nonempty [of s1] unfolding H by simp
  ultimately show ?case using P by blast
qed

end

definition isKnown :: "Registry \<Rightarrow> string \<Rightarrow> bool" where
  "isKnown r n = (map_of (deps r) n \<noteq> None)"

interpretation store: leader_store reg_inv isKnown Update Leader
proof
  fix r n pod url assume "reg_inv r"
  then show "\<exists>r'. Update r n pod url = Some r' \<and> reg_inv r'" by (rule Update_total)
next
  fix r n pod url r' m assume "Update r n pod url = Some r'"
  then show "isKnown r' m = isKnown r m" by (simp add: isKnown_def deps_Update)
next
  fix r n pod url r' assume "isKnown r n" and upd: "Update r n pod url = Some r'"
  then obtain d where d: "map_of (deps r) n = Some d" by (auto simp: isKnown_def)
  show "LeaderPod (fst (Leader r' n)) = pod \<and> LeaderURL (fst (Leader r' n)) = url
      \<and> snd (Leader r' n) = (url \<noteq> '''')"
    using Leader_Update_self [OF d upd] by simp
  show "fst (Leader r' n) = fst (Leader r n)
      \<or> Seq (fst (Leader r' n)) = Seq (fst (Leader r n)) + 1"
  proof (cases "leaderPod d = pod \<and> leaderURL d = url \<and> published d")
    case True
    then show ?thesis using Update_unchanged [OF d] upd by simp
  next
    case False
    then show ?thesis using Leader_Update_self [OF d upd] by (auto simp: Leader_def d)
  qed
next
  fix r n pod url r' m assume "Update r n pod url = Some r'" "m \<noteq> n"
  then show "Leader r' m = Leader r m" by (rule Leader_Update_other)
next
  fix r n pod url r' assume "Update r n pod url = Some r'"
  then show "Epoch (fst (Leader r' n)) = Epoch (fst (Leader r n))"
    using deps_Update by (auto simp: Leader_def split: option.splits)
qed

text \<open>
  A registry evolves by its operations; as long as the counter of a deployment does not wrap, a
  published deployment stays published, its epoch stays, and its events are ordered by their
  sequence numbers.
\<close>

inductive evolves :: "string \<Rightarrow> Registry \<Rightarrow> Registry \<Rightarrow> bool" for n where
  same: "evolves n r r"
| step: "evolves n r r' \<Longrightarrow> registry_step r' r'' \<Longrightarrow> Seq (fst (Leader r' n)) \<noteq> - 1 \<Longrightarrow> evolves n r r''"

lemma kept_deployment:
  assumes "map_of (deps r') n = map_of (deps r) n" and "epoch r' = epoch r" and "Published r n"
  shows "Published r' n \<and> epoch r' = epoch r \<and> fst (Leader r' n) = fst (Leader r n)"
  using assms Leader_cong [OF assms(1,2)] by (simp add: Published_def)

lemma evolve_step:
  assumes "registry_step r r'" and "reg_inv r" and "Published r n"
  shows "Published r' n \<and> epoch r' = epoch r
    \<and> (fst (Leader r' n) = fst (Leader r n) \<or> Seq (fst (Leader r' n)) = Seq (fst (Leader r n)) + 1)"
  using assms
proof (induction rule: registry_step.induct)
  case (ensure r m ns)
  then have "map_of (deps (EnsureDeployment r m ns)) n = map_of (deps r) n" "epoch (EnsureDeployment r m ns) = epoch r"
    by (auto simp: EnsureDeployment_def Published_def split: option.splits)
  then show ?case using kept_deployment ensure(2) by blast
next
  case (update r m pod url r')
  have e: "epoch r' = epoch r" using deps_Update [OF update(1)] by simp
  have k: "isKnown r n" using update(3) by (auto simp: Published_def isKnown_def split: option.splits)
  show ?case
  proof (cases "m = n")
    case True
    obtain d where d: "map_of (deps r) n = Some d" using k by (auto simp: isKnown_def)
    show ?thesis
      using store.upd_seq [OF k] update(1) Leader_Update_self [OF d] e True by blast
  next
    case False
    then show ?thesis
      using Leader_Update_other [OF update(1), of n] deps_Update [OF update(1)] update(3)
      by (simp add: Published_def)
  qed
next
  case (subscribe r m r' c)
  then have "deps r' = deps r" "epoch r' = epoch r" by (auto simp: Subscribe_def Let_def split: if_splits)
  then show ?case using kept_deployment [of r' n r] subscribe(3) by simp
next
  case (cancel r m c r')
  then have "deps r' = deps r" "epoch r' = epoch r" using cancelSub_spec [of r m c] by auto
  then show ?case using kept_deployment [of r' n r] cancel(3) by simp
next
  case (receive r c e r')
  then have "deps r' = deps r" "epoch r' = epoch r" by (auto simp: recv_def split: option.splits list.splits if_splits)
  then show ?case using kept_deployment [of r' n r] receive(3) by simp
qed

lemma evolves_ordered:
  assumes "evolves n r r'" and "registry_reachable r" and "Published r n"
  shows "registry_reachable r' \<and> Published r' n \<and> epoch r' = epoch r
    \<and> Seq (fst (Leader r n)) \<le> Seq (fst (Leader r' n))
    \<and> (Seq (fst (Leader r' n)) = Seq (fst (Leader r n)) \<longrightarrow> fst (Leader r' n) = fst (Leader r n))"
  using assms
proof (induction rule: evolves.induct)
  case (step r r' r'')
  have IH: "registry_reachable r'" "Published r' n" "epoch r' = epoch r"
    "Seq (fst (Leader r n)) \<le> Seq (fst (Leader r' n))"
    "Seq (fst (Leader r' n)) = Seq (fst (Leader r n)) \<longrightarrow> fst (Leader r' n) = fst (Leader r n)"
    using step.IH [OF step.prems] by simp_all
  have up: "Seq (fst (Leader r' n)) < Seq (fst (Leader r' n)) + 1"
    using step.hyps(3) inc_less_eq_self_iff_eq [of "Seq (fst (Leader r' n))"] by (simp add: not_le [symmetric])
  have "fst (Leader r'' n) = fst (Leader r' n) \<or> Seq (fst (Leader r'' n)) = Seq (fst (Leader r' n)) + 1"
    "Published r'' n" "epoch r'' = epoch r"
    using evolve_step [OF step.hyps(2) reachable_reg_inv [OF IH(1)] IH(2)] IH(3) by simp_all
  moreover have "registry_reachable r''" by (rule registry_reachable.step [OF IH(1) step.hyps(2)])
  ultimately show ?case using IH(4,5) up by auto
qed simp

section \<open>Properties\<close>

lemma subscriber_channel:
  assumes "reg_inv r" "c \<in> set (gget (subs r) n [])"
  shows "chan_ok r n c"
proof -
  obtain ids where "map_of (subs r) n = Some ids" "c \<in> set ids"
    using assms(2) by (cases "map_of (subs r) n") (auto simp: gget_def)
  then show ?thesis using reg_inv_subs [OF assms(1)] by blast
qed

text \<open>A concrete execution for the witnesses: one deployment, one subscriber, one leader.\<close>

definition sampleRegistry :: Registry where
  "sampleRegistry = EnsureDeployment (NewRegistry [1, 0, 0, 0, 0, 0, 0, 0]) ''dev'' ''convex-dev''"

definition sampleSubscribed :: Registry where
  "sampleSubscribed = fst (the (Subscribe sampleRegistry ''dev''))"

definition sampleUpdated :: Registry where
  "sampleUpdated = the (Update sampleSubscribed ''dev'' ''backend-0'' ''http://a:3210'')"

lemmas sample_defs = sampleRegistry_def sampleSubscribed_def sampleUpdated_def
  EnsureDeployment_def NewRegistry_def Subscribe_def Update_def Let_def isKnown_def gget_def
  offer_def trySend_def subscriberBuffer_def maxSubscribersPerDeployment_def Leader_def recv_def

lemma sampleSubscribed_eq: "Subscribe sampleRegistry ''dev'' = Some (sampleSubscribed, 0)"
  by (simp add: sample_defs)

lemma sampleUpdated_eq:
  "Update sampleSubscribed ''dev'' ''backend-0'' ''http://a:3210'' = Some sampleUpdated"
  by (simp add: sample_defs)

lemma sample_reachable:
  "registry_reachable sampleRegistry" "registry_reachable sampleSubscribed"
  "registry_reachable sampleUpdated"
proof -
  show 1: "registry_reachable sampleRegistry"
    unfolding sampleRegistry_def
    by (rule registry_reachable.step [OF registry_reachable.new registry_step.ensure])
  show 2: "registry_reachable sampleSubscribed"
    by (rule registry_reachable.step [OF 1 registry_step.subscribe [OF sampleSubscribed_eq]])
  show "registry_reachable sampleUpdated"
    by (rule registry_reachable.step [OF 2 registry_step.update [OF sampleUpdated_eq]])
qed

text \<open>
  Whatever the interleaving of registrations, publications, subscriptions, cancellations
  and receptions, publishing and cancelling never panic: no event is sent on a closed channel
  and no channel is closed twice.
\<close>

theorem registry_never_panics:
  assumes "registry_reachable r"
  shows "Update r n pod url \<noteq> None \<and> cancelSub r n c \<noteq> None"
  using Update_total [OF reachable_reg_inv [OF assms]]
    cancelSub_spec [OF reachable_reg_inv [OF assms]]
  by (metis option.distinct(1))

theorem registry_never_panics_witness:
  "registry_reachable sampleUpdated
    \<and> Update sampleUpdated ''dev'' '''' '''' \<noteq> None \<and> cancelSub sampleUpdated ''dev'' 0 \<noteq> None"
  using registry_never_panics [OF sample_reachable(3)] sample_reachable(3) by blast

text \<open>
  Publishing for a known deployment makes exactly the given leader current and published,
  advances the sequence number exactly when the leader state or the published flag changes,
  and touches no other deployment.
\<close>

theorem registry_update_effect:
  assumes "registry_reachable r" and "isKnown r n"
  shows "\<exists>r'. Update r n pod url = Some r'
    \<and> Published r' n \<and> LeaderPod (fst (Leader r' n)) = pod \<and> LeaderURL (fst (Leader r' n)) = url
    \<and> snd (Leader r' n) = (url \<noteq> '''')
    \<and> Seq (fst (Leader r' n)) =
        (if LeaderPod (fst (Leader r n)) = pod \<and> LeaderURL (fst (Leader r n)) = url
            \<and> Published r n
         then Seq (fst (Leader r n)) else Seq (fst (Leader r n)) + 1)
    \<and> (\<forall>m. m \<noteq> n \<longrightarrow> Leader r' m = Leader r m \<and> Published r' m = Published r m)"
proof -
  obtain r' where r': "Update r n pod url = Some r'"
    using Update_total [OF reachable_reg_inv [OF assms(1)]] by blast
  obtain d where d: "map_of (deps r) n = Some d" using assms(2) by (auto simp: isKnown_def)
  have "\<forall>m. m \<noteq> n \<longrightarrow> Leader r' m = Leader r m \<and> Published r' m = Published r m"
    using Leader_Update_other [OF r'] deps_Update [OF r'] by (simp add: Published_def)
  then show ?thesis
    using r' Leader_Update_self [OF d r'] d by (auto simp: Leader_def Published_def)
qed

theorem registry_update_effect_witness:
  "\<exists>r'. Update sampleRegistry ''dev'' '''' '''' = Some r' \<and> Published r' ''dev''
    \<and> Seq (fst (Leader r' ''dev'')) = 1"
proof -
  have "isKnown sampleRegistry ''dev''" by (simp add: sample_defs)
  from registry_update_effect [OF sample_reachable(1) this, of "''''" "''''"]
  show ?thesis by (auto simp: sample_defs Published_def)
qed

text \<open>
  What a stream subscriber takes out of its channel is always the current leader state of
  its deployment at that moment, however slow the subscriber is; its channel is never found
  closed while subscribed.
\<close>

theorem subscriber_sees_current:
  assumes "registry_reachable r" and "c \<in> set (gget (subs r) n [])" and "recv r c = Some (e, r')"
  shows "e = Some (fst (Leader r n))"
  using chan_okD [OF subscriber_channel [OF reachable_reg_inv [OF assms(1)] assms(2)]] assms(3)
  by (auto simp: recv_def)

theorem subscriber_sees_current_witness:
  "\<exists>r'. recv sampleUpdated 0 = Some (Some (fst (Leader sampleUpdated ''dev'')), r')"
proof -
  have sub: "0 \<in> set (gget (subs sampleUpdated) ''dev'' [])" by (simp add: sample_defs)
  obtain e r' where rv: "recv sampleUpdated 0 = Some (e, r')"
    by (simp add: sample_defs)
  from subscriber_sees_current [OF sample_reachable(3) sub rv] rv show ?thesis by auto
qed

text \<open>
  No change is lost: right after a publication that changed the state of a deployment,
  every subscriber of it finds the new state in its channel, even if it had not read before.
\<close>

theorem change_reaches_subscribers:
  assumes "registry_reachable r" and "Update r n pod url = Some r'"
    and "fst (Leader r' n) \<noteq> fst (Leader r n)" and "c \<in> set (gget (subs r) n [])"
  shows "\<exists>r''. recv r' c = Some (Some (fst (Leader r' n)), r'')"
proof -
  have inv: "reg_inv r" by (rule reachable_reg_inv [OF assms(1)])
  obtain d where d: "map_of (deps r) n = Some d"
    using assms(2,3) Update_unknown [of r n] by (cases "map_of (deps r) n") auto
  have "leaderPod d \<noteq> pod \<or> leaderURL d \<noteq> url \<or> \<not> published d"
    using Update_unchanged [OF d] assms(2,3) by auto
  from Update_changed [OF inv d this] assms(2,4)
  have "map_of (chans r') c = Some \<lparr>buf = [publishedEvent r n d pod url], chan_closed = False\<rparr>"
    and "fst (Leader r' n) = publishedEvent r n d pod url"
    by (auto simp: Leader_def publishedEvent_def)
  then show ?thesis by (simp add: recv_def)
qed

theorem change_reaches_subscribers_witness:
  "\<exists>r''. recv sampleUpdated 0 = Some (Some (fst (Leader sampleUpdated ''dev'')), r'')"
  by (rule change_reaches_subscribers [OF sample_reachable(2) sampleUpdated_eq])
    (simp_all add: sample_defs)

text \<open>
  Along any run of publications for one deployment (short enough for the 64-bit counter
  not to wrap) the published states form a versioned history: the sequence number never
  decreases, two states with equal numbers are the same state, the epoch never changes, and
  the last state carries the greatest number.
\<close>

theorem published_history_is_versioned:
  assumes "registry_reachable r" and "isKnown r n"
    and "unat (Seq (fst (Leader r n))) + length xs < 2 ^ 64"
  shows "\<exists>r'. publishes Update r n xs = Some r'
    \<and> last (history Update Leader r n xs) = fst (Leader r' n)
    \<and> (\<forall>e \<in> set (history Update Leader r n xs).
          Epoch e = Epoch (fst (Leader r n))
        \<and> unat (Seq (fst (Leader r n))) \<le> unat (Seq e)
        \<and> unat (Seq e) \<le> unat (Seq (fst (Leader r' n)))
        \<and> (\<forall>e' \<in> set (history Update Leader r n xs). Seq e = Seq e' \<longrightarrow> e = e'))"
  by (rule store.history_versions [OF reachable_reg_inv [OF assms(1)] assms(2,3)])

theorem published_history_is_versioned_witness:
  "\<exists>r'. publishes Update sampleRegistry ''dev''
      [(''backend-0'', ''http://a:3210''), ('''', '''')] = Some r'
    \<and> last (history Update Leader sampleRegistry ''dev''
        [(''backend-0'', ''http://a:3210''), ('''', '''')]) = fst (Leader r' ''dev'')"
proof -
  have "isKnown sampleRegistry ''dev''"
    and "unat (Seq (fst (Leader sampleRegistry ''dev'')))
      + length [(''backend-0'', ''http://a:3210''), ('''', '''')] < 2 ^ 64"
    by (simp_all add: sample_defs)
  from published_history_is_versioned [OF sample_reachable(1) this] show ?thesis by blast
qed

text \<open>
  A deployment never has more than 128 stream subscribers, and a subscription is refused
  exactly when the deployment is unknown or already has that many.
\<close>

theorem subscription_cap:
  assumes "registry_reachable r"
  shows "length (gget (subs r) n []) \<le> 128
    \<and> (Subscribe r n = None \<longleftrightarrow> \<not> isKnown r n \<or> length (gget (subs r) n []) = 128)"
proof -
  have "length (gget (subs r) n []) \<le> maxSubscribersPerDeployment"
    using reg_inv_subs [OF reachable_reg_inv [OF assms]]
    by (cases "map_of (subs r) n") (auto simp: gget_def)
  then show ?thesis
    by (auto simp: Subscribe_def Let_def isKnown_def maxSubscribersPerDeployment_def)
qed

theorem subscription_cap_witness:
  "length (gget (subs sampleUpdated) ''dev'' []) \<le> 128 \<and> Subscribe sampleUpdated ''prod'' = None"
proof -
  have "\<not> isKnown sampleUpdated ''prod''" by (simp add: sample_defs)
  then show ?thesis
    using subscription_cap [OF sample_reachable(3), of "''dev''"]
      subscription_cap [OF sample_reachable(3), of "''prod''"] by blast
qed

end
