(* ===== verification/GoStd.thy ===== *)
theory GoStd
  imports Prelude
begin

text \<open>
  The parts of Go's standard library the code uses on strings: prefixes and cuts, the decimal
  form of unsigned integers and its parser. Later components (host and path handling) add to
  what is needed here; each function is total and executable.
\<close>

section \<open>Prefixes, suffixes, cuts (package strings)\<close>

fun HasPrefix :: "string \<Rightarrow> string \<Rightarrow> bool" where
  "HasPrefix s [] = True"
| "HasPrefix [] (p # ps) = False"
| "HasPrefix (c # s) (p # ps) = (c = p \<and> HasPrefix s ps)"

definition CutPrefix :: "string \<Rightarrow> string \<Rightarrow> string option" where
  "CutPrefix s p = (if HasPrefix s p then Some (drop (length p) s) else None)"

lemma HasPrefix_append [simp]: "HasPrefix (p @ s) p"
  by (induction p) auto

lemma HasPrefix_iff: "HasPrefix s p \<longleftrightarrow> (\<exists>t. s = p @ t)"
proof
  show "HasPrefix s p \<Longrightarrow> \<exists>t. s = p @ t"
    by (induction s p rule: HasPrefix.induct) auto
qed auto

lemma CutPrefix_append [simp]: "CutPrefix (p @ s) p = Some s"
  by (simp add: CutPrefix_def)

lemma CutPrefix_Some: "CutPrefix s p = Some t \<longleftrightarrow> s = p @ t"
  by (auto simp: CutPrefix_def HasPrefix_iff)

section \<open>Decimal numbers (package strconv)\<close>

definition digitChar :: "nat \<Rightarrow> char" where
  "digitChar d = char_of (48 + d)"

definition isDigit :: "char \<Rightarrow> bool" where
  "isDigit c = (48 \<le> (of_char c :: nat) \<and> (of_char c :: nat) \<le> 57)"

definition digitVal :: "char \<Rightarrow> nat" where
  "digitVal c = of_char c - 48"

fun formatNat :: "nat \<Rightarrow> string" where
  "formatNat n = (if n < 10 then [digitChar n] else formatNat (n div 10) @ [digitChar (n mod 10)])"

declare formatNat.simps [simp del]

definition FormatUint :: "u64 \<Rightarrow> string" where
  "FormatUint w = formatNat (unat w)"

definition digitsVal :: "nat \<Rightarrow> string \<Rightarrow> nat" where
  "digitsVal = foldl (\<lambda>acc c. 10 * acc + digitVal c)"

definition parseNat :: "string \<Rightarrow> nat option" where
  "parseNat s = (if s = '''' \<or> \<not> list_all isDigit s then None else Some (digitsVal 0 s))"

lemma digit_ok: "d < 10 \<Longrightarrow> isDigit (digitChar d) \<and> digitVal (digitChar d) = d"
  by (auto simp: digitChar_def isDigit_def digitVal_def)

lemma digitsVal_snoc [simp]: "digitsVal a (s @ [c]) = 10 * digitsVal a s + digitVal c"
  by (simp add: digitsVal_def)

lemma formatNat_digits: "formatNat n \<noteq> [] \<and> list_all isDigit (formatNat n)"
proof (induction n rule: formatNat.induct)
  case (1 n)
  then show ?case
    using digit_ok [of n] digit_ok [of "n mod 10"] by (subst (1 2) formatNat.simps) auto
qed

lemma digitsVal_formatNat: "digitsVal 0 (formatNat n) = n"
proof (induction n rule: formatNat.induct)
  case (1 n)
  show ?case
  proof (cases "n < 10")
    case True
    then show ?thesis
      using digit_ok [OF True] by (subst formatNat.simps) (simp add: digitsVal_def)
  next
    case False
    then have "digitsVal 0 (formatNat n) = 10 * (n div 10) + n mod 10"
      using 1 digit_ok [of "n mod 10"] by (subst formatNat.simps) simp
    then show ?thesis by simp
  qed
qed

lemma parse_formatNat [simp]: "parseNat (formatNat n) = Some n"
  using formatNat_digits [of n] by (simp add: parseNat_def digitsVal_formatNat)

lemma formatNat_inject [simp]: "formatNat m = formatNat n \<longleftrightarrow> m = n"
  by (metis digitsVal_formatNat)

lemma FormatUint_inject [simp]: "FormatUint v = FormatUint w \<longleftrightarrow> v = w"
  unfolding FormatUint_def formatNat_inject by (rule word_unat_eq_iff [symmetric])

section \<open>White space (package strings)\<close>

text \<open>
  \<open>strings.TrimSpace\<close> removes the ASCII blanks and the UTF-8 forms of the other Unicode white
  space from both ends.
\<close>

definition whiteSpace :: "string list" where
  "whiteSpace =
     [[CHR 0x09], [CHR 0x0A], [CHR 0x0B], [CHR 0x0C], [CHR 0x0D], [CHR 0x20],
      [CHR 0xC2, CHR 0x85], [CHR 0xC2, CHR 0xA0], [CHR 0xE1, CHR 0x9A, CHR 0x80],
      [CHR 0xE2, CHR 0x80, CHR 0x80], [CHR 0xE2, CHR 0x80, CHR 0x81],
      [CHR 0xE2, CHR 0x80, CHR 0x82], [CHR 0xE2, CHR 0x80, CHR 0x83],
      [CHR 0xE2, CHR 0x80, CHR 0x84], [CHR 0xE2, CHR 0x80, CHR 0x85],
      [CHR 0xE2, CHR 0x80, CHR 0x86], [CHR 0xE2, CHR 0x80, CHR 0x87],
      [CHR 0xE2, CHR 0x80, CHR 0x88], [CHR 0xE2, CHR 0x80, CHR 0x89],
      [CHR 0xE2, CHR 0x80, CHR 0x8A], [CHR 0xE2, CHR 0x80, CHR 0xA8],
      [CHR 0xE2, CHR 0x80, CHR 0xA9], [CHR 0xE2, CHR 0x80, CHR 0xAF],
      [CHR 0xE2, CHR 0x81, CHR 0x9F], [CHR 0xE3, CHR 0x80, CHR 0x80]]"

text \<open>Strip any of the given non-empty prefixes, as often as possible.\<close>

definition stripOne :: "string list \<Rightarrow> string \<Rightarrow> string option" where
  "stripOne ws s = (case filter (\<lambda>w. w \<noteq> '''' \<and> HasPrefix s w) ws of
                      [] \<Rightarrow> None | w # _ \<Rightarrow> Some (drop (length w) s))"

lemma stripOne_shorter: "stripOne ws s = Some t \<Longrightarrow> length t < length s"
proof -
  assume "stripOne ws s = Some t"
  then obtain w vs where w: "filter (\<lambda>w. w \<noteq> '''' \<and> HasPrefix s w) ws = w # vs" "t = drop (length w) s"
    by (auto simp: stripOne_def split: list.splits)
  then have "w \<in> set (filter (\<lambda>w. w \<noteq> '''' \<and> HasPrefix s w) ws)" by simp
  then have "w \<noteq> ''''" "HasPrefix s w" by simp_all
  then show "length t < length s" using w(2) by (auto simp: HasPrefix_iff)
qed

function stripAll :: "string list \<Rightarrow> string \<Rightarrow> string" where
  "stripAll ws s = (case stripOne ws s of None \<Rightarrow> s | Some t \<Rightarrow> stripAll ws t)"
  by pat_completeness auto
termination by (relation "measure (\<lambda>(_, s). length s)") (auto dest: stripOne_shorter)

declare stripAll.simps [simp del]

definition TrimSpace :: "string \<Rightarrow> string" where
  "TrimSpace s = rev (stripAll (map rev whiteSpace) (rev (stripAll whiteSpace s)))"

text \<open>\<open>strings.Cut(s, " ")\<close>.\<close>

fun cutAt :: "char \<Rightarrow> string \<Rightarrow> (string \<times> string) option" where
  "cutAt c [] = None"
| "cutAt c (d # s) =
     (if d = c then Some ('''', s) else map_option (\<lambda>(a, b). (d # a, b)) (cutAt c s))"

definition lowerASCII :: "char \<Rightarrow> char" where
  "lowerASCII c = (if 65 \<le> (of_char c :: nat) \<and> (of_char c :: nat) \<le> 90 then char_of (of_char c + 32 :: nat) else c)"

lemma stripOne_None_iff:
  "stripOne ws s = None \<longleftrightarrow> (\<forall>w \<in> set ws. w \<noteq> '''' \<longrightarrow> \<not> HasPrefix s w)"
proof -
  have "stripOne ws s = None \<longleftrightarrow> filter (\<lambda>w. w \<noteq> '''' \<and> HasPrefix s w) ws = []"
    by (simp add: stripOne_def split: list.splits)
  then show ?thesis by (auto simp: filter_empty_conv)
qed

lemma stripAll_done: "stripOne ws (stripAll ws s) = None"
proof (induction ws s rule: stripAll.induct)
  case (1 ws s)
  then show ?case by (subst stripAll.simps) (auto split: option.splits simp: stripAll.simps [of ws s])
qed

text \<open>Printable ASCII other than the blank.\<close>

definition graphic :: "char \<Rightarrow> bool" where
  "graphic c = (33 \<le> (of_char c :: nat) \<and> (of_char c :: nat) \<le> 126)"

lemma stripOne_graphic:
  "graphic c \<Longrightarrow> stripOne whiteSpace (c # s) = None \<and> stripOne (map rev whiteSpace) (c # s) = None"
  by (auto simp: stripOne_None_iff whiteSpace_def HasPrefix_iff graphic_def)

lemma stripOne_blank:
  "stripOne whiteSpace (CHR '' '' # s) = Some s" "stripOne (map rev whiteSpace) (CHR '' '' # s) = Some s"
  by (simp_all add: stripOne_def whiteSpace_def HasPrefix_iff)

lemma stripAll_blanks:
  assumes "s = [] \<or> graphic (hd s)"
  shows "stripAll whiteSpace (replicate i (CHR '' '') @ s) = s"
    and "stripAll (map rev whiteSpace) (replicate i (CHR '' '') @ s) = s"
proof -
  have e: "stripOne whiteSpace [] = None" "stripOne (map rev whiteSpace) [] = None"
    by (simp_all add: stripOne_None_iff HasPrefix_iff)
  have n: "stripOne whiteSpace s = None" "stripOne (map rev whiteSpace) s = None"
    using assms e stripOne_graphic by (cases s; simp)+
  show "stripAll whiteSpace (replicate i (CHR '' '') @ s) = s"
    using n by (induction i) (simp_all add: stripAll.simps stripOne_blank)
  show "stripAll (map rev whiteSpace) (replicate i (CHR '' '') @ s) = s"
    using n by (induction i) (simp_all add: stripAll.simps stripOne_blank)
qed

lemma TrimSpace_blanks:
  assumes "s \<noteq> []" "graphic (hd s)" "graphic (last s)"
  shows "TrimSpace (replicate i (CHR '' '') @ s @ replicate j (CHR '' '')) = s"
proof -
  have "stripAll whiteSpace (replicate i (CHR '' '') @ (s @ replicate j (CHR '' '')))
      = s @ replicate j (CHR '' '')"
    using assms by (intro stripAll_blanks) simp
  moreover have "stripAll (map rev whiteSpace) (replicate j (CHR '' '') @ rev s) = rev s"
    using assms by (intro stripAll_blanks) (simp add: hd_rev)
  ultimately show ?thesis by (simp add: TrimSpace_def)
qed

lemma cutAt_first: "c \<notin> set a \<Longrightarrow> cutAt c (a @ c # b) = Some (a, b)"
  by (induction a) auto

section \<open>Signed numbers, fields, case (packages strconv and strings)\<close>

text \<open>\<open>strconv.ParseInt(s, 10, 64)\<close>: an optional sign, decimal digits, the range of int64.\<close>

definition splitSign :: "string \<Rightarrow> bool \<times> string" where
  "splitSign s =
     (case s of [] \<Rightarrow> (False, [])
      | c # cs \<Rightarrow> if c = CHR ''-'' then (True, cs) else if c = CHR ''+'' then (False, cs) else (False, s))"

definition ParseInt :: "string \<Rightarrow> int option" where
  "ParseInt s =
     (case splitSign s of (neg, ds) \<Rightarrow>
        (case parseNat ds of
           None \<Rightarrow> None
         | Some n \<Rightarrow>
             (let v = (if neg then - int n else int n) in
              if min_int64 \<le> v \<and> v \<le> max_int64 then Some v else None)))"

definition FormatInt :: "int \<Rightarrow> string" where
  "FormatInt n = (if n < 0 then CHR ''-'' # formatNat (nat (- n)) else formatNat (nat n))"

lemma isDigit_not_sign: "isDigit c \<Longrightarrow> c \<noteq> CHR ''-'' \<and> c \<noteq> CHR ''+''"
  by (auto simp: isDigit_def)

lemma splitSign_digits: "s \<noteq> [] \<Longrightarrow> isDigit (hd s) \<Longrightarrow> splitSign s = (False, s)"
  by (cases s) (simp_all add: splitSign_def isDigit_not_sign)

lemma ParseInt_FormatInt:
  assumes "min_int64 \<le> n" "n \<le> max_int64"
  shows "ParseInt (FormatInt n) = Some n"
proof (cases "n < 0")
  case True
  then show ?thesis using assms by (simp add: FormatInt_def ParseInt_def splitSign_def)
next
  case False
  have "formatNat (nat n) \<noteq> []" "list_all isDigit (formatNat (nat n))" using formatNat_digits by simp_all
  then have "isDigit (hd (formatNat (nat n)))" by (cases "formatNat (nat n)") simp_all
  then have "splitSign (formatNat (nat n)) = (False, formatNat (nat n))"
    using formatNat_digits by (intro splitSign_digits) simp_all
  then show ?thesis using False assms by (simp add: FormatInt_def ParseInt_def)
qed

text \<open>Decimal digits padded with zeros on the left.\<close>

definition padNat :: "nat \<Rightarrow> nat \<Rightarrow> string" where
  "padNat w n = replicate (w - length (formatNat n)) (CHR ''0'') @ formatNat n"

text \<open>Splitting at every occurrence of a byte (\<open>strings.Split\<close> with a one-byte separator).\<close>

fun splitOn :: "char \<Rightarrow> string \<Rightarrow> string list" where
  "splitOn c [] = [[]]"
| "splitOn c (d # s) =
     (if d = c then [] # splitOn c s
      else (case splitOn c s of [] \<Rightarrow> [[d]] | p # ps \<Rightarrow> (d # p) # ps))"

fun joinWith :: "char \<Rightarrow> string list \<Rightarrow> string" where
  "joinWith c [] = []"
| "joinWith c [p] = p"
| "joinWith c (p # ps) = p @ c # joinWith c ps"

lemma splitOn_nonempty [simp]: "splitOn c s \<noteq> []"
  by (induction s) (auto split: list.splits)

lemma joinWith_Cons: "ps \<noteq> [] \<Longrightarrow> joinWith c (p # ps) = p @ c # joinWith c ps"
  by (cases ps) simp_all

lemma joinWith_head: "joinWith c ((d # p) # ps) = d # joinWith c (p # ps)"
  by (cases ps) simp_all

lemma joinWith_splitOn [simp]: "joinWith c (splitOn c s) = s"
proof (induction s)
  case (Cons d s)
  obtain p ps where s: "splitOn c s = p # ps" by (cases "splitOn c s") simp_all
  then show ?case using Cons joinWith_head [of c d p ps] by (auto simp: joinWith_Cons)
qed simp

lemma splitOn_parts: "p \<in> set (splitOn c s) \<Longrightarrow> c \<notin> set p"
proof (induction s arbitrary: p)
  case (Cons d s)
  obtain q qs where s: "splitOn c s = q # qs" by (cases "splitOn c s") simp_all
  then show ?case using Cons by (auto split: if_splits)
qed simp

lemma splitOn_word: "c \<notin> set p \<Longrightarrow> splitOn c p = [p]"
  by (induction p) auto

lemma splitOn_append: "c \<notin> set p \<Longrightarrow> splitOn c (p @ c # s) = p # splitOn c s"
  by (induction p) auto

lemma splitOn_joinWith:
  "ps \<noteq> [] \<Longrightarrow> \<forall>p \<in> set ps. c \<notin> set p \<Longrightarrow> splitOn c (joinWith c ps) = ps"
proof (induction ps rule: list_nonempty_induct)
  case (single p)
  then show ?case by (simp add: splitOn_word)
next
  case (cons p ps)
  then show ?case by (simp add: joinWith_Cons splitOn_append)
qed

end
