(* ===== verification/Server.thy ===== *)
theory Server
  imports Registry GoStd
begin

text \<open>
  The HTTP server of bigbrain (\<open>server/server.go\<close>): the leader endpoints over the registry
  (readiness, one-shot query, event stream) and the authorisation of the usage endpoints.

  A reply is its status with its payload (\<open>LeaderFeed\<close> and \<open>UsageApi\<close> write payloads as JSON,
  \<open>ServerApi\<close> dispatches requests to the handlers). The stream handler is a state machine over the events its
  \<open>select\<close> can see, interleaved with publications by the election controller; each event
  says whether writing the frame succeeded.
\<close>

section \<open>Replies\<close>

datatype payload =
    OkText
  | ErrorMessage string
  | LeaderPayload LeaderEvent

type_synonym reply = "int \<times> payload"

definition healthz :: reply where "healthz = (200, OkText)"

definition readyz :: "Registry \<Rightarrow> reply" where
  "readyz r =
     (if \<not> AllPublished r then (503, ErrorMessage ''leadership not yet reconciled'')
      else (200, OkText))"

definition handleGetLeader :: "Registry \<Rightarrow> string \<Rightarrow> reply" where
  "handleGetLeader r name =
     (case Namespace r name of
        None \<Rightarrow> (404, ErrorMessage (''unknown deployment '' @ name))
      | Some _ \<Rightarrow>
          if \<not> Published r name
          then (425, ErrorMessage (''leadership not yet reconciled for '' @ name))
          else (case Leader r name of
                  (ev, ok) \<Rightarrow> if \<not> ok then (503, LeaderPayload ev) else (200, LeaderPayload ev)))"

section \<open>Authorisation of the usage endpoints\<close>

text \<open>
  \<open>strings.EqualFold\<close> against \<open>bearer\<close> only folds ASCII letters, since no other letter folds to
  one of these.
\<close>

definition bearerToken :: "string \<Rightarrow> string" where
  "bearerToken header =
     (case cutAt (CHR '' '') (TrimSpace header) of
        None \<Rightarrow> ''''
      | Some (scheme, rest) \<Rightarrow>
          if map lowerASCII scheme \<noteq> ''bearer'' then ''''
          else (let token = TrimSpace rest in
                if token = '''' \<or> CHR '' '' \<in> set token \<or> CHR 0x09 \<in> set token then '''' else token))"

text \<open>\<open>sha\<close> is SHA-256; the constant-time comparison of two digests is equality.\<close>

definition bearerOK :: "(string \<Rightarrow> 'h) \<Rightarrow> (string, string) gomap \<Rightarrow> string \<Rightarrow> string \<Rightarrow> bool" where
  "bearerOK sha usageTokens header deployment =
     (let expected = gget usageTokens deployment '''' in
      if expected = '''' then False else sha (bearerToken header) = sha expected)"

section \<open>The leader stream\<close>

datatype streamFrame = LeaderFrame LeaderEvent | KeepaliveFrame

datatype streamStart = StreamRefused int string | StreamHead | StreamOpen nat

definition openLeaderStream :: "Registry \<Rightarrow> string \<Rightarrow> bool \<Rightarrow> Registry \<times> streamStart" where
  "openLeaderStream r name isHead =
     (case Namespace r name of
        None \<Rightarrow> (r, StreamRefused 404 (''unknown deployment '' @ name))
      | Some _ \<Rightarrow>
          if isHead then (r, StreamHead)
          else (case Subscribe r name of
                  None \<Rightarrow> (r, StreamRefused 503 ''too many leader-stream subscribers'')
                | Some (r', c) \<Rightarrow> (r', StreamOpen c)))"

text \<open>After the subscription: flushing the headers, the initial frame, the loop, the end.\<close>

datatype streamPhase = Headers | Initial | Following | Closed

datatype streamEvent =
    Flushed bool
  | InitialFrame bool
  | ServerDone
  | ClientGone
  | ChannelReady bool
  | KeepaliveTick bool

text \<open>The deferred \<open>cancel()\<close>; that it does not panic is a property of the registry.\<close>

definition closeStream :: "Registry \<Rightarrow> string \<Rightarrow> nat \<Rightarrow> Registry" where
  "closeStream r name c = (case cancelSub r name c of None \<Rightarrow> r | Some r' \<Rightarrow> r')"

definition emit ::
  "Registry \<Rightarrow> string \<Rightarrow> nat \<Rightarrow> streamFrame \<Rightarrow> bool \<Rightarrow> Registry \<times> streamPhase \<times> streamFrame list" where
  "emit r name c f ok =
     (if ok then (r, Following, [f]) else (closeStream r name c, Closed, []))"

fun streamStep ::
  "Registry \<Rightarrow> string \<Rightarrow> nat \<Rightarrow> streamPhase \<Rightarrow> streamEvent \<Rightarrow> Registry \<times> streamPhase \<times> streamFrame list" where
  "streamStep r name c Headers (Flushed ok) =
     (if ok then (r, Initial, []) else (closeStream r name c, Closed, []))"
| "streamStep r name c Initial (InitialFrame ok) =
     (if Published r name then emit r name c (LeaderFrame (fst (Leader r name))) ok
      else (r, Following, []))"
| "streamStep r name c Following ServerDone = (closeStream r name c, Closed, [])"
| "streamStep r name c Following ClientGone = (closeStream r name c, Closed, [])"
| "streamStep r name c Following (ChannelReady ok) =
     (case recv r c of
        None \<Rightarrow> (r, Following, [])
      | Some (None, r') \<Rightarrow> (closeStream r' name c, Closed, [])
      | Some (Some ev, r') \<Rightarrow> emit r' name c (LeaderFrame ev) ok)"
| "streamStep r name c Following (KeepaliveTick ok) = emit r name c KeepaliveFrame ok"
| "streamStep r name c p e = (r, p, [])"

text \<open>A session: the handler's events interleaved with publications of any deployment.\<close>

datatype sessionAct = Publish string string string | Happens streamEvent

fun session ::
  "Registry \<Rightarrow> string \<Rightarrow> nat \<Rightarrow> streamPhase \<Rightarrow> sessionAct list \<Rightarrow> Registry \<times> streamPhase \<times> streamFrame list" where
  "session r name c p [] = (r, p, [])"
| "session r name c p (Publish m pod url # as) =
     (case Update r m pod url of
        None \<Rightarrow> (r, p, [])
      | Some r' \<Rightarrow> session r' name c p as)"
| "session r name c p (Happens e # as) =
     (case streamStep r name c p e of
        (r', p', fs) \<Rightarrow>
          (case session r' name c p' as of (r'', p'', gs) \<Rightarrow> (r'', p'', fs @ gs)))"

fun leaderEvents :: "streamFrame list \<Rightarrow> LeaderEvent list" where
  "leaderEvents [] = []"
| "leaderEvents (LeaderFrame ev # fs) = ev # leaderEvents fs"
| "leaderEvents (KeepaliveFrame # fs) = leaderEvents fs"

section \<open>Facts\<close>

lemma leaderEvents_append [simp]: "leaderEvents (fs @ gs) = leaderEvents fs @ leaderEvents gs"
  by (induction fs rule: leaderEvents.induct) auto

text \<open>An update reaches the channel of a subscriber exactly when it changes its deployment.\<close>

lemma Update_channel:
  assumes inv: "reg_inv r" and c: "c \<in> set (gget (subs r) n [])" and upd: "Update r m pod url = Some r'"
  shows "gget (subs r') n [] = gget (subs r) n []
    \<and> (map_of (chans r') c = map_of (chans r) c \<and> Leader r' n = Leader r n \<and> Published r' n = Published r n
       \<or> map_of (chans r') c = Some \<lparr>buf = [fst (Leader r' n)], chan_closed = False\<rparr>
         \<and> Published r' n \<and> Seq (fst (Leader r' n)) = Seq (fst (Leader r n)) + 1)"
proof -
  have subs: "gget (subs r') n [] = gget (subs r) n []" using deps_Update [OF upd] by (simp add: gget_def)
  show ?thesis
  proof (cases "map_of (deps r) m")
    case None
    then show ?thesis using Update_unknown [OF None] upd by simp
  next
    case d: (Some d)
    show ?thesis
    proof (cases "leaderPod d \<noteq> pod \<or> leaderURL d \<noteq> url \<or> \<not> published d")
      case False
      then show ?thesis using Update_unchanged [OF d] upd by simp
    next
      case True
      have chans: "map_of (chans r') c = (if c \<in> set (gget (subs r) m [])
          then Some \<lparr>buf = [publishedEvent r m d pod url], chan_closed = False\<rparr>
          else map_of (chans r) c)" and deps: "deps r' = AList.update m (d\<lparr>leaderPod := pod, leaderURL := url, published := True,
                               seq := seq d + 1\<rparr>) (deps r)" "epoch r' = epoch r"
        using Update_changed [OF inv d True] upd by auto
      show ?thesis
      proof (cases "m = n")
        case True
        then show ?thesis
          using chans deps c subs d by (simp add: Leader_def publishedEvent_def Published_def)
      next
        case False
        obtain ids where ids: "map_of (subs r) n = Some ids" "c \<in> set ids"
          using c by (cases "map_of (subs r) n") (auto simp: gget_def)
        have "c \<notin> set (gget (subs r) m [])"
        proof (cases "map_of (subs r) m")
          case None
          then show ?thesis by (simp add: gget_def)
        next
          case (Some jds)
          have "n \<noteq> m" using False by simp
          from reg_inv_disjoint [OF inv ids(1) Some this ids(2)] Some show ?thesis by (simp add: gget_def)
        qed
        then have "map_of (chans r') c = map_of (chans r) c" using chans by simp
        moreover have "map_of (deps r') n = map_of (deps r) n" using deps(1) False by simp
        then have "Published r' n = Published r n" by (simp add: Published_def)
        moreover have "Leader r' n = Leader r n" using Leader_Update_other [OF upd] False by simp
        ultimately show ?thesis using subs by blast
      qed
    qed
  qed
qed

section \<open>The session invariant\<close>

text \<open>
  \<open>caught_up r n c fs\<close>: if the channel of the session is empty, then the last leader event sent
  is the current state of the deployment (none was sent if nothing is published).
\<close>

definition pending :: "Registry \<Rightarrow> nat \<Rightarrow> LeaderEvent list" where
  "pending r c = (case map_of (chans r) c of None \<Rightarrow> [] | Some ch \<Rightarrow> buf ch)"

definition caught_up :: "Registry \<Rightarrow> string \<Rightarrow> nat \<Rightarrow> streamFrame list \<Rightarrow> bool" where
  "caught_up r n c fs =
     (pending r c = [] \<longrightarrow>
        (if Published r n then leaderEvents fs \<noteq> [] \<and> last (leaderEvents fs) = fst (Leader r n)
         else leaderEvents fs = []))"

definition session_ok :: "Registry \<Rightarrow> string \<Rightarrow> nat \<Rightarrow> streamPhase \<Rightarrow> streamFrame list \<Rightarrow> bool" where
  "session_ok r n c p fs =
     (reg_inv r
      \<and> (p \<noteq> Closed \<longrightarrow> c \<in> set (gget (subs r) n []) \<and> (pending r c \<noteq> [] \<longrightarrow> Published r n))
      \<and> (p = Headers \<or> p = Initial \<longrightarrow> leaderEvents fs = [])
      \<and> (p = Following \<longrightarrow> caught_up r n c fs))"

lemma closeStream_inv: "reg_inv r \<Longrightarrow> reg_inv (closeStream r n c)"
  using cancelSub_spec [of r n c] by (auto simp: closeStream_def)

lemma session_closed: "reg_inv r \<Longrightarrow> session_ok r n c Closed fs"
  by (simp add: session_ok_def)

lemma subscribed_pending:
  assumes inv: "reg_inv r" and c: "c \<in> set (gget (subs r) n [])"
  shows "recv r c = None \<longleftrightarrow> pending r c = []"
  using chan_okD [OF subscriber_channel [OF inv c]]
  by (auto simp: recv_def pending_def split: list.splits)

lemma recv_subscribed:
  assumes inv: "reg_inv r" and c: "c \<in> set (gget (subs r) n [])" and rv: "recv r c = Some (e, r')"
  shows "e = Some (fst (Leader r n)) \<and> reg_inv r' \<and> c \<in> set (gget (subs r') n [])
    \<and> Leader r' n = Leader r n \<and> Published r' n = Published r n \<and> pending r' c = []"
proof -
  obtain ch where ch: "map_of (chans r) c = Some ch" "\<not> chan_closed ch"
    "buf ch = [] \<or> buf ch = [fst (Leader r n)]"
    using chan_okD [OF subscriber_channel [OF inv c]] by blast
  then have b: "buf ch = [fst (Leader r n)]" using rv by (auto simp: recv_def split: if_splits)
  then have "e = Some (fst (Leader r n))"
    "r' = r\<lparr>chans := AList.update c (ch\<lparr>buf := []\<rparr>) (chans r)\<rparr>"
    using rv ch by (auto simp: recv_def)
  then show ?thesis
    using c reg_inv_recv [OF inv rv]
    by (simp add: Leader_cong [of "r\<lparr>chans := AList.update c (ch\<lparr>buf := []\<rparr>) (chans r)\<rparr>" n r]
        Published_def pending_def)
qed

lemma emit_ok:
  assumes "emit r n c f ok = (r', p', gs)" "reg_inv r" "c \<in> set (gget (subs r) n [])"
    and "pending r c \<noteq> [] \<longrightarrow> Published r n" "caught_up r n c (fs @ [f])"
  shows "session_ok r' n c p' (fs @ gs)"
  using assms closeStream_inv [OF assms(2)]
  by (auto simp: emit_def session_ok_def split: if_splits)

lemma initial_ok:
  assumes ok: "session_ok r n c Initial fs"
    and s: "streamStep r n c Initial (InitialFrame k) = (r', p', gs)"
  shows "session_ok r' n c p' (fs @ gs)"
proof (cases "Published r n")
  case True
  have "emit r n c (LeaderFrame (fst (Leader r n))) k = (r', p', gs)" using s True by simp
  moreover have "caught_up r n c (fs @ [LeaderFrame (fst (Leader r n))])"
    using ok True by (simp add: caught_up_def session_ok_def)
  ultimately show ?thesis using ok by (intro emit_ok) (simp_all add: session_ok_def)
next
  case False
  then show ?thesis using s ok by (auto simp: session_ok_def caught_up_def)
qed

lemma ready_ok:
  assumes ok: "session_ok r n c Following fs"
    and s: "streamStep r n c Following (ChannelReady k) = (r', p', gs)"
  shows "session_ok r' n c p' (fs @ gs)"
proof (cases "recv r c")
  case None
  then show ?thesis using s ok by simp
next
  case (Some er)
  have inv: "reg_inv r" and c: "c \<in> set (gget (subs r) n [])"
    and pub: "pending r c \<noteq> [] \<longrightarrow> Published r n"
    using ok by (simp_all add: session_ok_def)
  obtain ev r1 where er: "recv r c = Some (ev, r1)" using Some by (cases er) auto
  note R = recv_subscribed [OF inv c er]
  have "pending r c \<noteq> []" using subscribed_pending [OF inv c] er by auto
  then have pub1: "Published r1 n" using R pub by simp
  have "emit r1 n c (LeaderFrame (fst (Leader r n))) k = (r', p', gs)"
    using s er R by simp
  moreover have "caught_up r1 n c (fs @ [LeaderFrame (fst (Leader r n))])"
    using R pub1 by (simp add: caught_up_def)
  ultimately show ?thesis using R pub1 by (intro emit_ok) simp_all
qed

lemma step_session_ok:
  assumes ok: "session_ok r n c p fs" and s: "streamStep r n c p e = (r', p', gs)"
  shows "session_ok r' n c p' (fs @ gs)"
proof -
  have inv: "reg_inv r" using ok by (simp add: session_ok_def)
  note close = session_closed [OF closeStream_inv [OF inv]]
  consider k where "p = Initial" "e = InitialFrame k" | k where "p = Following" "e = ChannelReady k"
    | k where "p = Headers" "e = Flushed k" | k where "p = Following" "e = KeepaliveTick k"
    | "p = Following" "e = ServerDone \<or> e = ClientGone" | "r' = r" "p' = p" "gs = []"
    using s by (cases p; cases e) auto
  then show ?thesis
  proof cases
    case 1
    then show ?thesis using initial_ok ok s by blast
  next
    case 2
    then show ?thesis using ready_ok ok s by blast
  next
    case 3
    then show ?thesis using ok s close by (auto simp: session_ok_def split: if_splits)
  next
    case 4
    then show ?thesis using ok s
      by (intro emit_ok [of r n c KeepaliveFrame k]) (auto simp: session_ok_def caught_up_def)
  next
    case 5
    then show ?thesis using s close by auto
  next
    case 6
    then show ?thesis using ok by simp
  qed
qed

lemma publish_session_ok:
  assumes ok: "session_ok r n c p fs" and u: "Update r m pod url = Some r'"
  shows "session_ok r' n c p fs"
proof (cases "p = Closed")
  case True
  then show ?thesis using ok reg_inv_Update [OF _ u] by (simp add: session_ok_def)
next
  case False
  then have inv: "reg_inv r" and c: "c \<in> set (gget (subs r) n [])" using ok by (simp_all add: session_ok_def)
  have "gget (subs r') n [] = gget (subs r) n []" using Update_channel [OF inv c u] by simp
  moreover have "pending r' c = pending r c \<and> Leader r' n = Leader r n \<and> Published r' n = Published r n
      \<or> pending r' c \<noteq> [] \<and> Published r' n"
    using Update_channel [OF inv c u] by (auto simp: pending_def)
  ultimately show ?thesis
    using ok reg_inv_Update [OF inv u] by (auto simp: session_ok_def caught_up_def)
qed

lemma session_keeps_ok:
  "session_ok r n c p fs \<Longrightarrow> session r n c p as = (r', p', gs) \<Longrightarrow> session_ok r' n c p' (fs @ gs)"
proof (induction r n c p as arbitrary: fs gs rule: session.induct)
  case (1 r name c p)
  then show ?case by simp
next
  case (2 r name c p m pod url as)
  obtain r1 where "Update r m pod url = Some r1"
    using Update_total [of r m pod url] 2(2) by (auto simp: session_ok_def)
  then show ?case using 2 publish_session_ok [OF 2(2)] by auto
next
  case (3 r name c p e as)
  obtain r1 p1 fs1 where s: "streamStep r name c p e = (r1, p1, fs1)" by (cases "streamStep r name c p e")
  obtain gs' where t: "session r1 name c p1 as = (r', p', gs')" "gs = fs1 @ gs'"
    using 3(3) s by (auto split: prod.splits)
  show ?case using 3(1) [OF s [symmetric] refl step_session_ok [OF 3(2) s] t(1)] t(2) by simp
qed

lemma open_session_ok:
  assumes inv: "reg_inv r" and o: "openLeaderStream r n False = (r', StreamOpen c)"
  shows "session_ok r' n c Headers []"
proof -
  have sub: "Subscribe r n = Some (r', c)" using o by (auto simp: openLeaderStream_def split: option.splits)
  then have "pending r' c = []" "c \<in> set (gget (subs r') n [])"
    by (auto simp: Subscribe_def Let_def pending_def gget_def split: if_splits)
  then show ?thesis using reg_inv_Subscribe [OF inv sub] by (simp add: session_ok_def)
qed

section \<open>The order of the frames of a session\<close>

text \<open>
  \<open>ordered r n fs\<close>: the leader events sent are states of \<open>n\<close> with non-decreasing sequence
  numbers, none newer than the current state and only the current state under its number. The
  counter must not wrap, which takes \<open>2 ^ 64\<close> publications.
\<close>

definition eventSeqs :: "streamFrame list \<Rightarrow> nat list" where
  "eventSeqs fs = map (\<lambda>ev. unat (Seq ev)) (leaderEvents fs)"

definition currentSeq :: "Registry \<Rightarrow> string \<Rightarrow> nat" where
  "currentSeq r n = unat (Seq (fst (Leader r n)))"

definition ordered :: "Registry \<Rightarrow> string \<Rightarrow> streamFrame list \<Rightarrow> bool" where
  "ordered r n fs =
     (sorted (eventSeqs fs)
      \<and> (\<forall>ev \<in> set (leaderEvents fs). unat (Seq ev) \<le> currentSeq r n \<and> Epoch ev = epoch r \<and> Name ev = n
          \<and> (unat (Seq ev) = currentSeq r n \<longrightarrow> ev = fst (Leader r n))))"

fun publications :: "sessionAct list \<Rightarrow> nat" where
  "publications [] = 0"
| "publications (Publish m pod url # as) = Suc (publications as)"
| "publications (Happens e # as) = publications as"

lemma Leader_fields: "Epoch (fst (Leader r n)) = epoch r \<and> Name (fst (Leader r n)) = n"
  by (simp add: Leader_def split: option.splits)

lemma closeStream_leader:
  "reg_inv r \<Longrightarrow> Leader (closeStream r n c) m = Leader r m \<and> epoch (closeStream r n c) = epoch r"
  using cancelSub_spec [of r n c] by (auto simp: closeStream_def intro!: Leader_cong)

lemma step_frames:
  assumes ok: "session_ok r n c p fs" and s: "streamStep r n c p e = (r', p', gs)"
  shows "(leaderEvents gs = [] \<or> leaderEvents gs = [fst (Leader r n)])
    \<and> Leader r' n = Leader r n \<and> epoch r' = epoch r"
proof -
  have inv: "reg_inv r" using ok by (simp add: session_ok_def)
  note close = closeStream_leader [OF inv]
  show ?thesis
  proof (cases "p = Following \<and> (\<exists>k. e = ChannelReady k) \<and> recv r c \<noteq> None")
    case True
    then obtain k ev r1 where k: "p = Following" "e = ChannelReady k" "recv r c = Some (ev, r1)" by auto
    have c: "c \<in> set (gget (subs r) n [])" using ok k by (simp add: session_ok_def)
    note R = recv_subscribed [OF inv c k(3)]
    have "epoch r1 = epoch r" using R Leader_fields [of r1 n] Leader_fields [of r n] by simp
    then show ?thesis
      using s k R closeStream_leader [of r1] by (auto simp: emit_def split: if_splits)
  next
    case False
    then show ?thesis using s close
      by (cases p; cases e) (auto simp: emit_def split: if_splits option.splits)
  qed
qed

lemma ordered_step:
  assumes "ordered r n fs" "session_ok r n c p fs" "streamStep r n c p e = (r', p', gs)"
  shows "ordered r' n (fs @ gs) \<and> currentSeq r' n = currentSeq r n"
proof -
  have "leaderEvents gs = [] \<or> leaderEvents gs = [fst (Leader r n)]"
    and same: "Leader r' n = Leader r n" "epoch r' = epoch r"
    using step_frames [OF assms(2,3)] by simp_all
  then show ?thesis
    using assms(1) Leader_fields [of r n]
    by (auto simp: ordered_def eventSeqs_def currentSeq_def sorted_append)
qed

lemma ordered_publish:
  assumes inv: "reg_inv r" and o: "ordered r n fs" and u: "Update r m pod url = Some r'"
    and small: "currentSeq r n + 1 < 2 ^ 64"
  shows "ordered r' n fs \<and> currentSeq r' n \<le> currentSeq r n + 1"
proof -
  have e: "epoch r' = epoch r" using deps_Update [OF u] by simp
  have "Leader r' n = Leader r n \<or> currentSeq r' n = currentSeq r n + 1"
  proof (cases "m = n \<and> map_of (deps r) n \<noteq> None")
    case False
    then show ?thesis
      using u Leader_Update_other [OF u, of n] Update_unknown [of r n pod url] by (cases "m = n") auto
  next
    case True
    then obtain d where d: "map_of (deps r) n = Some d" by auto
    have "Seq (fst (Leader r n)) = seq d" using d by (simp add: Leader_def)
    moreover have "unat (seq d + 1) = unat (seq d) + 1"
      using small calculation unat_add_lem [of "seq d" 1] by (simp add: currentSeq_def)
    moreover have "Leader r' n = Leader r n"
      if "\<not> (leaderPod d \<noteq> pod \<or> leaderURL d \<noteq> url \<or> \<not> published d)"
      using that Update_unchanged [OF d, of pod url] u True by auto
    ultimately show ?thesis
      using Leader_Update_self [OF d, of pod url r'] u True by (auto simp: currentSeq_def)
  qed
  then show ?thesis
  proof
    assume "Leader r' n = Leader r n"
    then show ?thesis using o e by (simp add: ordered_def currentSeq_def)
  next
    assume "currentSeq r' n = currentSeq r n + 1"
    then show ?thesis using o e by (fastforce simp: ordered_def)
  qed
qed

lemma session_ordered:
  "session_ok r n c p fs \<Longrightarrow> ordered r n fs \<Longrightarrow> currentSeq r n + publications as < 2 ^ 64 \<Longrightarrow>
    session r n c p as = (r', p', gs) \<Longrightarrow> ordered r' n (fs @ gs)"
proof (induction r n c p as arbitrary: fs gs rule: session.induct)
  case (1 r name c p)
  then show ?case by simp
next
  case (2 r name c p m pod url as)
  obtain r1 where u: "Update r m pod url = Some r1"
    using Update_total [of r m pod url] 2(2) by (auto simp: session_ok_def)
  have inv: "reg_inv r" using 2(2) by (simp add: session_ok_def)
  have o: "ordered r1 name fs" "currentSeq r1 name \<le> currentSeq r name + 1"
    using ordered_publish [OF inv 2(3) u] 2(4) by auto
  have small: "currentSeq r1 name + publications as < 2 ^ 64" using o(2) 2(4) by simp
  have t: "session r1 name c p as = (r', p', gs)" using 2(5) u by simp
  show ?case by (rule 2(1) [OF u publish_session_ok [OF 2(2) u] o(1) small t])
next
  case (3 r name c p e as)
  obtain r1 p1 fs1 where s: "streamStep r name c p e = (r1, p1, fs1)" by (cases "streamStep r name c p e")
  obtain gs' where t: "session r1 name c p1 as = (r', p', gs')" "gs = fs1 @ gs'"
    using 3(5) s by (auto split: prod.splits)
  have o: "ordered r1 name (fs @ fs1)" "currentSeq r1 name + publications as < 2 ^ 64"
    using ordered_step [OF 3(3,2) s] 3(4) by simp_all
  show ?case using 3(1) [OF s [symmetric] refl step_session_ok [OF 3(2) s] o t(1)] t(2) by simp
qed

text \<open>Handling the channel once more leaves the session caught up.\<close>

lemma ready_delivers:
  assumes ok: "session_ok r n c Following fs" and p: "pending r c \<noteq> []"
  shows "\<exists>r'. streamStep r n c Following (ChannelReady True) = (r', Following, [LeaderFrame (fst (Leader r n))])"
proof -
  have inv: "reg_inv r" and c: "c \<in> set (gget (subs r) n [])" using ok by (simp_all add: session_ok_def)
  obtain e r' where rv: "recv r c = Some (e, r')" using subscribed_pending [OF inv c] p by auto
  show ?thesis using recv_subscribed [OF inv c rv] rv by (simp add: emit_def)
qed

section \<open>The properties\<close>

definition sampleOpened :: Registry where
  "sampleOpened = fst (openLeaderStream sampleRegistry ''dev'' False)"

definition sampleActs :: "sessionAct list" where
  "sampleActs = [Happens (Flushed True), Publish ''dev'' ''backend-0'' ''http://a:3210'',
     Happens (InitialFrame True), Publish ''dev'' ''backend-1'' ''http://b:3210'',
     Happens (KeepaliveTick True), Happens (ChannelReady True)]"

lemma sampleOpened_eq: "openLeaderStream sampleRegistry ''dev'' False = (sampleOpened, StreamOpen 0)"
  by (simp add: sampleOpened_def sample_defs openLeaderStream_def Namespace_def)

lemma sampleActs_eq:
  "case session sampleOpened ''dev'' 0 Headers sampleActs of
     (r', p', fs) \<Rightarrow> p' = Following \<and> recv r' 0 = None \<and> Published r' ''dev'' \<and> length fs = 3"
  by code_simp

text \<open>
  C21: a leader-stream session, however its events interleave with publications, never lags:
  whenever the handler is waiting in its loop either the current leader is in the channel, and
  handling it writes exactly that event, or the last leader event written is the current one
  (and none was written while nothing is published).
\<close>

theorem stream_delivers_current:
  assumes "registry_reachable r" and "openLeaderStream r n False = (r0, StreamOpen c)"
    and "session r0 n c Headers as = (r1, Following, fs)"
  shows "(\<exists>r2. streamStep r1 n c Following (ChannelReady True) =
            (r2, Following, [LeaderFrame (fst (Leader r1 n))]))
       \<or> (recv r1 c = None \<and>
          (if Published r1 n then leaderEvents fs \<noteq> [] \<and> last (leaderEvents fs) = fst (Leader r1 n)
           else leaderEvents fs = []))"
proof -
  have ok: "session_ok r1 n c Following fs"
    using session_keeps_ok [OF open_session_ok [OF reachable_reg_inv [OF assms(1)] assms(2)] assms(3)]
    by simp
  then show ?thesis
    using ready_delivers [OF ok] subscribed_pending [of r1 c n]
    by (auto simp: session_ok_def caught_up_def)
qed

theorem stream_delivers_current_witness:
  "case session sampleOpened ''dev'' 0 Headers sampleActs of
     (r', p', fs) \<Rightarrow> p' = Following \<and> last (leaderEvents fs) = fst (Leader r' ''dev'')"
proof -
  obtain r' p' fs where s: "session sampleOpened ''dev'' 0 Headers sampleActs = (r', p', fs)"
    by (cases "session sampleOpened ''dev'' 0 Headers sampleActs")
  have f: "p' = Following" "recv r' 0 = None" "Published r' ''dev''"
    using sampleActs_eq s by simp_all
  show ?thesis
    using stream_delivers_current [OF sample_reachable(1) sampleOpened_eq s [unfolded f(1)]] f s
    by auto
qed

text \<open>
  The leader events of a session are written in the order of their sequence numbers, all
  of the registry's epoch and for the requested deployment, none ahead of the registry.
\<close>

theorem stream_frames_ordered:
  assumes "registry_reachable r" and "openLeaderStream r n False = (r0, StreamOpen c)"
    and "session r0 n c Headers as = (r1, p, fs)"
    and "unat (Seq (fst (Leader r n))) + publications as < 2 ^ 64"
  shows "sorted (map (\<lambda>ev. unat (Seq ev)) (leaderEvents fs))
    \<and> (\<forall>ev \<in> set (leaderEvents fs).
         Name ev = n \<and> Epoch ev = epoch r1 \<and> unat (Seq ev) \<le> unat (Seq (fst (Leader r1 n))))"
proof -
  have "Subscribe r n = Some (r0, c)"
    using assms(2) by (auto simp: openLeaderStream_def split: option.splits)
  then have "Leader r0 n = Leader r n"
    by (intro Leader_cong) (auto simp: Subscribe_def Let_def split: if_splits)
  then have "currentSeq r0 n + publications as < 2 ^ 64" using assms(4) by (simp add: currentSeq_def)
  moreover have "ordered r0 n []" by (simp add: ordered_def eventSeqs_def)
  ultimately have "ordered r1 n fs"
    using session_ordered [OF open_session_ok [OF reachable_reg_inv [OF assms(1)] assms(2)] _ _ assms(3)]
    by simp
  then show ?thesis by (auto simp: ordered_def eventSeqs_def currentSeq_def)
qed

theorem stream_frames_ordered_witness:
  "case session sampleOpened ''dev'' 0 Headers sampleActs of
     (r', p', fs) \<Rightarrow> sorted (map (\<lambda>ev. unat (Seq ev)) (leaderEvents fs)) \<and> length fs = 3"
proof -
  obtain r' p' fs where s: "session sampleOpened ''dev'' 0 Headers sampleActs = (r', p', fs)"
    by (cases "session sampleOpened ''dev'' 0 Headers sampleActs")
  have "unat (Seq (fst (Leader sampleRegistry ''dev''))) + publications sampleActs < 2 ^ 64"
    by (simp add: sample_defs sampleActs_def)
  from stream_frames_ordered [OF sample_reachable(1) sampleOpened_eq s this] sampleActs_eq s
  show ?thesis by simp
qed

section \<open>Bearer tokens\<close>

lemma graphic_not_blank: "\<forall>c \<in> set s. graphic c \<Longrightarrow> CHR '' '' \<notin> set s \<and> CHR 0x09 \<notin> set s"
  by (auto simp: graphic_def)

lemma lower_bearer_graphic:
  assumes "map lowerASCII scheme = ''bearer''"
  shows "\<forall>c \<in> set scheme. graphic c"
proof
  fix c assume "c \<in> set scheme"
  then have "lowerASCII c \<in> set (map lowerASCII scheme)" by simp
  then have "lowerASCII c \<in> set ''bearer''" unfolding assms .
  then show "graphic c" by (auto simp: lowerASCII_def graphic_def split: if_splits)
qed

lemma bearerToken_no_blank:
  "CHR '' '' \<notin> set (bearerToken h) \<and> CHR 0x09 \<notin> set (bearerToken h)"
  by (simp add: bearerToken_def Let_def split: option.splits prod.splits)

text \<open>
  The usage endpoints authorise a request exactly when the deployment has a configured,
  non-empty token and the header carries this very token (SHA-256 taken as free of collisions);
  a configured token containing a blank or tab can never be presented.
\<close>

theorem bearer_exact:
  assumes "inj sha"
  shows "(bearerOK sha tokens header d \<longleftrightarrow>
            (\<exists>t. map_of tokens d = Some t \<and> t \<noteq> '''' \<and> bearerToken header = t))
    \<and> (bearerOK sha tokens header d \<longrightarrow>
            CHR '' '' \<notin> set (gget tokens d '''') \<and> CHR 0x09 \<notin> set (gget tokens d ''''))"
proof -
  have "sha (bearerToken header) = sha (gget tokens d '''') \<longleftrightarrow> bearerToken header = gget tokens d ''''"
    using assms by (rule inj_eq)
  then show ?thesis
    using bearerToken_no_blank [of header]
    by (auto simp: bearerOK_def Let_def gget_def split: option.splits)
qed

theorem bearer_exact_witness:
  "bearerOK (\<lambda>s. s) [(''dev'', ''secret'')] ''Bearer secret'' ''dev''
    \<and> \<not> bearerOK (\<lambda>s. s) [(''dev'', ''secret'')] ''Bearer secret'' ''prod''"
proof -
  have i: "inj (\<lambda>s :: string. s)" by simp
  have "bearerToken ''Bearer secret'' = ''secret''" by code_simp
  then show ?thesis
    using bearer_exact [OF i, of "[(''dev'', ''secret'')]" "''Bearer secret''" "''dev''"]
      bearer_exact [OF i, of "[(''dev'', ''secret'')]" "''Bearer secret''" "''prod''"]
    by simp
qed

text \<open>
  Every client that sends its printable token after the scheme \<open>Bearer\<close>, in any case and
  with any surrounding blanks, is understood: the parsed token is the token sent.
\<close>

theorem bearer_roundtrip:
  assumes "map lowerASCII scheme = ''bearer''" and "t \<noteq> ''''" and "\<forall>c \<in> set t. graphic c"
  shows "bearerToken (replicate i (CHR '' '') @ scheme @ CHR '' '' # replicate j (CHR '' '') @ t
      @ replicate k (CHR '' '')) = t"
proof -
  note g = lower_bearer_graphic [OF assms(1)]
  have ne: "scheme \<noteq> []" using assms(1) by auto
  let ?s = "scheme @ CHR '' '' # replicate j (CHR '' '') @ t"
  have "TrimSpace (replicate i (CHR '' '') @ ?s @ replicate k (CHR '' '')) = ?s"
    using g ne assms(2,3) by (intro TrimSpace_blanks) simp_all
  moreover have "cutAt (CHR '' '') ?s = Some (scheme, replicate j (CHR '' '') @ t)"
    using graphic_not_blank [OF g] by (intro cutAt_first) simp
  moreover have "TrimSpace (replicate j (CHR '' '') @ t) = t"
    using TrimSpace_blanks [of t j 0] assms(2,3) by simp
  ultimately show ?thesis
    using assms(1,2) graphic_not_blank [OF assms(3)] by (simp add: bearerToken_def Let_def)
qed

theorem bearer_roundtrip_witness: "bearerToken ''  BEARER  s3cret '' = ''s3cret''"
proof -
  have "map lowerASCII ''BEARER'' = ''bearer''" by code_simp
  moreover have "\<forall>c \<in> set ''s3cret''. graphic c" by code_simp
  ultimately show ?thesis
    using bearer_roundtrip [of "''BEARER''" "''s3cret''" 2 1 1] by (simp add: numeral_2_eq_2)
qed

section \<open>The one-shot query and readiness\<close>

lemma allPublishedLoop_all: "allPublishedLoop ds = list_all (\<lambda>(_, d). published d) ds"
  by (induction ds rule: allPublishedLoop.induct) auto

text \<open>
  A leader query is answered with a leader payload exactly when the deployment's leadership
  has been published; the payload is the current state with a non-zero epoch, under 200 if a
  leader is set and 503 if not. Unknown and not yet reconciled deployments get 404 and 425.
\<close>

lemma leader_reply:
  assumes "registry_reachable r"
  shows "handleGetLeader r n =
      (if Namespace r n = None then (404, ErrorMessage (''unknown deployment '' @ n))
       else if \<not> Published r n
       then (425, ErrorMessage (''leadership not yet reconciled for '' @ n))
       else (if LeaderURL (fst (Leader r n)) = '''' then 503 else 200, LeaderPayload (fst (Leader r n))))
    \<and> Epoch (fst (Leader r n)) \<noteq> 0
    \<and> (readyz r = (200, OkText) \<longleftrightarrow>
         Names r \<noteq> [] \<and> (\<forall>m \<in> set (Names r). fst (handleGetLeader r m) \<in> {200, 503}))"
proof -
  have inv: "reg_inv r" by (rule reachable_reg_inv [OF assms])
  have reply: "handleGetLeader r m =
      (if Namespace r m = None then (404, ErrorMessage (''unknown deployment '' @ m))
       else if \<not> Published r m
       then (425, ErrorMessage (''leadership not yet reconciled for '' @ m))
       else (if LeaderURL (fst (Leader r m)) = '''' then 503 else 200, LeaderPayload (fst (Leader r m))))" for m
    by (simp add: handleGetLeader_def Namespace_def Leader_def split: option.splits)
  have "Epoch (fst (Leader r n)) \<noteq> 0" using inv Leader_fields [of r n] by (simp add: reg_inv_def)
  moreover have "list_all (\<lambda>(_, d). published d) (deps r) \<longleftrightarrow> (\<forall>m \<in> set (Names r). Published r m)"
  proof -
    have "list_all (\<lambda>(_, d). published d) (deps r) \<longleftrightarrow>
        (\<forall>m d. map_of (deps r) m = Some d \<longrightarrow> published d)"
      using gwf_ball [of "deps r" "\<lambda>_ d. published d"] inv by (simp add: list_all_iff reg_inv_def)
    also have "\<dots> \<longleftrightarrow> (\<forall>m \<in> set (Names r). Published r m)"
    proof -
      have "m \<in> set (Names r) \<longleftrightarrow> map_of (deps r) m \<noteq> None" for m
        by (simp add: Names_def map_of_eq_None_iff)
      then show ?thesis by (auto simp: Published_def split: option.splits)
    qed
    finally show ?thesis .
  qed
  moreover have "Namespace r m \<noteq> None" if "m \<in> set (Names r)" for m
    using that by (auto simp: Names_def Namespace_def map_of_eq_None_iff split: option.splits)
  ultimately show ?thesis
    using reply by (auto simp: readyz_def AllPublished_def allPublishedLoop_all Names_def)
qed

end
