(* ===== verification/Tracker.thy ===== *)
theory Tracker
  imports GoStd
begin

text \<open>
  The leader tracker of usher (\<open>usher/main.go\<close>): what the router believes about the leader of
  one deployment, how a polled answer or a streamed event changes it, and the loops that keep
  it fresh (resolve loop, stream loop with back-off, nudges).

  Inputs: \<open>parse\<close> is \<open>url.ParseRequestURI\<close> of the Go version in use (an error is \<open>None\<close>, a
  parsed URL keeps the fields the code reads), \<open>decode\<close> is what \<open>encoding/json\<close> makes of bytes
  as a \<open>leaderResponse\<close> (\<open>Decoder.Decode\<close> for a poll, \<open>Unmarshal\<close> for an event), and clock readings, HTTP answers and the state of the context are
  arguments. Log output and connection pools are not modelled. The mutex \<open>t.mu\<close> makes
  \<open>applyLeader\<close> one step; a reverse proxy is its target URL.
\<close>

section \<open>Data\<close>

record url =
  u_Scheme :: string
  u_Host :: string
  u_Path :: string
  u_RawQuery :: string

record leaderResponse =
  lr_LeaderURL :: string
  lr_Seq :: u64
  lr_Epoch :: u64

definition noResponse :: leaderResponse where
  "noResponse = \<lparr>lr_LeaderURL = '''', lr_Seq = 0, lr_Epoch = 0\<rparr>"

definition bodyReadLimit :: nat where "bodyReadLimit = 4096"
definition streamBufferMax :: nat where "streamBufferMax = 65536"
definition resolveInterval :: duration where "resolveInterval = 60 * second"
definition fastResolveInterval :: duration where "fastResolveInterval = 5 * second"
definition nudgeCoalesceInterval :: duration where "nudgeCoalesceInterval = second"
definition streamBackoffInitial :: duration where "streamBackoffInitial = second"
definition streamBackoffCap :: duration where "streamBackoffCap = 15 * second"
definition streamHealthyAfter :: duration where "streamHealthyAfter = 30 * second"

text \<open>
  The mutable part of a tracker. A \<open>stateGate\<close> is its flag, a \<open>logThrottle\<close> its last instant,
  and \<open>resolvePending\<close> is the one-slot channel \<open>resolveCh\<close>.
\<close>

record tracker =
  siteHost :: string
  bigbrainURL :: string
  t_name :: string
  maxBody :: int
  resolvePending :: bool
  nextResolve :: instant
  pollGate :: bool
  streamGate :: bool
  eventGate :: bool
  upstreamErrLog :: instant
  noLeaderLog :: instant
  resolved :: bool
  lastAppliedSeq :: u64
  lastEpoch :: u64
  curURL :: string
  proxy :: "url option"
  siteProxy :: "url option"

definition newTracker :: "string \<Rightarrow> string \<Rightarrow> string \<Rightarrow> int \<Rightarrow> tracker" where
  "newTracker site big name body =
     \<lparr>siteHost = site, bigbrainURL = big, t_name = name, maxBody = body, resolvePending = False,
      nextResolve = zero_time, pollGate = False, streamGate = False, eventGate = False,
      upstreamErrLog = zero_time, noLeaderLog = zero_time, resolved = False,
      lastAppliedSeq = 0, lastEpoch = 0, curURL = '''', proxy = None, siteProxy = None\<rparr>"

section \<open>Gates, throttles, wake-ups\<close>

text \<open>\<open>fail\<close> and \<open>ok\<close> of a gate: the new flag and whether it changed.\<close>

definition gateFail :: "bool \<Rightarrow> bool \<times> bool" where
  "gateFail down = (if \<not> down then (True, True) else (down, False))"

definition gateOk :: "bool \<Rightarrow> bool \<times> bool" where
  "gateOk down = (if down then (False, True) else (down, False))"

text \<open>\<open>allow\<close> reads the clock twice: to compare, and to remember.\<close>

definition allow :: "instant \<Rightarrow> instant \<Rightarrow> instant \<Rightarrow> instant \<times> bool" where
  "allow prev now1 now2 = (if time_sub now1 prev < second then (prev, False) else (now2, True))"

definition wakeResolve :: "tracker \<Rightarrow> tracker" where
  "wakeResolve t = t\<lparr>resolvePending := True\<rparr>"

definition nudgeResolve :: "tracker \<Rightarrow> instant \<Rightarrow> instant \<Rightarrow> tracker" where
  "nudgeResolve t now1 now2 =
     (if now1 < nextResolve t then t
      else wakeResolve (t\<lparr>nextResolve := now2 + nudgeCoalesceInterval\<rparr>))"

definition pollInterval :: "tracker \<Rightarrow> duration" where
  "pollInterval t = (if streamGate t then fastResolveInterval else resolveInterval)"

section \<open>Applying a leader\<close>

definition sitePath :: string where "sitePath = ''/http''"

text \<open>The part of \<open>applyLeader\<close> after the URL has been parsed, under \<open>t.mu\<close>.\<close>

definition installLeader :: "tracker \<Rightarrow> string \<Rightarrow> url option \<Rightarrow> tracker" where
  "installLeader t leader u =
     (if leader = '''' then t\<lparr>curURL := '''', proxy := None, siteProxy := None\<rparr>
      else (let t1 = t\<lparr>curURL := leader, proxy := u\<rparr> in
            if siteHost t \<noteq> '''' then t1\<lparr>siteProxy := map_option (\<lambda>v. v\<lparr>u_Path := sitePath\<rparr>) u\<rparr>
            else t1))"

definition applyParsed :: "tracker \<Rightarrow> leaderResponse \<Rightarrow> url option \<Rightarrow> bool \<Rightarrow> tracker \<times> bool" where
  "applyParsed t lr u fromPoll =
     (if lr_Epoch lr \<noteq> lastEpoch t \<and> \<not> fromPoll then (wakeResolve t, False)
      else (let t1 = (if lr_Epoch lr \<noteq> lastEpoch t
                      then t\<lparr>lastEpoch := lr_Epoch lr, lastAppliedSeq := 0\<rparr> else t) in
            if lr_Seq lr \<le> lastAppliedSeq t1 then (t1, False)
            else (let t2 = t1\<lparr>lastAppliedSeq := lr_Seq lr\<rparr> in
                  if lr_LeaderURL lr = curURL t2 then (t2, False)
                  else (installLeader t2 (lr_LeaderURL lr) u, True))))"

definition applyLeader ::
  "(string \<Rightarrow> url option) \<Rightarrow> tracker \<Rightarrow> leaderResponse \<Rightarrow> bool \<Rightarrow> tracker \<times> bool" where
  "applyLeader parse t lr fromPoll =
     (if lr_LeaderURL lr \<noteq> ''''
      then (case parse (lr_LeaderURL lr) of
              None \<Rightarrow> (t, False)
            | Some u \<Rightarrow> if u_Scheme u = '''' \<or> u_Host u = '''' then (t, False)
                       else applyParsed t lr (Some u) fromPoll)
      else applyParsed t lr None fromPoll)"

definition currentLeader :: "tracker \<Rightarrow> bool \<Rightarrow> url option" where
  "currentLeader t site = (if site then siteProxy t else proxy t)"

section \<open>Polling bigbrain\<close>

fun trimRight :: "char \<Rightarrow> string \<Rightarrow> string" where
  "trimRight c s = rev (dropWhile (\<lambda>d. d = c) (rev s))"

definition leaderURLof :: "tracker \<Rightarrow> string" where
  "leaderURLof t =
     trimRight (CHR ''/'') (bigbrainURL t) @ ''/registry/deployments/'' @ t_name t @ ''/leader''"

definition streamURLof :: "tracker \<Rightarrow> string" where
  "streamURLof t =
     trimRight (CHR ''/'') (bigbrainURL t) @ ''/registry/deployments/'' @ t_name t @ ''/leader-stream''"

text \<open>\<open>http\<close>: from a URL to a transport error or the status and the body bytes.\<close>

definition queryBigbrain ::
  "(string \<Rightarrow> 'e + int \<times> string) \<Rightarrow> (string \<Rightarrow> leaderResponse option) \<Rightarrow> tracker
    \<Rightarrow> leaderResponse option" where
  "queryBigbrain http decode t =
     (case http (leaderURLof t) of
        Inl _ \<Rightarrow> None
      | Inr (code, body) \<Rightarrow>
          if code \<noteq> 200 \<and> code \<noteq> 503 then None
          else (case decode (take bodyReadLimit body) of
                  None \<Rightarrow> None
                | Some lr \<Rightarrow>
                    if code = 200 then Some lr
                    else if lr_Epoch lr = 0 then None
                    else Some (lr\<lparr>lr_LeaderURL := ''''\<rparr>)))"

definition resolveOnce ::
  "(string \<Rightarrow> url option) \<Rightarrow> (string \<Rightarrow> 'e + int \<times> string) \<Rightarrow> (string \<Rightarrow> leaderResponse option)
    \<Rightarrow> tracker \<Rightarrow> bool \<Rightarrow> tracker" where
  "resolveOnce parse http decode t canceled =
     (case queryBigbrain http decode t of
        None \<Rightarrow> (if canceled then t else t\<lparr>pollGate := fst (gateFail (pollGate t))\<rparr>)
      | Some lr \<Rightarrow>
          (fst (applyLeader parse (t\<lparr>pollGate := fst (gateOk (pollGate t))\<rparr>) lr True))
            \<lparr>resolved := True\<rparr>)"

text \<open>One wake-up of \<open>resolveLoop\<close>: the channel is drained (or the ticker fired), then a poll.\<close>

definition resolveWake ::
  "(string \<Rightarrow> url option) \<Rightarrow> (string \<Rightarrow> 'e + int \<times> string) \<Rightarrow> (string \<Rightarrow> leaderResponse option)
    \<Rightarrow> tracker \<Rightarrow> bool \<Rightarrow> bool \<Rightarrow> tracker" where
  "resolveWake parse http decode t nudged canceled =
     resolveOnce parse http decode (if nudged then t\<lparr>resolvePending := False\<rparr> else t) canceled"

section \<open>Following the stream\<close>

text \<open>
  \<open>bufio.Scanner\<close> on the bytes a stream delivers: lines end at a newline (the last one at the
  end of the data), a trailing carriage return is dropped, and a line that does not fit the
  buffer stops the scan.
\<close>

fun splitLines :: "string \<Rightarrow> string \<Rightarrow> string list" where
  "splitLines cur [] = (if cur = [] then [] else [rev cur])"
| "splitLines cur (c # cs) =
     (if c = CHR 0x0A then rev cur # splitLines [] cs else splitLines (c # cur) cs)"

definition dropCR :: "string \<Rightarrow> string" where
  "dropCR l = (if l \<noteq> [] \<and> last l = CHR 0x0D then butlast l else l)"

definition scanLines :: "string \<Rightarrow> string list" where
  "scanLines body = map dropCR (takeWhile (\<lambda>l. length l < streamBufferMax) (splitLines [] body))"

definition handleStreamLine ::
  "(string \<Rightarrow> url option) \<Rightarrow> (string \<Rightarrow> leaderResponse option) \<Rightarrow> tracker \<Rightarrow> string \<Rightarrow> tracker" where
  "handleStreamLine parse decode t line =
     (case CutPrefix line ''data: '' of
        None \<Rightarrow> t
      | Some data \<Rightarrow>
          (case decode data of
             None \<Rightarrow> t\<lparr>eventGate := fst (gateFail (eventGate t))\<rparr>
           | Some ev \<Rightarrow>
               fst (applyLeader parse (t\<lparr>eventGate := fst (gateOk (eventGate t))\<rparr>) ev False)))"

text \<open>\<open>openStream\<close>: the body of an answer with status 200, and nothing of any other.\<close>

definition openStream :: "'e + int \<times> string \<Rightarrow> string option" where
  "openStream ans =
     (case ans of
        Inl _ \<Rightarrow> None
      | Inr (code, body) \<Rightarrow> if code \<noteq> 200 then None else Some body)"

text \<open>
  One attempt of \<open>consumeStream\<close>: \<open>None\<close> if the stream could not be opened, otherwise the bytes
  it delivered before it ended, failed or was cut by the idle watchdog; \<open>canceled\<close> is the state
  of the outer context at the check. The result says whether the stream was healthy.
\<close>

definition consumeStream ::
  "(string \<Rightarrow> url option) \<Rightarrow> (string \<Rightarrow> leaderResponse option) \<Rightarrow> tracker \<Rightarrow> string option
    \<Rightarrow> bool \<Rightarrow> instant \<Rightarrow> instant \<Rightarrow> tracker \<times> bool" where
  "consumeStream parse decode t stream canceled started ended =
     (case stream of
        None \<Rightarrow>
          (if canceled then (t, False)
           else (case gateFail (streamGate t) of (g, changed) \<Rightarrow>
                   (if changed then wakeResolve (t\<lparr>streamGate := g\<rparr>) else t\<lparr>streamGate := g\<rparr>, False)))
      | Some body \<Rightarrow>
          (let t1 = t\<lparr>streamGate := fst (gateOk (streamGate t))\<rparr>;
               t2 = foldl (handleStreamLine parse decode) t1 (scanLines body)
           in if canceled then (t2, False)
              else (wakeResolve (t2\<lparr>streamGate := fst (gateFail (streamGate t2))\<rparr>),
                    time_sub ended started \<ge> streamHealthyAfter)))"

text \<open>\<open>streamBigbrain\<close>: the pause after an attempt and the back-off carried to the next one.\<close>

definition streamPause :: "duration \<Rightarrow> bool \<Rightarrow> duration" where
  "streamPause backoff healthy = (if healthy then streamBackoffInitial else backoff)"

definition streamBackoff :: "duration \<Rightarrow> bool \<Rightarrow> duration" where
  "streamBackoff backoff healthy =
     (let b = streamPause backoff healthy * 2 in if b > streamBackoffCap then streamBackoffCap else b)"

fun streamPauses :: "duration \<Rightarrow> bool list \<Rightarrow> duration list" where
  "streamPauses backoff [] = []"
| "streamPauses backoff (healthy # hs) =
     streamPause backoff healthy # streamPauses (streamBackoff backoff healthy) hs"

section \<open>A reader of a versioned feed\<close>

text \<open>
  What the router relies on: applying an acceptable item moves to its version if it is newer
  and does nothing otherwise. Then the outcome of a batch does not depend on the order or the
  repetition of its items.
\<close>

locale versioned_reader =
  fixes absorb :: "'s \<Rightarrow> 'e \<Rightarrow> 's"
    and acceptable :: "'s \<Rightarrow> 'e \<Rightarrow> bool"
    and ver :: "'s \<Rightarrow> nat"
    and cur :: "'s \<Rightarrow> 'v"
    and seqOf :: "'e \<Rightarrow> nat"
    and val :: "'e \<Rightarrow> 'v"
  assumes newer: "acceptable s e \<Longrightarrow> ver s < seqOf e \<Longrightarrow>
      ver (absorb s e) = seqOf e \<and> cur (absorb s e) = val e"
    and older: "acceptable s e \<Longrightarrow> seqOf e \<le> ver s \<Longrightarrow>
      ver (absorb s e) = ver s \<and> cur (absorb s e) = cur s"
    and acceptable_apply: "acceptable s e \<Longrightarrow> acceptable (absorb s e) d = acceptable s d"
begin

lemma ver_apply: "acceptable s e \<Longrightarrow> ver (absorb s e) = max (ver s) (seqOf e)"
  using newer [of s e] older [of s e] by (cases "ver s < seqOf e") (simp_all add: max_def)

lemma feed_ver: "list_all (acceptable s) es \<Longrightarrow> ver s \<le> ver (foldl absorb s es)"
proof (induction es arbitrary: s)
  case (Cons e es)
  have "ver (absorb s e) \<le> ver (foldl absorb (absorb s e) es)"
    using Cons.prems acceptable_apply by (intro Cons.IH) (simp add: list_all_iff)
  then show ?case using ver_apply [of s e] Cons.prems by simp
qed simp

lemma feed_old:
  "list_all (acceptable s) es \<Longrightarrow> \<forall>e \<in> set es. seqOf e \<le> ver s \<Longrightarrow>
     ver (foldl absorb s es) = ver s \<and> cur (foldl absorb s es) = cur s"
proof (induction es arbitrary: s)
  case (Cons e es)
  have one: "ver (absorb s e) = ver s \<and> cur (absorb s e) = cur s"
    using older [of s e] Cons.prems by simp
  have "ver (foldl absorb (absorb s e) es) = ver (absorb s e) \<and> cur (foldl absorb (absorb s e) es) = cur (absorb s e)"
    using Cons.prems acceptable_apply one by (intro Cons.IH) (simp_all add: list_all_iff)
  then show ?case using one by simp
qed simp

lemma feed_latest:
  "list_all (acceptable s) es \<Longrightarrow> m \<in> set es \<Longrightarrow> ver s < seqOf m \<Longrightarrow>
   \<forall>e \<in> set es. seqOf e \<le> seqOf m \<and> (seqOf e = seqOf m \<longrightarrow> val e = val m) \<Longrightarrow>
     ver (foldl absorb s es) = seqOf m \<and> cur (foldl absorb s es) = val m"
proof (induction es arbitrary: s)
  case (Cons e es)
  have acc: "list_all (acceptable (absorb s e)) es"
    using Cons.prems(1) acceptable_apply by (simp add: list_all_iff)
  show ?case
  proof (cases "seqOf e = seqOf m")
    case True
    have "acceptable s e" "val e = val m" using Cons.prems(1,4) True by auto
    then have at: "ver (absorb s e) = seqOf m" "cur (absorb s e) = val m"
      using newer [of s e] Cons.prems(3) True by simp_all
    have "\<forall>d \<in> set es. seqOf d \<le> ver (absorb s e)" using Cons.prems(4) at(1) by auto
    from feed_old [OF acc this] show ?thesis using at by simp
  next
    case False
    then have mem: "m \<in> set es" using Cons.prems(2) by auto
    have "seqOf e < seqOf m" "acceptable s e" using Cons.prems(1,4) False by auto
    then have less: "ver (absorb s e) < seqOf m" using ver_apply [of s e] Cons.prems(3) by simp
    have rest: "\<forall>d \<in> set es. seqOf d \<le> seqOf m \<and> (seqOf d = seqOf m \<longrightarrow> val d = val m)"
      using Cons.prems(4) by simp
    from Cons.IH [OF acc mem less rest] show ?thesis by (simp only: foldl_Cons)
  qed
qed simp

end

definition usableURL :: "(string \<Rightarrow> url option) \<Rightarrow> string \<Rightarrow> bool" where
  "usableURL parse leader =
     (leader = '''' \<or> (case parse leader of None \<Rightarrow> False
                      | Some u \<Rightarrow> u_Scheme u \<noteq> '''' \<and> u_Host u \<noteq> ''''))"

definition parsedURL :: "(string \<Rightarrow> url option) \<Rightarrow> string \<Rightarrow> url option" where
  "parsedURL parse leader = (if leader = '''' then None else parse leader)"

lemma applyLeader_usable:
  "applyLeader parse t lr fromPoll =
     (if usableURL parse (lr_LeaderURL lr)
      then applyParsed t lr (parsedURL parse (lr_LeaderURL lr)) fromPoll else (t, False))"
  by (auto simp: applyLeader_def usableURL_def parsedURL_def split: option.splits)

lemma installLeader_fields [simp]:
  "lastEpoch (installLeader t l u) = lastEpoch t"
  "lastAppliedSeq (installLeader t l u) = lastAppliedSeq t"
  "curURL (installLeader t l u) = l"
  "siteHost (installLeader t l u) = siteHost t"
  "resolved (installLeader t l u) = resolved t"
  by (simp_all add: installLeader_def Let_def)

lemma wakeResolve_fields [simp]:
  "lastEpoch (wakeResolve t) = lastEpoch t" "lastAppliedSeq (wakeResolve t) = lastAppliedSeq t"
  "curURL (wakeResolve t) = curURL t" "proxy (wakeResolve t) = proxy t"
  "siteProxy (wakeResolve t) = siteProxy t" "siteHost (wakeResolve t) = siteHost t"
  "resolved (wakeResolve t) = resolved t"
  by (simp_all add: wakeResolve_def)

interpretation feed: versioned_reader
  "\<lambda>t lr. fst (applyLeader parse t lr fromPoll)"
  "\<lambda>t lr. lr_Epoch lr = lastEpoch t \<and> usableURL parse (lr_LeaderURL lr)"
  "\<lambda>t. unat (lastAppliedSeq t)" curURL "\<lambda>lr. unat (lr_Seq lr)" lr_LeaderURL
  for parse fromPoll
  by unfold_locales
    (auto simp: applyLeader_usable applyParsed_def Let_def word_le_nat_alt word_less_nat_alt)

text \<open>
  A line of the stream carries an event or nothing; the lines of the current epoch are a
  versioned feed as well, in which the lines without an event count as version zero.
\<close>

definition lineEvent :: "(string \<Rightarrow> leaderResponse option) \<Rightarrow> string \<Rightarrow> leaderResponse option" where
  "lineEvent decode line = (case CutPrefix line ''data: '' of None \<Rightarrow> None | Some data \<Rightarrow> decode data)"

definition lineSeq :: "(string \<Rightarrow> leaderResponse option) \<Rightarrow> string \<Rightarrow> nat" where
  "lineSeq decode line = (case lineEvent decode line of None \<Rightarrow> 0 | Some lr \<Rightarrow> unat (lr_Seq lr))"

definition lineURL :: "(string \<Rightarrow> leaderResponse option) \<Rightarrow> string \<Rightarrow> string" where
  "lineURL decode line = (case lineEvent decode line of None \<Rightarrow> '''' | Some lr \<Rightarrow> lr_LeaderURL lr)"

definition lineAcceptable ::
  "(string \<Rightarrow> url option) \<Rightarrow> (string \<Rightarrow> leaderResponse option) \<Rightarrow> tracker \<Rightarrow> string \<Rightarrow> bool" where
  "lineAcceptable parse decode t line =
     (case lineEvent decode line of
        None \<Rightarrow> True
      | Some lr \<Rightarrow> lr_Epoch lr = lastEpoch t \<and> usableURL parse (lr_LeaderURL lr))"

interpretation line_feed: versioned_reader
  "handleStreamLine parse decode" "lineAcceptable parse decode"
  "\<lambda>t. unat (lastAppliedSeq t)" curURL "lineSeq decode" "lineURL decode"
  for parse decode
  by unfold_locales
    (auto simp: handleStreamLine_def lineAcceptable_def lineSeq_def lineURL_def lineEvent_def
      applyLeader_usable applyParsed_def Let_def word_le_nat_alt word_less_nat_alt
      split: option.splits)

section \<open>The invariant of the tracker\<close>

text \<open>Requests are forwarded to the parsed current leader, the site under its own path.\<close>

definition tracker_inv :: "(string \<Rightarrow> url option) \<Rightarrow> tracker \<Rightarrow> bool" where
  "tracker_inv parse t =
     (usableURL parse (curURL t) \<and> proxy t = parsedURL parse (curURL t)
      \<and> siteProxy t = (if siteHost t = '''' then None
                       else map_option (\<lambda>v. v\<lparr>u_Path := sitePath\<rparr>) (proxy t)))"

lemma tracker_inv_new [simp]: "tracker_inv parse (newTracker site big name body)"
  by (simp add: tracker_inv_def newTracker_def usableURL_def parsedURL_def)

lemma tracker_inv_cong:
  "curURL t' = curURL t \<Longrightarrow> proxy t' = proxy t \<Longrightarrow> siteProxy t' = siteProxy t \<Longrightarrow> siteHost t' = siteHost t \<Longrightarrow>
     tracker_inv parse t' = tracker_inv parse t"
  by (simp add: tracker_inv_def)

lemma applyLeader_inv: "tracker_inv parse t \<Longrightarrow> tracker_inv parse (fst (applyLeader parse t lr fromPoll))"
  by (auto simp: applyLeader_usable applyParsed_def tracker_inv_def installLeader_def Let_def
      parsedURL_def usableURL_def split: option.splits)

lemma resolveOnce_inv:
  assumes "tracker_inv parse t"
  shows "tracker_inv parse (resolveOnce parse http decode t canceled)"
proof (cases "queryBigbrain http decode t")
  case None
  then show ?thesis using assms by (simp add: resolveOnce_def tracker_inv_def)
next
  case (Some lr)
  let ?t = "t\<lparr>pollGate := fst (gateOk (pollGate t))\<rparr>"
  have "tracker_inv parse ?t" using assms by (simp add: tracker_inv_def)
  then have "tracker_inv parse (fst (applyLeader parse ?t lr True))" by (rule applyLeader_inv)
  then show ?thesis using Some by (simp add: resolveOnce_def tracker_inv_def)
qed

lemma handleStreamLine_inv:
  assumes "tracker_inv parse t"
  shows "tracker_inv parse (handleStreamLine parse decode t line)"
proof -
  have "tracker_inv parse (t\<lparr>eventGate := g\<rparr>)" for g using assms by (simp add: tracker_inv_def)
  then show ?thesis using assms applyLeader_inv
    by (auto simp: handleStreamLine_def split: option.splits)
qed

lemma foldl_inv: "(\<And>s x. P s \<Longrightarrow> P (f s x)) \<Longrightarrow> P s \<Longrightarrow> P (foldl f s xs)"
  by (induction xs arbitrary: s) auto

lemma consumeStream_inv:
  assumes "tracker_inv parse t"
  shows "tracker_inv parse (fst (consumeStream parse decode t stream canceled started ended))"
proof (cases stream)
  case None
  then show ?thesis
    using assms by (auto simp: consumeStream_def tracker_inv_def split: prod.splits)
next
  case (Some body)
  let ?t1 = "t\<lparr>streamGate := fst (gateOk (streamGate t))\<rparr>"
  have "tracker_inv parse ?t1" using assms by (simp add: tracker_inv_def)
  then have "tracker_inv parse (foldl (handleStreamLine parse decode) ?t1 (scanLines body))"
    using foldl_inv [of "tracker_inv parse"] handleStreamLine_inv by blast
  then show ?thesis using Some by (simp add: consumeStream_def Let_def tracker_inv_def)
qed

section \<open>Executions of a tracker\<close>

text \<open>
  The goroutines of a tracker (resolve loop, stream loop, request handlers that nudge) take
  turns; a stream may be interrupted by polls between any two lines.
\<close>

inductive tracker_step :: "(string \<Rightarrow> url option) \<Rightarrow> tracker \<Rightarrow> tracker \<Rightarrow> bool" for parse where
  poll: "tracker_step parse t
    (resolveWake parse (http :: string \<Rightarrow> string + int \<times> string) decode t nudged canceled)"
| line: "tracker_step parse t (handleStreamLine parse decode t l)"
| stream: "tracker_step parse t (fst (consumeStream parse decode t s canceled started ended))"
| nudge: "tracker_step parse t (nudgeResolve t now1 now2)"
| upstream_error: "tracker_step parse t (t\<lparr>upstreamErrLog := fst (allow (upstreamErrLog t) now1 now2)\<rparr>)"
| no_leader: "tracker_step parse t (t\<lparr>noLeaderLog := fst (allow (noLeaderLog t) now1 now2)\<rparr>)"

inductive tracker_reachable :: "(string \<Rightarrow> url option) \<Rightarrow> tracker \<Rightarrow> bool" for parse where
  fresh: "tracker_reachable parse (newTracker site big name body)"
| step: "tracker_reachable parse t \<Longrightarrow> tracker_step parse t t' \<Longrightarrow> tracker_reachable parse t'"

lemma resolveWake_inv:
  "tracker_inv parse t \<Longrightarrow> tracker_inv parse (resolveWake parse http decode t nudged canceled)"
  unfolding resolveWake_def by (rule resolveOnce_inv) (simp add: tracker_inv_def)

lemma tracker_step_inv: "tracker_step parse t t' \<Longrightarrow> tracker_inv parse t \<Longrightarrow> tracker_inv parse t'"
proof (induction rule: tracker_step.induct)
  case (nudge t now1 now2)
  then show ?case by (auto simp: nudgeResolve_def tracker_inv_def wakeResolve_def)
next
  case (upstream_error t now1 now2)
  then show ?case by (simp add: tracker_inv_def)
next
  case (no_leader t now1 now2)
  then show ?case by (simp add: tracker_inv_def)
qed (auto intro: resolveWake_inv handleStreamLine_inv consumeStream_inv)

lemma tracker_reachable_inv: "tracker_reachable parse t \<Longrightarrow> tracker_inv parse t"
  by (induction rule: tracker_reachable.induct) (auto intro: tracker_step_inv)

text \<open>\<open>advances t t'\<close>: what may happen to the version and the leader.\<close>

definition advances :: "tracker \<Rightarrow> tracker \<Rightarrow> bool" where
  "advances t t' =
     (lastEpoch t' = lastEpoch t \<longrightarrow>
        lastAppliedSeq t \<le> lastAppliedSeq t'
        \<and> (lastAppliedSeq t' = lastAppliedSeq t \<longrightarrow> curURL t' = curURL t))"

lemma advances_refl [simp]:
  "lastEpoch t' = lastEpoch t \<Longrightarrow> lastAppliedSeq t' = lastAppliedSeq t \<Longrightarrow> curURL t' = curURL t \<Longrightarrow>
     advances t t'"
  by (simp add: advances_def)

lemma advances_cong:
  "lastEpoch u = lastEpoch t \<Longrightarrow> lastAppliedSeq u = lastAppliedSeq t \<Longrightarrow> curURL u = curURL t \<Longrightarrow>
   lastEpoch u' = lastEpoch t' \<Longrightarrow> lastAppliedSeq u' = lastAppliedSeq t' \<Longrightarrow> curURL u' = curURL t' \<Longrightarrow>
     advances u u' = advances t t'"
  by (simp add: advances_def)

lemma applyLeader_advances: "advances t (fst (applyLeader parse t lr fromPoll))"
  by (auto simp: applyLeader_usable applyParsed_def advances_def Let_def)

text \<open>Events of the stream stay within the epoch of the tracker.\<close>

definition advances_within :: "tracker \<Rightarrow> tracker \<Rightarrow> bool" where
  "advances_within t t' = (lastEpoch t' = lastEpoch t \<and> advances t t')"

lemma advances_within_trans: "advances_within t u \<Longrightarrow> advances_within u v \<Longrightarrow> advances_within t v"
  by (auto simp: advances_within_def advances_def)

lemma applyLeader_within: "advances_within t (fst (applyLeader parse t lr False))"
  by (auto simp: applyLeader_usable applyParsed_def advances_def advances_within_def Let_def)

lemma handleStreamLine_within: "advances_within t (handleStreamLine parse decode t l)"
proof -
  have gate: "advances_within t (t\<lparr>eventGate := g\<rparr>)" for g by (simp add: advances_within_def)
  show ?thesis
    using gate advances_within_trans [OF gate applyLeader_within]
    by (auto simp: handleStreamLine_def advances_within_def split: option.splits)
qed

lemma foldl_lines_within: "advances_within t (foldl (handleStreamLine parse decode) t ls)"
proof (induction ls arbitrary: t)
  case Nil
  then show ?case by (simp add: advances_within_def)
next
  case (Cons l ls)
  show ?case using advances_within_trans [OF handleStreamLine_within Cons.IH] by simp
qed

lemma consumeStream_within:
  "advances_within t (fst (consumeStream parse decode t s canceled started ended))"
proof (cases s)
  case None
  then show ?thesis by (auto simp: consumeStream_def advances_within_def split: prod.splits)
next
  case (Some body)
  have "advances_within t (t\<lparr>streamGate := g\<rparr>)" for g by (simp add: advances_within_def)
  from advances_within_trans [OF this foldl_lines_within] Some show ?thesis
    by (auto simp: consumeStream_def Let_def advances_within_def advances_def wakeResolve_def)
qed

lemma resolveOnce_advances: "advances t (resolveOnce parse http decode t canceled)"
proof (cases "queryBigbrain http decode t")
  case None
  then show ?thesis by (simp add: resolveOnce_def)
next
  case (Some lr)
  let ?t = "t\<lparr>pollGate := fst (gateOk (pollGate t))\<rparr>"
  have "advances ?t (fst (applyLeader parse ?t lr True))" by (rule applyLeader_advances)
  then show ?thesis using Some by (simp add: resolveOnce_def advances_def)
qed

lemma tracker_step_advances: "tracker_step parse t t' \<Longrightarrow> advances t t'"
proof (induction rule: tracker_step.induct)
  case (poll t http decode nudged canceled)
  let ?u = "if nudged then t\<lparr>resolvePending := False\<rparr> else t"
  have "advances ?u (resolveOnce parse http decode ?u canceled)" by (rule resolveOnce_advances)
  then show ?case by (simp add: resolveWake_def advances_def split: if_splits)
next
  case (line t decode l)
  then show ?case using handleStreamLine_within by (simp add: advances_within_def)
next
  case (stream t decode s canceled started ended)
  then show ?case using consumeStream_within by (simp add: advances_within_def)
qed (simp_all add: nudgeResolve_def wakeResolve_def)

section \<open>Properties\<close>

text \<open>
  In every reachable state of a tracker, API requests are forwarded to the last leader URL
  it accepted and site requests to the same URL with the path \<open>/http\<close>; there is no target
  exactly when no leader is known; and a URL without scheme or host is never installed.
\<close>

theorem tracker_forwards_to_leader:
  assumes "tracker_reachable parse t"
  shows "usableURL parse (curURL t)
    \<and> currentLeader t False = (if curURL t = '''' then None else parse (curURL t))
    \<and> currentLeader t True =
        (if siteHost t = '''' \<or> curURL t = '''' then None
         else map_option (\<lambda>u. u\<lparr>u_Path := ''/http''\<rparr>) (parse (curURL t)))
    \<and> (curURL t \<noteq> '''' \<longrightarrow> currentLeader t False \<noteq> None)"
  using tracker_reachable_inv [OF assms]
  by (auto simp: tracker_inv_def currentLeader_def parsedURL_def usableURL_def sitePath_def
      split: option.splits)

definition sampleParse :: "string \<Rightarrow> url option" where
  "sampleParse s = (case CutPrefix s ''http://'' of
     None \<Rightarrow> None
   | Some h \<Rightarrow> Some \<lparr>u_Scheme = ''http'', u_Host = h, u_Path = '''', u_RawQuery = ''''\<rparr>)"

definition sampleTracker :: tracker where
  "sampleTracker = newTracker ''site.example'' ''http://bigbrain:8081/'' ''dev'' 0"

definition sampleResolved :: tracker where
  "sampleResolved = resolveWake sampleParse (\<lambda>_. Inr (200, '''') :: string + int \<times> string)
     (\<lambda>_. Some \<lparr>lr_LeaderURL = ''http://a:3210'', lr_Seq = 2, lr_Epoch = 7\<rparr>) sampleTracker False False"

lemmas sampleTracker_defs = sampleResolved_def sampleTracker_def newTracker_def resolveWake_def
  resolveOnce_def queryBigbrain_def applyLeader_usable applyParsed_def installLeader_def usableURL_def
  parsedURL_def sampleParse_def CutPrefix_def gateOk_def Let_def currentLeader_def

lemma sampleResolved_reachable: "tracker_reachable sampleParse sampleResolved"
  unfolding sampleResolved_def sampleTracker_def
  by (rule tracker_reachable.step [OF tracker_reachable.fresh tracker_step.poll])

theorem tracker_forwards_to_leader_witness:
  "currentLeader sampleResolved False =
     Some \<lparr>u_Scheme = ''http'', u_Host = ''a:3210'', u_Path = '''', u_RawQuery = ''''\<rparr>"
  using tracker_forwards_to_leader [OF sampleResolved_reachable] by (simp add: sampleTracker_defs)

text \<open>
  Within one epoch of bigbrain the version a tracker has applied never goes back, and its
  leader only changes together with a strictly newer version, whatever polls and stream lines
  it receives in whatever order; lines of a stream never change the epoch.
\<close>

theorem tracker_version_monotone:
  assumes "tracker_step parse t t'"
  shows "(lastEpoch t' = lastEpoch t \<longrightarrow>
        lastAppliedSeq t \<le> lastAppliedSeq t'
        \<and> (curURL t' \<noteq> curURL t \<longrightarrow> lastAppliedSeq t < lastAppliedSeq t'))
    \<and> lastEpoch (handleStreamLine parse decode t l) = lastEpoch t"
proof -
  have "advances t t'" by (rule tracker_step_advances [OF assms])
  moreover have "lastEpoch (handleStreamLine parse decode t l) = lastEpoch t"
    using handleStreamLine_within [of t parse decode l] by (simp add: advances_within_def)
  ultimately show ?thesis by (auto simp: advances_def order_less_le)
qed

theorem tracker_version_monotone_witness:
  "lastEpoch (handleStreamLine sampleParse (\<lambda>_. Some \<lparr>lr_LeaderURL = '''', lr_Seq = 1, lr_Epoch = 7\<rparr>)
      sampleResolved ''data: x'') = lastEpoch sampleResolved"
  using tracker_version_monotone [OF tracker_step.line] by blast

text \<open>
  The outcome of a batch of stream events (or polls) of the current epoch does not depend
  on their order or repetition: if the events of the batch are consistent (equal versions carry
  equal leaders) and usable, the tracker ends with the leader of the newest one, or stays as it
  was if none is newer than what it had.
\<close>

theorem batch_order_irrelevant:
  assumes "list_all (\<lambda>lr. lr_Epoch lr = lastEpoch t \<and> usableURL parse (lr_LeaderURL lr)) lrs"
    and "m \<in> set lrs"
    and "\<forall>lr \<in> set lrs. lr_Seq lr \<le> lr_Seq m \<and> (lr_Seq lr = lr_Seq m \<longrightarrow> lr_LeaderURL lr = lr_LeaderURL m)"
  shows "(let t' = foldl (\<lambda>t lr. fst (applyLeader parse t lr fromPoll)) t lrs in
    if lastAppliedSeq t < lr_Seq m
    then curURL t' = lr_LeaderURL m \<and> lastAppliedSeq t' = lr_Seq m
    else curURL t' = curURL t \<and> lastAppliedSeq t' = lastAppliedSeq t)"
proof -
  let ?run = "foldl (\<lambda>t lr. fst (applyLeader parse t lr fromPoll)) t lrs"
  show ?thesis
  proof (cases "lastAppliedSeq t < lr_Seq m")
    case True
    have "unat (lastAppliedSeq ?run) = unat (lr_Seq m) \<and> curURL ?run = lr_LeaderURL m"
      by (rule feed.feed_latest [OF assms(1,2)])
        (use assms(3) True in \<open>auto simp: word_le_nat_alt word_less_nat_alt unsigned_word_eqI\<close>)
    then show ?thesis using True by (simp add: Let_def word_unat_eq_iff)
  next
    case False
    have "unat (lastAppliedSeq ?run) = unat (lastAppliedSeq t) \<and> curURL ?run = curURL t"
      by (rule feed.feed_old [OF assms(1)])
        (use assms(3) False in \<open>auto simp: word_le_nat_alt word_less_nat_alt not_less dest: order_trans\<close>)
    then show ?thesis using False by (simp add: Let_def word_unat_eq_iff)
  qed
qed

theorem batch_order_irrelevant_witness:
  "curURL (foldl (\<lambda>t lr. fst (applyLeader sampleParse t lr False)) sampleResolved
     [\<lparr>lr_LeaderURL = ''http://c:3210'', lr_Seq = 5, lr_Epoch = 7\<rparr>,
      \<lparr>lr_LeaderURL = '''', lr_Seq = 4, lr_Epoch = 7\<rparr>,
      \<lparr>lr_LeaderURL = ''http://c:3210'', lr_Seq = 5, lr_Epoch = 7\<rparr>]) = ''http://c:3210''"
proof -
  let ?lrs = "[\<lparr>lr_LeaderURL = ''http://c:3210'', lr_Seq = 5, lr_Epoch = 7\<rparr>,
      \<lparr>lr_LeaderURL = '''', lr_Seq = 4, lr_Epoch = 7\<rparr>,
      \<lparr>lr_LeaderURL = ''http://c:3210'', lr_Seq = 5, lr_Epoch = 7\<rparr>]"
  have "list_all (\<lambda>lr. lr_Epoch lr = lastEpoch sampleResolved \<and> usableURL sampleParse (lr_LeaderURL lr)) ?lrs"
    by (simp add: sampleTracker_defs)
  from batch_order_irrelevant [OF this, of "\<lparr>lr_LeaderURL = ''http://c:3210'', lr_Seq = 5, lr_Epoch = 7\<rparr>" False]
  show ?thesis by (simp add: Let_def sampleTracker_defs split: if_splits)
qed

text \<open>
  An event of another epoch (bigbrain restarted, or a stream of its previous life) never
  changes the leader when it arrives over the stream: it only wakes the resolve loop. The poll
  that follows adopts the epoch, and with it the leader published there under any version of
  at least one, even one smaller than the versions seen before.
\<close>

theorem foreign_epoch_needs_poll:
  assumes "usableURL parse (lr_LeaderURL lr)" and "lr_Epoch lr \<noteq> lastEpoch t"
  shows "applyLeader parse t lr False = (wakeResolve t, False)
    \<and> lastEpoch (fst (applyLeader parse t lr True)) = lr_Epoch lr
    \<and> (0 < lr_Seq lr \<longrightarrow> curURL (fst (applyLeader parse t lr True)) = lr_LeaderURL lr
        \<and> lastAppliedSeq (fst (applyLeader parse t lr True)) = lr_Seq lr)"
  using assms by (auto simp: applyLeader_usable applyParsed_def Let_def not_le word_less_nat_alt)

theorem foreign_epoch_needs_poll_witness:
  "curURL (fst (applyLeader sampleParse sampleResolved
      \<lparr>lr_LeaderURL = ''http://b:3210'', lr_Seq = 1, lr_Epoch = 9\<rparr> True)) = ''http://b:3210''"
proof -
  let ?lr = "\<lparr>lr_LeaderURL = ''http://b:3210'', lr_Seq = 1, lr_Epoch = 9\<rparr>"
  have "usableURL sampleParse (lr_LeaderURL ?lr)" "lr_Epoch ?lr \<noteq> lastEpoch sampleResolved"
    by (simp_all add: sampleTracker_defs)
  from foreign_epoch_needs_poll [OF this] show ?thesis by simp
qed

text \<open>An answer of bigbrain that says something about the leader.\<close>

definition authoritative :: "'e + int \<times> string \<Rightarrow> (string \<Rightarrow> leaderResponse option) \<Rightarrow> bool" where
  "authoritative ans decode =
     (case ans of
        Inl _ \<Rightarrow> False
      | Inr (code, body) \<Rightarrow> (code = 200 \<or> code = 503) \<and>
          (case decode (take bodyReadLimit body) of
             None \<Rightarrow> False | Some lr \<Rightarrow> code = 503 \<longrightarrow> lr_Epoch lr \<noteq> 0))"

lemma query_authoritative:
  "queryBigbrain http decode t \<noteq> None \<longleftrightarrow> authoritative (http (leaderURLof t)) decode"
  by (auto simp: queryBigbrain_def authoritative_def split: sum.splits option.splits)

text \<open>
  Only an authoritative answer changes what a poll leaves behind: a transport error, any
  status but 200 and 503, an undecodable body, and a 503 without an epoch leave the leader and
  the version untouched and do not resolve the deployment; a 503 with an epoch resolves it but
  never installs a leader.
\<close>

theorem poll_needs_authority:
  fixes http :: "string \<Rightarrow> 'e + int \<times> string"
  shows "(let t' = resolveOnce parse http decode t canceled; ans = http (leaderURLof t) in
    resolved t' = (resolved t \<or> authoritative ans decode)
    \<and> (\<not> authoritative ans decode \<longrightarrow> curURL t' = curURL t \<and> proxy t' = proxy t
         \<and> lastAppliedSeq t' = lastAppliedSeq t \<and> lastEpoch t' = lastEpoch t)
    \<and> ((\<exists>body. ans = Inr (503, body)) \<longrightarrow> curURL t' \<in> {curURL t, ''''}))"
proof (cases "queryBigbrain http decode t")
  case None
  then have "\<not> authoritative (http (leaderURLof t)) decode"
    using query_authoritative [of http decode t] by simp
  then show ?thesis using None by (simp add: resolveOnce_def Let_def)
next
  case (Some lr)
  then have "authoritative (http (leaderURLof t)) decode"
    using query_authoritative [of http decode t] by simp
  moreover have "lr_LeaderURL lr = ''''" if "http (leaderURLof t) = Inr (503, body)" for body
    using that Some by (auto simp: queryBigbrain_def split: option.splits if_splits)
  ultimately show ?thesis
    using Some by (auto simp: resolveOnce_def Let_def applyLeader_usable applyParsed_def)
qed

theorem poll_needs_authority_witness:
  "curURL (resolveOnce sampleParse (\<lambda>_. Inr (502, ''bad gateway'') :: string + int \<times> string)
      (\<lambda>_. None) sampleResolved False) = ''http://a:3210''"
  using poll_needs_authority [of sampleParse "\<lambda>_. Inr (502, ''bad gateway'') :: string + int \<times> string"
      "\<lambda>_. None" sampleResolved False]
  by (simp add: Let_def authoritative_def) (simp add: sampleTracker_defs)

section \<open>Reconnecting\<close>

lemma streamPauses_bounds:
  "streamBackoffInitial \<le> b \<Longrightarrow> b \<le> streamBackoffCap \<Longrightarrow>
     list_all (\<lambda>p. streamBackoffInitial \<le> p \<and> p \<le> streamBackoffCap) (streamPauses b hs)"
  by (induction hs arbitrary: b)
    (auto simp: streamPause_def streamBackoff_def streamBackoffInitial_def streamBackoffCap_def second_def Let_def)

lemma double_capped:
  fixes b c :: int
  assumes "0 < b" "0 \<le> c"
  shows "min (min (b * 2) c * 2 ^ j) c = min (b * 2 ^ Suc j) c"
proof (cases "b * 2 \<le> c")
  case True
  then show ?thesis by (simp add: min_def mult.assoc)
next
  case False
  have one: "(1 :: int) \<le> 2 ^ j" by simp
  have "b * 2 \<le> b * 2 * 2 ^ j" using mult_left_mono [OF one, of "b * 2"] assms by simp
  then have "c \<le> b * 2 ^ Suc j" using False by (simp add: mult.assoc)
  moreover have "c \<le> c * 2 ^ j" using mult_left_mono [OF one assms(2)] by simp
  ultimately show ?thesis using False assms by (auto simp: min_def)
qed

lemma streamPauses_failing:
  "0 < b \<Longrightarrow> b \<le> streamBackoffCap \<Longrightarrow> i < n \<Longrightarrow>
     streamPauses b (replicate n False) ! i = min (b * 2 ^ i) streamBackoffCap"
proof (induction n arbitrary: b i)
  case (Suc n)
  show ?case
  proof (cases i)
    case 0
    then show ?thesis using Suc.prems by (simp add: streamPause_def)
  next
    case (Suc j)
    let ?b = "streamBackoff b False"
    have b: "0 < ?b" "?b \<le> streamBackoffCap" "?b = min (b * 2) streamBackoffCap"
      using Suc.prems(1,2) by (auto simp: streamBackoff_def streamPause_def Let_def)
    have "min (?b * 2 ^ j) streamBackoffCap = min (b * 2 ^ Suc j) streamBackoffCap"
      using double_capped [of b streamBackoffCap j] Suc.prems(1,2) b(3) by simp
    then show ?thesis using Suc.IH [OF b(1,2), of j] Suc Suc.prems(3) by simp
  qed
qed simp

text \<open>
  Reconnecting to the stream backs off: every pause lies between one and fifteen seconds;
  after a healthy attempt, or at the start, the pause before the \<open>i\<close>-th of a series of
  unhealthy attempts is \<open>2 ^ i\<close> seconds, capped at fifteen.
\<close>

theorem stream_backoff_bounds:
  "list_all (\<lambda>p. second \<le> p \<and> p \<le> 15 * second) (streamPauses streamBackoffInitial hs)
   \<and> (\<forall>i < n. streamPauses streamBackoffInitial (replicate n False) ! i = min (second * 2 ^ i) (15 * second))
   \<and> streamPauses streamBackoffInitial (hs @ True # replicate n False) =
       streamPauses streamBackoffInitial hs @ second # streamPauses (2 * second) (replicate n False)"
proof -
  have b: "second \<le> streamBackoffCap" "(0 :: int) < second"
    by (simp_all add: streamBackoffCap_def second_def)
  have "streamPauses b (hs @ True # replicate n False) =
      streamPauses b hs @ second # streamPauses (2 * second) (replicate n False)" for b
    by (induction hs arbitrary: b)
      (simp_all add: streamPause_def streamBackoff_def streamBackoffInitial_def streamBackoffCap_def
        second_def Let_def)
  moreover have "list_all (\<lambda>p. second \<le> p \<and> p \<le> 15 * second) (streamPauses streamBackoffInitial hs)"
    using streamPauses_bounds [of streamBackoffInitial hs] b
    by (simp add: streamBackoffInitial_def streamBackoffCap_def)
  moreover have "\<forall>i < n. streamPauses streamBackoffInitial (replicate n False) ! i
      = min (second * 2 ^ i) (15 * second)"
    using streamPauses_failing [of second _ n] b
    by (simp add: streamBackoffInitial_def streamBackoffCap_def)
  ultimately show ?thesis by blast
qed

theorem stream_backoff_bounds_witness:
  "streamPauses streamBackoffInitial (replicate 6 False) ! 4 = 15 * second"
  using stream_backoff_bounds [of "[]" 6] by (simp add: second_def)

section \<open>Nudges are coalesced\<close>

text \<open>The instants at which a series of nudges (two clock readings each) woke the resolve loop.\<close>

fun nudgeWakes :: "tracker \<Rightarrow> (instant \<times> instant) list \<Rightarrow> instant list" where
  "nudgeWakes t [] = []"
| "nudgeWakes t ((a, b) # ns) =
     (if a < nextResolve t then nudgeWakes (nudgeResolve t a b) ns
      else b # nudgeWakes (nudgeResolve t a b) ns)"

lemma nudgeWakes_after:
  "list_all (\<lambda>(a, b). a \<le> b) ns \<Longrightarrow> \<forall>w \<in> set (nudgeWakes t ns). nextResolve t \<le> w"
proof (induction ns arbitrary: t)
  case (Cons n ns)
  obtain a b where n: "n = (a, b)" by (cases n)
  have IH: "\<forall>w \<in> set (nudgeWakes u ns). nextResolve u \<le> w" for u using Cons by simp
  show ?case
  proof (cases "a < nextResolve t")
    case True
    then show ?thesis using IH [of "nudgeResolve t a b"] by (simp add: n nudgeResolve_def)
  next
    case False
    have "nextResolve t \<le> b" "nextResolve t \<le> nextResolve (nudgeResolve t a b)"
      using False Cons.prems by (auto simp: n nudgeResolve_def wakeResolve_def nudgeCoalesceInterval_def second_def)
    then show ?thesis using IH [of "nudgeResolve t a b"] False by (auto simp: n)
  qed
qed simp

text \<open>
  Nudges are coalesced: however many requests fail, the wake-ups they cause are at least
  one second apart, and every wake-up leaves a resolve pending.
\<close>

theorem nudges_coalesced:
  assumes "list_all (\<lambda>(a, b). a \<le> b) ns"
  shows "sorted_wrt (\<lambda>v w. v + second \<le> w) (nudgeWakes t ns)
    \<and> (\<not> a < nextResolve t \<longrightarrow> resolvePending (nudgeResolve t a b))"
proof -
  have "sorted_wrt (\<lambda>v w. v + second \<le> w) (nudgeWakes t ns)" using assms
  proof (induction ns arbitrary: t)
    case (Cons n ns)
    obtain x y where n: "n = (x, y)" by (cases n)
    have "nextResolve (nudgeResolve t x y) = y + second" if "\<not> x < nextResolve t"
      using that by (simp add: nudgeResolve_def wakeResolve_def nudgeCoalesceInterval_def)
    then show ?case
      using Cons nudgeWakes_after [of ns "nudgeResolve t x y"] by (auto simp: n)
  qed simp
  then show ?thesis by (simp add: nudgeResolve_def wakeResolve_def)
qed

theorem nudges_coalesced_witness:
  "nudgeWakes sampleTracker [(5, 5), (6, 7), (5 + second, 5 + second)] = [5, 5 + second]
   \<and> sorted_wrt (\<lambda>v w. v + second \<le> w) (nudgeWakes sampleTracker [(5, 5), (6, 7), (5 + second, 5 + second)])"
proof -
  have "nudgeWakes sampleTracker [(5, 5), (6, 7), (5 + second, 5 + second)] = [5, 5 + second]"
    by (simp add: sampleTracker_def newTracker_def nudgeResolve_def wakeResolve_def
        nudgeCoalesceInterval_def second_def zero_time_def)
  moreover have "list_all (\<lambda>(a, b). a \<le> b) [(5, 5), (6, 7), (5 + second, 5 + second)]" by simp
  ultimately show ?thesis using nudges_coalesced by blast
qed

end
