(* ===== verification/Json.thy ===== *)
theory Json
  imports GoStd
begin

text \<open>
  JSON as the code sees it through \<open>encoding/json\<close>: values decoded into \<open>any\<close> with
  \<open>UseNumber\<close> (a number keeps its literal), and the text \<open>json.Marshal\<close> writes, with its
  escapes (HTML characters, line separators, invalid UTF-8).
\<close>

datatype json =
    JNull
  | JBool bool
  | JNum string
  | JStr string
  | JArr "json list"
  | JObj "(string \<times> json) list"

section \<open>UTF-8\<close>

text \<open>\<open>between lo hi s\<close>: the first byte of \<open>s\<close> lies in the range.\<close>

definition between :: "nat \<Rightarrow> nat \<Rightarrow> string \<Rightarrow> bool" where
  "between lo hi s =
     (case s of [] \<Rightarrow> False | c # _ \<Rightarrow> lo \<le> (of_char c :: nat) \<and> (of_char c :: nat) \<le> hi)"

abbreviation cont :: "string \<Rightarrow> bool" where "cont \<equiv> between 128 191"

text \<open>The length of the encoded rune at the start of a string; 0 when there is none.\<close>

definition runeLen :: "string \<Rightarrow> nat" where
  "runeLen s =
     (if between 0 127 s then 1
      else if between 194 223 s then (if cont (drop 1 s) then 2 else 0)
      else if between 224 239 s then
        (if between (if between 224 224 s then 160 else 128) (if between 237 237 s then 159 else 191) (drop 1 s)
            \<and> cont (drop 2 s) then 3 else 0)
      else if between 240 244 s then
        (if between (if between 240 240 s then 144 else 128) (if between 244 244 s then 143 else 191) (drop 1 s)
            \<and> cont (drop 2 s) \<and> cont (drop 3 s) then 4 else 0)
      else 0)"

section \<open>Strings\<close>

definition hexDigit :: "nat \<Rightarrow> char" where
  "hexDigit n = char_of (if n < 10 then 48 + n else 87 + n)"

definition backslash :: char where "backslash = CHR 0x5C"
definition quote :: char where "quote = CHR 0x22"

definition escapeByte :: "char \<Rightarrow> string" where
  "escapeByte c =
     (let b = (of_char c :: nat) in
      if c = quote \<or> c = backslash then [backslash, c]
      else if b = 8 then [backslash, CHR ''b'']
      else if b = 12 then [backslash, CHR ''f'']
      else if b = 10 then [backslash, CHR ''n'']
      else if b = 13 then [backslash, CHR ''r'']
      else if b = 9 then [backslash, CHR ''t'']
      else if b < 32 \<or> b = 60 \<or> b = 62 \<or> b = 38
      then [backslash, CHR ''u'', CHR ''0'', CHR ''0'', hexDigit (b div 16), hexDigit (b mod 16)]
      else [c])"

definition lineSep :: string where "lineSep = [CHR 0xE2, CHR 0x80, CHR 0xA8]"
definition parSep :: string where "parSep = [CHR 0xE2, CHR 0x80, CHR 0xA9]"

function escape :: "string \<Rightarrow> string" where
  "escape s =
     (case s of
        [] \<Rightarrow> []
      | c # cs \<Rightarrow>
          if (of_char c :: nat) < 128 then escapeByte c @ escape cs
          else if runeLen s = 0 then backslash # ''ufffd'' @ escape cs
          else if HasPrefix s lineSep then backslash # ''u2028'' @ escape (drop 3 s)
          else if HasPrefix s parSep then backslash # ''u2029'' @ escape (drop 3 s)
          else take (runeLen s) s @ escape (drop (runeLen s) s))"
  by pat_completeness auto
termination by (relation "measure length") auto

declare escape.simps [simp del]

section \<open>Values\<close>

definition quoted :: "string \<Rightarrow> string" where
  "quoted s = quote # escape s @ [quote]"

fun encodeJson :: "json \<Rightarrow> string" where
  "encodeJson JNull = ''null''"
| "encodeJson (JBool b) = (if b then ''true'' else ''false'')"
| "encodeJson (JNum n) = n"
| "encodeJson (JStr s) = quoted s"
| "encodeJson (JArr xs) = CHR ''['' # joinWith (CHR '','') (map encodeJson xs) @ '']''"
| "encodeJson (JObj kvs) =
     CHR ''{'' # joinWith (CHR '','') (map (\<lambda>(k, v). quoted k @ CHR '':'' # encodeJson v) kvs) @ ''}''"

text \<open>A Go map is written with its keys in ascending order, an \<open>int\<close> in decimal.\<close>

definition jsonMap :: "(string \<times> json) list \<Rightarrow> json" where
  "jsonMap kvs = JObj (sort_key fst kvs)"

definition jsonInt :: "int \<Rightarrow> json" where "jsonInt n = JNum (FormatInt n)"

section \<open>Facts\<close>

text \<open>An encoded string holds no raw control character, so no line break.\<close>

lemma escapeByte_printable:
  "d \<in> set (escapeByte c) \<Longrightarrow> (of_char c :: nat) < 128 \<Longrightarrow> 32 \<le> (of_char d :: nat)"
  by (auto simp: escapeByte_def Let_def quote_def backslash_def hexDigit_def split: if_splits)

lemma escape_Nil [simp]: "escape [] = []"
  by (simp add: escape.simps)

lemma escape_ascii [simp]: "(of_char c :: nat) < 128 \<Longrightarrow> escape (c # cs) = escapeByte c @ escape cs"
  by (subst escape.simps) simp

lemma escape_high:
  "128 \<le> (of_char c :: nat) \<Longrightarrow> escape (c # cs) =
     (let s = c # cs in
      if runeLen s = 0 then backslash # ''ufffd'' @ escape cs
      else if HasPrefix s lineSep then backslash # ''u2028'' @ escape (drop 3 s)
      else if HasPrefix s parSep then backslash # ''u2029'' @ escape (drop 3 s)
      else take (runeLen s) s @ escape (drop (runeLen s) s))"
  by (subst escape.simps) (simp add: Let_def)

lemma between_cont: "between lo hi s \<Longrightarrow> 128 \<le> lo \<Longrightarrow> hi \<le> 191 \<Longrightarrow> cont s"
  by (cases s) (auto simp: between_def)

lemma runeLen_cases:
  assumes "\<not> between 0 127 s"
  shows "runeLen s = 0 \<or> runeLen s = 2 \<and> cont (drop 1 s)
    \<or> runeLen s = 3 \<and> cont (drop 1 s) \<and> cont (drop 2 s)
    \<or> runeLen s = 4 \<and> cont (drop 1 s) \<and> cont (drop 2 s) \<and> cont (drop 3 s)"
proof -

  show ?thesis
  proof (cases "between 194 223 s")
    case True
    then show ?thesis using assms by (simp add: runeLen_def)
  next
    case two: False
    show ?thesis
    proof (cases "between 224 239 s")
      case True
      then show ?thesis using assms two by (auto simp: runeLen_def intro: between_cont split: if_splits)
    next
      case three: False
      then show ?thesis using assms two by (auto simp: runeLen_def intro: between_cont split: if_splits)
    qed
  qed
qed

lemma cont_hd: "cont s \<Longrightarrow> \<exists>c cs. s = c # cs \<and> 128 \<le> (of_char c :: nat)"
  by (cases s) (auto simp: between_def)

lemma runeLen_bytes:
  assumes "128 \<le> (of_char c :: nat)"
  shows "\<forall>d \<in> set (take (runeLen (c # cs)) (c # cs)). 128 \<le> (of_char d :: nat)"
proof -
  have "\<not> between 0 127 (c # cs)" using assms by (simp add: between_def)
  from runeLen_cases [OF this] consider "runeLen (c # cs) = 0" | "runeLen (c # cs) = 2" "cont cs"
    | "runeLen (c # cs) = 3" "cont cs" "cont (drop 1 cs)"
    | "runeLen (c # cs) = 4" "cont cs" "cont (drop 1 cs)" "cont (drop 2 cs)"
    by (auto simp: numeral_eq_Suc)
  then show ?thesis
  proof cases
    case 1
    then show ?thesis by simp
  next
    case 2
    then show ?thesis using cont_hd [OF 2(2)] assms by auto
  next
    case 3
    then show ?thesis using cont_hd [OF 3(2)] cont_hd [OF 3(3)] assms by auto
  next
    case 4
    then show ?thesis using cont_hd [OF 4(2)] cont_hd [OF 4(3)] cont_hd [OF 4(4)] assms
      by (auto simp: numeral_eq_Suc)
  qed
qed

lemma escape_printable: "d \<in> set (escape s) \<Longrightarrow> 32 \<le> (of_char d :: nat)"
proof (induction s rule: escape.induct)
  case (1 s)
  show ?case
  proof (cases s)
    case Nil
    then show ?thesis using "1.prems" by simp
  next
    case (Cons c cs)
    have sep: "\<forall>x \<in> set (backslash # ''ufffd'') \<union> set (backslash # ''u2028'') \<union> set (backslash # ''u2029'').
        32 \<le> (of_char x :: nat)" by (simp add: backslash_def)
    show ?thesis
    proof (cases "(of_char c :: nat) < 128")
      case True
      then have "d \<in> set (escapeByte c) \<or> d \<in> set (escape cs)" using "1.prems" Cons by simp
      then show ?thesis using escapeByte_printable [OF _ True] 1(1) [OF Cons True] by blast
    next
      case False
      have rest: "d \<in> set (escape cs) \<Longrightarrow> ?thesis" if "runeLen s = 0" using 1(2) [OF Cons False that] by blast
      have rest3: "d \<in> set (escape (drop 3 s)) \<Longrightarrow> ?thesis"
        if "runeLen s \<noteq> 0" "HasPrefix s lineSep \<or> HasPrefix s parSep"
        using 1(3,4) [OF Cons False that(1)] that(2) by blast
      have other: "d \<in> set (escape (drop (runeLen s) s)) \<Longrightarrow> ?thesis"
        if "runeLen s \<noteq> 0" "\<not> HasPrefix s lineSep" "\<not> HasPrefix s parSep"
        using 1(5) [OF Cons False that] by blast
      have hi: "128 \<le> (of_char c :: nat)" using False by simp
      show ?thesis
        using "1.prems" sep rest rest3 other runeLen_bytes [OF hi, of cs]
        unfolding Cons escape_high [OF hi] Let_def by (fastforce split: if_splits)
    qed
  qed
qed

end

