(* ===== verification/GoFloat.thy ===== *)
theory GoFloat
  imports Prelude Complex_Main "HOL-Library.Log_Nat"
begin

text \<open>
  The float64 arithmetic the code uses. A finite float64 is the rational number it denotes; an
  operation is the exact operation followed by rounding to nearest, ties to even, with 53 bits
  of precision and the smallest exponent of the format. Infinities arise from magnitudes the
  code cannot reach from its inputs or are handled where they are read; the sign of a zero is
  not kept.
\<close>

definition pow2 :: "int \<Rightarrow> rat" where
  "pow2 e = 2 powi e"

definition roundHalfEven :: "rat \<Rightarrow> int" where
  "roundHalfEven q =
     (let f = \<lfloor>q\<rfloor>; r = q - of_int f in
      if r < 1 / 2 then f else if r > 1 / 2 then f + 1 else if even f then f else f + 1)"

text \<open>
  The exponent of the last place of a positive number: \<open>x / 2 ^ e\<close> has 53 bits before the point
  (or fewer at the smallest exponent).
\<close>

definition bitlen :: "int \<Rightarrow> int" where "bitlen n = int (floorlog 2 (nat n))"

definition ulpExp :: "rat \<Rightarrow> int" where
  "ulpExp x =
     (case quotient_of x of (n, d) \<Rightarrow>
        (let e = bitlen n - bitlen d - 53;
             e' = (if x / pow2 e \<ge> 2 ^ 53 then e + 1 else e)
         in max e' (- 1074)))"

definition roundPos :: "rat \<Rightarrow> rat" where
  "roundPos x = (let e = ulpExp x in of_int (roundHalfEven (x / pow2 e)) * pow2 e)"

definition roundF64 :: "rat \<Rightarrow> rat" where
  "roundF64 x = (if x = 0 then 0 else if x > 0 then roundPos x else - roundPos (- x))"

definition fmul :: "rat \<Rightarrow> rat \<Rightarrow> rat" where "fmul x y = roundF64 (x * y)"
definition fdiv :: "rat \<Rightarrow> rat \<Rightarrow> rat" where "fdiv x y = roundF64 (x / y)"
definition float64 :: "int \<Rightarrow> rat" where "float64 n = roundF64 (of_int n)"

text \<open>
  \<open>int64(f)\<close> truncates; for a value outside of the range Go leaves the result to the
  implementation, here the one of amd64.
\<close>

definition truncInt64 :: "rat \<Rightarrow> int" where
  "truncInt64 x =
     (let n = (if x < 0 then \<lceil>x\<rceil> else \<lfloor>x\<rfloor>) in
      if min_int64 \<le> n \<and> n \<le> max_int64 then n else min_int64)"

section \<open>Bounds of the rounding\<close>

lemma pow2_pos [simp]: "0 < pow2 e"
  by (simp add: pow2_def)

lemma roundHalfEven_le: "q \<le> of_int n \<Longrightarrow> roundHalfEven q \<le> n"
proof -
  assume q: "q \<le> of_int n"
  show ?thesis
  proof (cases "q = of_int \<lfloor>q\<rfloor>")
    case True
    then have "roundHalfEven q = \<lfloor>q\<rfloor>" by (simp add: roundHalfEven_def Let_def)
    then show ?thesis using q by (simp add: floor_le_iff)
  next
    case False
    then have "of_int \<lfloor>q\<rfloor> < q" using of_int_floor_le [of q] by linarith
    then have "\<lfloor>q\<rfloor> < n" using q by linarith
    then show ?thesis by (auto simp: roundHalfEven_def Let_def)
  qed
qed

lemma roundHalfEven_ge: "of_int n \<le> q \<Longrightarrow> n \<le> roundHalfEven q"
proof -
  assume "of_int n \<le> q"
  then have "n \<le> \<lfloor>q\<rfloor>" by (simp add: le_floor_iff)
  then show ?thesis by (auto simp: roundHalfEven_def Let_def)
qed

lemma roundPos_nonneg: "0 \<le> x \<Longrightarrow> 0 \<le> roundPos x"
proof -
  assume "0 \<le> x"
  then have "of_int 0 \<le> x / pow2 (ulpExp x)" by (simp add: less_imp_le)
  from roundHalfEven_ge [OF this] show ?thesis
    by (simp add: roundPos_def Let_def less_imp_le)
qed

lemma roundF64_nonneg: "0 \<le> x \<Longrightarrow> 0 \<le> roundF64 x"
  using roundPos_nonneg [of x] by (simp add: roundF64_def)

text \<open>Below \<open>2 ^ 53\<close> the last place is at most one, so rounding does not pass an integer.\<close>

lemma bitlen_bounds:
  assumes "0 < n"
  shows "(2 :: rat) ^ nat (bitlen n) / 2 \<le> of_int n \<and> (of_int n :: rat) < 2 ^ nat (bitlen n)"
proof -
  have n: "nat n \<noteq> 0" using assms by simp
  have u: "nat n < 2 ^ floorlog 2 (nat n)" using floorlog_bounds [of "nat n" 2] assms by simp
  have l: "2 ^ (floorlog 2 (nat n) - 1) \<le> nat n" using floorlog_bounds [of "nat n" 2] assms by simp
  have p: "0 < floorlog 2 (nat n)" using assms by (simp add: floorlog_def)
  have "(of_nat (nat n) :: rat) < of_nat (2 ^ floorlog 2 (nat n))" using u by (simp only: of_nat_less_iff)
  moreover have "(of_nat (2 ^ (floorlog 2 (nat n) - 1)) :: rat) \<le> of_nat (nat n)" using l by (simp only: of_nat_le_iff)
  moreover have "(2 :: rat) ^ floorlog 2 (nat n) = 2 * 2 ^ (floorlog 2 (nat n) - 1)"
    using p by (metis Suc_diff_1 power_Suc)
  ultimately show ?thesis using assms by (simp add: bitlen_def)
qed

lemma pow2_add: "pow2 (a + b) = pow2 a * pow2 b"
  by (simp add: pow2_def power_int_add)

lemma pow2_nat: "0 \<le> b \<Longrightarrow> pow2 b = 2 ^ nat b"
  by (simp add: pow2_def power_int_def)

lemma ulpExp_lower:
  assumes "0 < x" "0 < ulpExp x"
  shows "2 ^ 52 * pow2 (ulpExp x) \<le> x"
proof -
  obtain n d where nd: "quotient_of x = (n, d)" by (cases "quotient_of x")
  have d: "0 < d" using quotient_of_denom_pos [OF nd] .
  have x: "x = of_int n / of_int d" using quotient_of_div [OF nd] .
  have n: "0 < n" using assms(1) d unfolding x by (simp add: zero_less_divide_iff)
  have b: "0 \<le> bitlen n" "0 \<le> bitlen d" by (simp_all add: bitlen_def)
  have "pow2 (bitlen n) / 2 \<le> of_int n" "of_int d \<le> pow2 (bitlen d)"
    using bitlen_bounds [OF n] bitlen_bounds [OF d] b by (simp_all add: pow2_nat)
  then have "pow2 (bitlen n) / 2 / pow2 (bitlen d) \<le> x"
    unfolding x using d n by (intro frac_le) (simp_all add: less_imp_le)
  moreover have "pow2 (bitlen n) = pow2 (bitlen n - bitlen d - 53) * pow2 (bitlen d) * 2 ^ 53"
    using pow2_add [of "bitlen n - bitlen d - 53" "bitlen d + 53"] pow2_add [of "bitlen d" 53]
    by (simp add: pow2_nat mult.assoc)
  ultimately have low: "2 ^ 52 * pow2 (bitlen n - bitlen d - 53) \<le> x"
    by (simp add: less_imp_neq [THEN not_sym] pow2_def mult.commute)
  show ?thesis
  proof (cases "x / pow2 (bitlen n - bitlen d - 53) \<ge> 2 ^ 53")
    case True
    then have "2 ^ 53 * pow2 (bitlen n - bitlen d - 53) \<le> x" by (simp add: pos_le_divide_eq)
    then show ?thesis
      using assms(2) nd True pow2_add [of "bitlen n - bitlen d - 53" 1]
      by (simp add: ulpExp_def Let_def pow2_nat algebra_simps max_def split: if_splits)
  next
    case False
    then show ?thesis
      using assms(2) nd low by (simp add: ulpExp_def Let_def max_def split: if_splits)
  qed
qed

lemma roundPos_le:
  assumes "0 < x" "x \<le> of_int n" "n \<le> 2 ^ 53"
  shows "roundPos x \<le> of_int n"
proof (cases "ulpExp x \<le> 0")
  case True
  have e: "pow2 (- ulpExp x) * pow2 (ulpExp x) = 1" using pow2_add [of "- ulpExp x" "ulpExp x"]
    by (simp add: pow2_def)
  define k :: int where "k = n * 2 ^ nat (- ulpExp x)"
  have k: "of_int k = of_int n * pow2 (- ulpExp x)" using True by (simp add: k_def pow2_nat)
  have "of_int k * pow2 (ulpExp x) = of_int n" using e by (simp add: k mult.assoc)
  then have "x / pow2 (ulpExp x) \<le> of_int k" using assms(2) by (simp add: pos_divide_le_eq)
  then have "roundHalfEven (x / pow2 (ulpExp x)) \<le> k" by (rule roundHalfEven_le)
  then have "of_int (roundHalfEven (x / pow2 (ulpExp x))) * pow2 (ulpExp x) \<le> of_int k * pow2 (ulpExp x)"
    by (intro mult_right_mono) (simp_all add: less_imp_le)
  then show ?thesis using \<open>of_int k * pow2 (ulpExp x) = of_int n\<close> by (simp add: roundPos_def Let_def)
next
  case False
  then have low: "2 ^ 52 * pow2 (ulpExp x) \<le> x" using ulpExp_lower [OF assms(1)] by simp
  have "(of_int n :: rat) \<le> of_int (2 ^ 53)" using assms(3) by (simp only: of_int_le_iff)
  then have n53: "x \<le> 2 ^ 53" using assms(2) by simp
  have one: "ulpExp x = 1"
  proof (rule ccontr)
    assume "ulpExp x \<noteq> 1"
    then have "(2 :: rat) ^ 2 \<le> 2 ^ nat (ulpExp x)" using False by (intro power_increasing) auto
    then have "4 \<le> pow2 (ulpExp x)" using False by (simp add: pow2_nat)
    then show False using n53 low by simp
  qed
  then have "x = 2 ^ 53" using low n53 by (simp add: pow2_def)
  then have "roundPos x = 2 ^ 53" using one by (simp add: roundPos_def pow2_def roundHalfEven_def Let_def)
  then show ?thesis using \<open>x = 2 ^ 53\<close> assms(2) by simp
qed

lemma roundF64_le: "0 \<le> x \<Longrightarrow> x \<le> of_int n \<Longrightarrow> n \<le> 2 ^ 53 \<Longrightarrow> roundF64 x \<le> of_int n"
  using roundPos_le [of x n] by (cases "x = 0") (simp_all add: roundF64_def)

text \<open>Nor does rounding pass an integer on the way down.\<close>

lemma roundPos_ge:
  assumes "0 < x" "of_int n \<le> x" "n \<le> 2 ^ 53"
  shows "of_int n \<le> roundPos x"
proof (cases "ulpExp x \<le> 0")
  case True
  have e: "pow2 (- ulpExp x) * pow2 (ulpExp x) = 1" using pow2_add [of "- ulpExp x" "ulpExp x"]
    by (simp add: pow2_def)
  define k :: int where "k = n * 2 ^ nat (- ulpExp x)"
  have k: "of_int k = of_int n * pow2 (- ulpExp x)" using True by (simp add: k_def pow2_nat)
  have kn: "of_int k * pow2 (ulpExp x) = of_int n" using e by (simp add: k mult.assoc)
  then have "of_int k \<le> x / pow2 (ulpExp x)" using assms(2) by (simp add: pos_le_divide_eq)
  then have "k \<le> roundHalfEven (x / pow2 (ulpExp x))" by (rule roundHalfEven_ge)
  then have "of_int k * pow2 (ulpExp x) \<le> of_int (roundHalfEven (x / pow2 (ulpExp x))) * pow2 (ulpExp x)"
    by (intro mult_right_mono) (simp_all add: less_imp_le)
  then show ?thesis using kn by (simp add: roundPos_def Let_def)
next
  case False
  then have "2 ^ 52 * pow2 (ulpExp x) \<le> x" using ulpExp_lower [OF assms(1)] by simp
  then have "of_int (2 ^ 52) \<le> x / pow2 (ulpExp x)" by (simp add: pos_le_divide_eq)
  then have r: "2 ^ 52 \<le> roundHalfEven (x / pow2 (ulpExp x))" by (rule roundHalfEven_ge)
  have "(2 :: rat) ^ 1 \<le> 2 ^ nat (ulpExp x)" using False by (intro power_increasing) auto
  then have two: "2 \<le> pow2 (ulpExp x)" using False by (simp add: pow2_nat)
  have "(of_int (2 ^ 52) :: rat) \<le> of_int (roundHalfEven (x / pow2 (ulpExp x)))" using r by (simp only: of_int_le_iff)
  then have "(2 ^ 52 :: rat) * 2 \<le> roundPos x"
    unfolding roundPos_def Let_def using two by (intro mult_mono) simp_all
  moreover have "(of_int n :: rat) \<le> of_int (2 ^ 53)" using assms(3) by (simp only: of_int_le_iff)
  ultimately show ?thesis by simp
qed

lemma roundF64_ge: "0 \<le> x \<Longrightarrow> of_int n \<le> x \<Longrightarrow> n \<le> 2 ^ 53 \<Longrightarrow> of_int n \<le> roundF64 x"
  using roundPos_ge [of x n] by (cases "x = 0") (simp_all add: roundF64_def)

text \<open>Small integers are float64 values.\<close>

lemma roundF64_int: "0 \<le> n \<Longrightarrow> n \<le> 2 ^ 53 \<Longrightarrow> roundF64 (of_int n) = of_int n"
  using roundF64_le [of "of_int n" n] roundF64_ge [of "of_int n" n] by simp

end
