(* ===== verification/JsonDecode.thy ===== *)
theory JsonDecode
  imports Json GoFloat "HOL-Library.Monad_Syntax"
begin

text \<open>
  Decoding JSON the way \<open>encoding/json\<close> does: the grammar with its limit on nesting, string
  escapes with surrogate pairs and the replacement of invalid UTF-8, fields of a struct matched
  by folded names, \<open>null\<close> leaving a field as it is, later duplicates winning. The parser spends
  one unit of fuel per call; more than twice the length of the input never changes its result.
\<close>

section \<open>Tokens\<close>

definition jsonSpace :: "char \<Rightarrow> bool" where
  "jsonSpace c = (c = CHR '' '' \<or> c = CHR 0x09 \<or> c = CHR 0x0A \<or> c = CHR 0x0D)"

definition skip :: "string \<Rightarrow> string" where "skip s = dropWhile jsonSpace s"

text \<open>The next byte after white space, when it is the one expected.\<close>

definition expect :: "char \<Rightarrow> string \<Rightarrow> string option" where
  "expect c s = (case skip s of [] \<Rightarrow> None | d # r \<Rightarrow> if d = c then Some r else None)"

definition digitRun :: "string \<Rightarrow> (string \<times> string) option" where
  "digitRun s = (let ds = takeWhile isDigit s in if ds = [] then None else Some (ds, drop (length ds) s))"

definition pInt :: "string \<Rightarrow> (string \<times> string) option" where
  "pInt s = (case s of [] \<Rightarrow> None | c # r \<Rightarrow> if c = CHR ''0'' then Some ([c], r) else digitRun s)"

definition pFrac :: "string \<Rightarrow> (string \<times> string) option" where
  "pFrac s = (case s of [] \<Rightarrow> Some ([], [])
     | c # r \<Rightarrow> if c = CHR ''.'' then map_option (\<lambda>(ds, r'). (c # ds, r')) (digitRun r) else Some ([], s))"

definition pExpSign :: "string \<Rightarrow> string \<times> string" where
  "pExpSign s = (case s of [] \<Rightarrow> ([], [])
     | c # r \<Rightarrow> if c = CHR ''+'' \<or> c = CHR ''-'' then ([c], r) else ([], s))"

definition pExp :: "string \<Rightarrow> (string \<times> string) option" where
  "pExp s = (case s of [] \<Rightarrow> Some ([], [])
     | c # r \<Rightarrow>
         if c = CHR ''e'' \<or> c = CHR ''E''
         then (case pExpSign r of (sg, r1) \<Rightarrow> map_option (\<lambda>(ds, r'). (c # sg @ ds, r')) (digitRun r1))
         else Some ([], s))"

definition pMinus :: "string \<Rightarrow> string \<times> string" where
  "pMinus s = (case s of [] \<Rightarrow> ([], []) | c # r \<Rightarrow> if c = CHR ''-'' then ([c], r) else ([], s))"

text \<open>A number keeps its literal.\<close>

definition pNumber :: "string \<Rightarrow> (string \<times> string) option" where
  "pNumber s = do {
     let (sg, s0) = pMinus s;
     (i, s1) \<leftarrow> pInt s0;
     (f, s2) \<leftarrow> pFrac s1;
     (e, s3) \<leftarrow> pExp s2;
     Some (sg @ i @ f @ e, s3)
   }"

section \<open>Strings\<close>

definition hexVal :: "char \<Rightarrow> nat option" where
  "hexVal c =
     (let b = (of_char c :: nat) in
      if isDigit c then Some (b - 48)
      else if 97 \<le> b \<and> b \<le> 102 then Some (b - 87)
      else if 65 \<le> b \<and> b \<le> 70 then Some (b - 55)
      else None)"

fun hex4 :: "string \<Rightarrow> nat option" where
  "hex4 (a # b # c # d # r) = do {
     w \<leftarrow> hexVal a; x \<leftarrow> hexVal b; y \<leftarrow> hexVal c; z \<leftarrow> hexVal d;
     Some (4096 * w + 256 * x + 16 * y + z)
   }"
| "hex4 s = None"

definition utf8 :: "nat \<Rightarrow> string" where
  "utf8 n =
     (if n < 128 then [char_of n]
      else if n < 2048 then [char_of (192 + n div 64), char_of (128 + n mod 64)]
      else if n < 65536
      then [char_of (224 + n div 4096), char_of (128 + n div 64 mod 64), char_of (128 + n mod 64)]
      else [char_of (240 + n div 262144), char_of (128 + n div 4096 mod 64),
            char_of (128 + n div 64 mod 64), char_of (128 + n mod 64)])"

definition replacement :: string where "replacement = [CHR 0xEF, CHR 0xBF, CHR 0xBD]"

text \<open>What follows a first half of a surrogate pair: an escaped second half.\<close>

definition lowHalf :: "string \<Rightarrow> nat option" where
  "lowHalf s =
     (case s of a # b # r \<Rightarrow>
        if a = backslash \<and> b = CHR ''u''
        then (case hex4 r of Some n \<Rightarrow> if 0xDC00 \<le> n \<and> n < 0xE000 then Some n else None | None \<Rightarrow> None)
        else None
      | _ \<Rightarrow> None)"

text \<open>The text of an escape, and how many bytes it takes after the backslash.\<close>

definition unescape :: "string \<Rightarrow> (string \<times> nat) option" where
  "unescape s =
     (case s of [] \<Rightarrow> None
      | e # t \<Rightarrow>
          if e = quote \<or> e = backslash \<or> e = CHR ''/'' then Some ([e], 1)
          else if e = CHR ''b'' then Some ([CHR 0x08], 1)
          else if e = CHR ''f'' then Some ([CHR 0x0C], 1)
          else if e = CHR ''n'' then Some ([CHR 0x0A], 1)
          else if e = CHR ''r'' then Some ([CHR 0x0D], 1)
          else if e = CHR ''t'' then Some ([CHR 0x09], 1)
          else if e = CHR ''u'' then
            (case hex4 t of
               None \<Rightarrow> None
             | Some n \<Rightarrow>
                 if 0xD800 \<le> n \<and> n < 0xE000
                 then (case if n < 0xDC00 then lowHalf (drop 4 t) else None of
                         Some m \<Rightarrow> Some (utf8 (0x10000 + 1024 * (n - 0xD800) + (m - 0xDC00)), 11)
                       | None \<Rightarrow> Some (replacement, 5))
                 else Some (utf8 n, 5))
          else None)"

definition before :: "string \<Rightarrow> (string \<times> string) option \<Rightarrow> (string \<times> string) option" where
  "before p x = map_option (\<lambda>(t, r). (p @ t, r)) x"

text \<open>The text of a string after its opening quote, and the input after its closing quote.\<close>

function unquote :: "string \<Rightarrow> (string \<times> string) option" where
  "unquote s =
     (case s of
        [] \<Rightarrow> None
      | c # r \<Rightarrow>
          if c = quote then Some ([], r)
          else if c = backslash
          then (case unescape r of None \<Rightarrow> None | Some (t, n) \<Rightarrow> before t (unquote (drop n r)))
          else if (of_char c :: nat) < 32 then None
          else if (of_char c :: nat) < 128 then before [c] (unquote r)
          else if runeLen s = 0 then before replacement (unquote r)
          else before (take (runeLen s) s) (unquote (drop (runeLen s) s)))"
  by pat_completeness auto
termination by (relation "measure length") auto

declare unquote.simps [simp del]

section \<open>Values\<close>

definition maxNestingDepth :: int where "maxNestingDepth = 10000"

fun pValue :: "nat \<Rightarrow> int \<Rightarrow> string \<Rightarrow> (json \<times> string) option"
  and pElems :: "nat \<Rightarrow> int \<Rightarrow> string \<Rightarrow> (json list \<times> string) option"
  and pMembers :: "nat \<Rightarrow> int \<Rightarrow> string \<Rightarrow> ((string \<times> json) list \<times> string) option" where
  "pValue 0 d s = None"
| "pValue (Suc n) d s =
     (case skip s of
        [] \<Rightarrow> None
      | c # r \<Rightarrow>
          if c = CHR ''{'' then
            (if d \<le> 0 then None
             else (case expect (CHR ''}'') r of
                     Some r' \<Rightarrow> Some (JObj [], r')
                   | None \<Rightarrow> map_option (\<lambda>(kvs, r'). (JObj kvs, r')) (pMembers n (d - 1) r)))
          else if c = CHR ''['' then
            (if d \<le> 0 then None
             else (case expect (CHR '']'') r of
                     Some r' \<Rightarrow> Some (JArr [], r')
                   | None \<Rightarrow> map_option (\<lambda>(vs, r'). (JArr vs, r')) (pElems n (d - 1) r)))
          else if c = quote then map_option (\<lambda>(t, r'). (JStr t, r')) (unquote r)
          else if HasPrefix (c # r) ''true'' then Some (JBool True, drop 3 r)
          else if HasPrefix (c # r) ''false'' then Some (JBool False, drop 4 r)
          else if HasPrefix (c # r) ''null'' then Some (JNull, drop 3 r)
          else map_option (\<lambda>(l, r'). (JNum l, r')) (pNumber (c # r)))"
| "pElems 0 d s = None"
| "pElems (Suc n) d s = do {
     (v, r1) \<leftarrow> pValue n d s;
     (case expect (CHR '','') r1 of
        Some r2 \<Rightarrow> map_option (\<lambda>(vs, r'). (v # vs, r')) (pElems n d r2)
      | None \<Rightarrow> map_option (\<lambda>r'. ([v], r')) (expect (CHR '']'') r1))
   }"
| "pMembers 0 d s = None"
| "pMembers (Suc n) d s = do {
     r0 \<leftarrow> expect quote s;
     (k, r1) \<leftarrow> unquote r0;
     r2 \<leftarrow> expect (CHR '':'') r1;
     (v, r3) \<leftarrow> pValue n d r2;
     (case expect (CHR '','') r3 of
        Some r4 \<Rightarrow> map_option (\<lambda>(kvs, r'). ((k, v) # kvs, r')) (pMembers n d r4)
      | None \<Rightarrow> map_option (\<lambda>r'. ([(k, v)], r')) (expect (CHR ''}'') r3))
   }"

text \<open>
  \<open>Decoder.Decode\<close> reads the first value of its input, \<open>Unmarshal\<close> wants nothing but white
  space after it.
\<close>

definition parseFirst :: "string \<Rightarrow> (json \<times> string) option" where
  "parseFirst s = pValue (2 * length s + 1) maxNestingDepth s"

definition parseJson :: "string \<Rightarrow> json option" where
  "parseJson s = do { (v, r) \<leftarrow> parseFirst s; if skip r = [] then Some v else None }"

section \<open>Fields of a struct\<close>

definition upperASCII :: "char \<Rightarrow> char" where
  "upperASCII c = (if 97 \<le> (of_char c :: nat) \<and> (of_char c :: nat) \<le> 122 then char_of (of_char c - 32 :: nat) else c)"

text \<open>
  Two names match when they fold to the same text. Besides the ASCII letters only the long s and
  the Kelvin sign fold to an ASCII letter; the names of the code's fields are ASCII.
\<close>

function foldName :: "string \<Rightarrow> string" where
  "foldName s =
     (case s of [] \<Rightarrow> []
      | c # r \<Rightarrow>
          if HasPrefix s [CHR 0xC5, CHR 0xBF] then CHR ''S'' # foldName (drop 2 s)
          else if HasPrefix s [CHR 0xE2, CHR 0x84, CHR 0xAA] then CHR ''K'' # foldName (drop 3 s)
          else upperASCII c # foldName r)"
  by pat_completeness auto
termination by (relation "measure length") auto

declare foldName.simps [simp del]

type_synonym 's field = "string \<times> (json \<Rightarrow> 's \<Rightarrow> 's option)"

text \<open>Setting the field a key names; \<open>strict\<close> is \<open>DisallowUnknownFields\<close>.\<close>

fun setField :: "bool \<Rightarrow> 's field list \<Rightarrow> string \<Rightarrow> json \<Rightarrow> 's \<Rightarrow> 's option" where
  "setField strict [] k v s = (if strict then None else Some s)"
| "setField strict ((name, f) # fs) k v s =
     (if foldName k = foldName name then f v s else setField strict fs k v s)"

fun setFields :: "bool \<Rightarrow> 's field list \<Rightarrow> (string \<times> json) list \<Rightarrow> 's \<Rightarrow> 's option" where
  "setFields strict fs [] s = Some s"
| "setFields strict fs ((k, v) # kvs) s = do { s' \<leftarrow> setField strict fs k v s; setFields strict fs kvs s' }"

definition decodeStruct :: "bool \<Rightarrow> 's field list \<Rightarrow> json \<Rightarrow> 's \<Rightarrow> 's option" where
  "decodeStruct strict fs v s =
     (case v of JNull \<Rightarrow> Some s | JObj kvs \<Rightarrow> setFields strict fs kvs s | _ \<Rightarrow> None)"

definition decodeString :: "json \<Rightarrow> string \<Rightarrow> string option" where
  "decodeString v old = (case v of JNull \<Rightarrow> Some old | JStr t \<Rightarrow> Some t | _ \<Rightarrow> None)"

definition decodeBool :: "json \<Rightarrow> bool \<Rightarrow> bool option" where
  "decodeBool v old = (case v of JNull \<Rightarrow> Some old | JBool b \<Rightarrow> Some b | _ \<Rightarrow> None)"

definition ParseUint :: "string \<Rightarrow> u64 option" where
  "ParseUint s = (case parseNat s of None \<Rightarrow> None | Some n \<Rightarrow> if n < 2 ^ 64 then Some (of_nat n) else None)"

definition decodeUint :: "json \<Rightarrow> u64 \<Rightarrow> u64 option" where
  "decodeUint v old = (case v of JNull \<Rightarrow> Some old | JNum l \<Rightarrow> ParseUint l | _ \<Rightarrow> None)"

definition decodeInt :: "json \<Rightarrow> int \<Rightarrow> int option" where
  "decodeInt v old = (case v of JNull \<Rightarrow> Some old | JNum l \<Rightarrow> ParseInt l | _ \<Rightarrow> None)"

text \<open>A pointer field: \<open>null\<close> is the nil pointer.\<close>

definition decodeUintPtr :: "json \<Rightarrow> u64 option option" where
  "decodeUintPtr v = (case v of JNull \<Rightarrow> Some None | JNum l \<Rightarrow> map_option Some (ParseUint l) | _ \<Rightarrow> None)"

text \<open>\<open>strconv.ParseFloat\<close> on a literal: the nearest float64, an error when it overflows.\<close>

definition litValue :: "string \<Rightarrow> rat option" where
  "litValue s = do {
     let (sg, s0) = pMinus s;
     (i, s1) \<leftarrow> pInt s0;
     (f, s2) \<leftarrow> pFrac s1;
     (e, s3) \<leftarrow> pExp s2;
     let m = (of_nat (digitsVal 0 (i @ drop 1 f)) :: rat);
     let x = (case splitSign (drop 1 e) of (neg, ds) \<Rightarrow> if neg then - int (digitsVal 0 ds) else int (digitsVal 0 ds));
     let v = m * 10 powi (x - int (length (drop 1 f)));
     Some (if sg = [] then v else - v)
   }"

definition ParseFloat :: "string \<Rightarrow> rat option" where
  "ParseFloat s = do {
     q \<leftarrow> litValue s;
     let x = roundF64 q;
     if \<bar>x\<bar> < 2 ^ 1024 then Some x else None
   }"

definition decodeFloat :: "json \<Rightarrow> rat \<Rightarrow> rat option" where
  "decodeFloat v old = (case v of JNull \<Rightarrow> Some old | JNum l \<Rightarrow> ParseFloat l | _ \<Rightarrow> None)"

text \<open>Decoding into \<open>any\<close>: of several members with one key the last stays.\<close>

definition lastWins :: "(string \<times> 'v) list \<Rightarrow> (string, 'v) gomap" where
  "lastWins kvs = foldl (\<lambda>m (k, v). AList.update k v m) [] kvs"

fun anyOf :: "json \<Rightarrow> json" where
  "anyOf (JArr xs) = JArr (map anyOf xs)"
| "anyOf (JObj kvs) = JObj (lastWins (map (\<lambda>(k, v). (k, anyOf v)) kvs))"
| "anyOf v = v"

end
