(* ===== verification/JsonFacts.thy ===== *)
theory JsonFacts
  imports JsonDecode
begin

text \<open>
  Facts about the JSON codec: the parser's fuel suffices, and decoding what was encoded gives
  the value back.
\<close>

section \<open>Every call consumes input\<close>

lemma skip_le: "length (skip s) \<le> length s"
  by (simp add: skip_def length_dropWhile_le)

lemma expect_shorter: "expect c s = Some r \<Longrightarrow> length r < length s"
  using skip_le [of s] by (auto simp: expect_def split: list.splits if_splits)

lemma digitRun_shorter: "digitRun s = Some (ds, r) \<Longrightarrow> length r < length s"
  by (cases s) (auto simp: digitRun_def Let_def split: if_splits)

lemma pInt_shorter: "pInt s = Some (i, r) \<Longrightarrow> length r < length s"
  by (auto simp: pInt_def split: list.splits if_splits dest: digitRun_shorter)

lemma pFrac_le: "pFrac s = Some (f, r) \<Longrightarrow> length r \<le> length s"
  by (auto simp: pFrac_def split: list.splits if_splits dest: digitRun_shorter)

lemma pExpSign_le: "pExpSign s = (sg, r) \<Longrightarrow> length r \<le> length s"
  by (auto simp: pExpSign_def split: list.splits if_splits)

lemma pExp_le: "pExp s = Some (e, r) \<Longrightarrow> length r \<le> length s"
  by (auto simp: pExp_def split: list.splits if_splits prod.splits dest!: digitRun_shorter pExpSign_le)

lemma pMinus_le: "pMinus s = (sg, r) \<Longrightarrow> length r \<le> length s"
  by (auto simp: pMinus_def split: list.splits if_splits)

lemma pNumber_shorter: "pNumber s = Some (l, r) \<Longrightarrow> length r < length s"
  unfolding pNumber_def Let_def
  by (auto simp: bind_eq_Some_conv split: prod.splits
      dest!: pInt_shorter pFrac_le pExp_le pMinus_le)

lemma unquote_step:
  assumes "unquote (c # cs) = Some (t, r)"
  shows "r = cs \<or> (\<exists>u t'. length u \<le> length cs \<and> unquote u = Some (t', r))"
proof -
  have L: "\<And>b. length (drop b cs) \<le> length cs"
    "runeLen (c # cs) \<noteq> 0 \<Longrightarrow> length (drop (runeLen (c # cs)) (c # cs)) \<le> length cs" by auto
  then show ?thesis
    using assms unfolding unquote.simps [of "c # cs"]
    by (auto simp: before_def simp del: length_drop split: if_splits option.splits)
qed

lemma unquote_shorter: "unquote s = Some (t, r) \<Longrightarrow> length r < length s"
proof (induction "length s" arbitrary: s t r rule: less_induct)
  case less
  then obtain c cs where s: "s = c # cs" by (cases s) (simp_all add: unquote.simps)
  have "r = cs \<or> (\<exists>u t'. length u \<le> length cs \<and> unquote u = Some (t', r))"
    using unquote_step less.prems s by simp
  then show ?case
  proof
    assume "\<exists>u t'. length u \<le> length cs \<and> unquote u = Some (t', r)"
    then obtain u t' where u: "length u \<le> length cs" "unquote u = Some (t', r)" by blast
    then have "length r < length u" using less.hyps [of u t' r] s by simp
    then show ?thesis using u(1) s by simp
  qed (simp add: s)
qed

lemma pValue_bracket:
  assumes "skip s = c # r" "c = CHR ''{'' \<or> c = CHR ''[''"
  shows "pValue (Suc n) d s =
    (if d \<le> 0 then None
     else if c = CHR ''{'' then
       (case expect (CHR ''}'') r of Some r' \<Rightarrow> Some (JObj [], r')
        | None \<Rightarrow> map_option (\<lambda>(kvs, r'). (JObj kvs, r')) (pMembers n (d - 1) r))
     else (case expect (CHR '']'') r of Some r' \<Rightarrow> Some (JArr [], r')
        | None \<Rightarrow> map_option (\<lambda>(vs, r'). (JArr vs, r')) (pElems n (d - 1) r)))"
  using assms by auto

text \<open>Any other value is read without recursion.\<close>

lemma pValue_scalar:
  assumes "skip s = c # r" "c \<noteq> CHR ''{''" "c \<noteq> CHR ''[''"
  shows "pValue (Suc n) d s = pValue (Suc m) e s"
    and "pValue (Suc n) d s = Some (v, r') \<Longrightarrow> length r' < length s"
proof -
  show "pValue (Suc n) d s = pValue (Suc m) e s" using assms by simp
  have "length r < length s" using skip_le [of s] assms(1) by simp
  then show "pValue (Suc n) d s = Some (v, r') \<Longrightarrow> length r' < length s"
    using assms by (auto split: if_splits dest!: unquote_shorter pNumber_shorter)
qed

lemma pElems_SomeE:
  assumes "pElems (Suc n) d s = Some (vs, r)"
  obtains v r1 where "pValue n d s = Some (v, r1)" "expect (CHR '']'') r1 = Some r"
  | v r1 r2 vs' where "pValue n d s = Some (v, r1)" "expect (CHR '','') r1 = Some r2" "pElems n d r2 = Some (vs', r)"
  using assms by (auto simp: bind_eq_Some_conv split: option.splits)

lemma pMembers_SomeE:
  assumes "pMembers (Suc n) d s = Some (kvs, r)"
  obtains r0 k r1 r2 v r3 where "expect quote s = Some r0" "unquote r0 = Some (k, r1)"
      "expect (CHR '':'') r1 = Some r2" "pValue n d r2 = Some (v, r3)" "expect (CHR ''}'') r3 = Some r"
  | r0 k r1 r2 v r3 r4 kvs' where "expect quote s = Some r0" "unquote r0 = Some (k, r1)"
      "expect (CHR '':'') r1 = Some r2" "pValue n d r2 = Some (v, r3)" "expect (CHR '','') r3 = Some r4"
      "pMembers n d r4 = Some (kvs', r)"
  using assms by (auto simp: bind_eq_Some_conv split: option.splits)

lemma parse_shorter:
  "(\<forall>d s v r. pValue n d s = Some (v, r) \<longrightarrow> length r < length s)
   \<and> (\<forall>d s vs r. pElems n d s = Some (vs, r) \<longrightarrow> length r < length s)
   \<and> (\<forall>d s kvs r. pMembers n d s = Some (kvs, r) \<longrightarrow> length r < length s)"
proof (induction n)
  case (Suc n)
  then have V: "\<And>d s v r. pValue n d s = Some (v, r) \<Longrightarrow> length r < length s"
    and E: "\<And>d s vs r. pElems n d s = Some (vs, r) \<Longrightarrow> length r < length s"
    and M: "\<And>d s kvs r. pMembers n d s = Some (kvs, r) \<Longrightarrow> length r < length s" by auto
  have "length r < length s" if p: "pValue (Suc n) d s = Some (v, r)" for d s v r
  proof -
    obtain c t where s: "skip s = c # t" using p by (cases "skip s") simp_all
    then have t: "length t < length s" using skip_le [of s] by simp
    show ?thesis
    proof (cases "c = CHR ''{'' \<or> c = CHR ''[''")
      case True
      show ?thesis
        using p t unfolding pValue_bracket [OF s True]
        by (auto split: if_splits option.splits dest!: expect_shorter M E)
    next
      case False
      then show ?thesis using pValue_scalar(2) [OF s] p by blast
    qed
  qed
  moreover have "length r < length s" if "pElems (Suc n) d s = Some (vs, r)" for d s vs r
    using that by (rule pElems_SomeE) (auto dest!: expect_shorter V E)
  moreover have "length r < length s" if "pMembers (Suc n) d s = Some (kvs, r)" for d s kvs r
    using that by (rule pMembers_SomeE) (auto dest!: expect_shorter unquote_shorter V M)
  ultimately show ?case by blast
qed simp

text \<open>Fuel beyond twice the length of the input changes nothing.\<close>

lemma pElems_fuel:
  assumes V: "\<And>d r. length r \<le> length s \<Longrightarrow> pValue n d r = pValue m d r"
    and E: "\<And>d r. length r < length s \<Longrightarrow> pElems n d r = pElems m d r"
  shows "pElems (Suc n) d s = pElems (Suc m) d s"
proof (cases "pValue m d s")
  case None
  then show ?thesis using V [of s d] by simp
next
  case (Some vr)
  obtain v r1 where vr: "vr = (v, r1)" by (cases vr)
  have r1: "length r1 < length s" using Some vr parse_shorter by blast
  show ?thesis
  proof (cases "expect (CHR '','') r1")
    case None
    then show ?thesis using V [of s d] Some vr by simp
  next
    case r2: (Some r2)
    then show ?thesis using V [of s d] Some vr E [of r2] expect_shorter [OF r2] r1 by simp
  qed
qed

lemma pMembers_fuel:
  assumes V: "\<And>d r. length r < length s \<Longrightarrow> pValue n d r = pValue m d r"
    and M: "\<And>d r. length r < length s \<Longrightarrow> pMembers n d r = pMembers m d r"
  shows "pMembers (Suc n) d s = pMembers (Suc m) d s"
proof (cases "\<exists>r0 k r1 r2. expect quote s = Some r0 \<and> unquote r0 = Some (k, r1) \<and> expect (CHR '':'') r1 = Some r2")
  case False
  then have "pMembers (Suc i) d s = None" for i
    by (cases "expect quote s"; cases "unquote (the (expect quote s))") auto
  then show ?thesis by (simp only:)
next
  case True
  then obtain r0 k r1 r2 where k: "expect quote s = Some r0" "unquote r0 = Some (k, r1)" "expect (CHR '':'') r1 = Some r2"
    by blast
  have r2: "length r2 < length s"
    using expect_shorter [OF k(1)] unquote_shorter [OF k(2)] expect_shorter [OF k(3)] by simp
  show ?thesis
  proof (cases "pValue m d r2")
    case None
    then show ?thesis using V [OF r2, of d] k by simp
  next
    case (Some vr)
    obtain v r3 where vr: "vr = (v, r3)" by (cases vr)
    have r3: "length r3 < length r2" using Some vr parse_shorter by blast
    show ?thesis
    proof (cases "expect (CHR '','') r3")
      case None
      then show ?thesis using V [OF r2, of d] Some vr k by simp
    next
      case r4: (Some r4)
      then show ?thesis using V [OF r2, of d] Some vr k M [of r4] expect_shorter [OF r4] r3 r2 by simp
    qed
  qed
qed

lemma pValue_fuel:
  assumes E: "\<And>d r. length r < length s \<Longrightarrow> pElems n d r = pElems m d r"
    and M: "\<And>d r. length r < length s \<Longrightarrow> pMembers n d r = pMembers m d r"
  shows "pValue (Suc n) d s = pValue (Suc m) d s"
proof (cases "skip s")
  case Nil
  then show ?thesis by simp
next
  case (Cons c t)
  then have t: "length t < length s" using skip_le [of s] by simp
  show ?thesis
  proof (cases "c = CHR ''{'' \<or> c = CHR ''[''")
    case True
    show ?thesis
      unfolding pValue_bracket [OF Cons True] using M [OF t] E [OF t] by (auto split: option.split)
  next
    case False
    then show ?thesis using pValue_scalar(1) [OF Cons] by blast
  qed
qed

declare pValue.simps(2) [simp del] pElems.simps(2) [simp del] pMembers.simps(2) [simp del]

lemma parse_fuel:
  "(\<forall>m d s. 2 * length s < n \<longrightarrow> 2 * length s < m \<longrightarrow> pValue n d s = pValue m d s)
   \<and> (\<forall>m d s. 2 * length s + 1 < n \<longrightarrow> 2 * length s + 1 < m \<longrightarrow> pElems n d s = pElems m d s)
   \<and> (\<forall>m d s. 2 * length s < n \<longrightarrow> 2 * length s < m \<longrightarrow> pMembers n d s = pMembers m d s)"
proof (induction n)
  case (Suc n)
  have V: "pValue n d s = pValue m d s" if "2 * length s < n" "2 * length s < m" for m d s
    using Suc.IH that by blast
  have E: "pElems n d s = pElems m d s" if "2 * length s + 1 < n" "2 * length s + 1 < m" for m d s
    using Suc.IH that by blast
  have M: "pMembers n d s = pMembers m d s" if "2 * length s < n" "2 * length s < m" for m d s
    using Suc.IH that by blast
  have "pValue (Suc n) d s = pValue m d s" if l: "2 * length s < Suc n" "2 * length s < m" for m d s
    using l by (cases m) (auto intro!: pValue_fuel E M)
  moreover have "pElems (Suc n) d s = pElems m d s" if l: "2 * length s + 1 < Suc n" "2 * length s + 1 < m" for m d s
    using l by (cases m) (auto intro!: pElems_fuel V E)
  moreover have "pMembers (Suc n) d s = pMembers m d s" if l: "2 * length s < Suc n" "2 * length s < m" for m d s
    using l by (cases m) (auto intro!: pMembers_fuel V M)
  ultimately show ?case by blast
qed simp

lemma parseFirst_fuel: "2 * length s < n \<Longrightarrow> parseFirst s = pValue n maxNestingDepth s"
  unfolding parseFirst_def using parse_fuel [of "2 * length s + 1"] by simp

section \<open>Strings round-trip\<close>

text \<open>A string is valid UTF-8 when it is a sequence of encoded runes.\<close>

function validUTF8 :: "string \<Rightarrow> bool" where
  "validUTF8 s =
     (if s = [] then True else if runeLen s = 0 then False else validUTF8 (drop (runeLen s) s))"
  by pat_completeness auto
termination by (relation "measure length") auto

declare validUTF8.simps [simp del]

lemma between_append: "k < n \<Longrightarrow> n \<le> length s \<Longrightarrow> between lo hi (drop k (take n s @ t)) = between lo hi (drop k s)"
proof -
  assume k: "k < n" "n \<le> length s"
  then have "drop k (take n s @ t) = s ! k # (drop (Suc k) (take n s) @ t)"
    by (simp add: Cons_nth_drop_Suc [symmetric])
  moreover have "drop k s = s ! k # drop (Suc k) s" using k by (simp add: Cons_nth_drop_Suc)
  ultimately show ?thesis by (simp add: between_def)
qed

lemma between_nonempty: "between lo hi (drop k s) \<Longrightarrow> k < length s"
  by (cases "k < length s") (simp_all add: between_def)

lemma runeLen_iff:
  "runeLen s = 1 \<longleftrightarrow> between 0 127 s"
  "runeLen s = 2 \<longleftrightarrow> \<not> between 0 127 s \<and> between 194 223 s \<and> cont (drop 1 s)"
  "runeLen s = 3 \<longleftrightarrow> \<not> between 0 127 s \<and> \<not> between 194 223 s \<and> between 224 239 s
     \<and> between (if between 224 224 s then 160 else 128) (if between 237 237 s then 159 else 191) (drop 1 s)
     \<and> cont (drop 2 s)"
  "runeLen s = 4 \<longleftrightarrow> \<not> between 0 127 s \<and> \<not> between 194 223 s \<and> \<not> between 224 239 s \<and> between 240 244 s
     \<and> between (if between 240 240 s then 144 else 128) (if between 244 244 s then 143 else 191) (drop 1 s)
     \<and> cont (drop 2 s) \<and> cont (drop 3 s)"
  by (simp_all add: runeLen_def)

lemma runeLen_values: "runeLen s = 0 \<or> runeLen s = 1 \<or> runeLen s = 2 \<or> runeLen s = 3 \<or> runeLen s = 4"
  by (simp add: runeLen_def)

lemma runeLen_le: "runeLen s \<le> length s"
proof -
  have n: "between lo hi (drop k s) \<Longrightarrow> Suc k \<le> length s" for lo hi k
    using between_nonempty [of lo hi k s] by simp
  consider "runeLen s = 0" | "runeLen s = 1" | "runeLen s = 2" | "runeLen s = 3" | "runeLen s = 4"
    using runeLen_values [of s] by auto
  then show ?thesis
  proof cases
    case 2
    then have "between 0 127 s" using runeLen_iff(1) by blast
    then show ?thesis using n [of 0 127 0] 2 by simp
  next
    case 3
    then show ?thesis using n [of 128 191 1] unfolding runeLen_iff(2) by (simp add: runeLen_def)
  next
    case 4
    then show ?thesis using n [of 128 191 2] unfolding runeLen_iff(3) by (simp add: runeLen_def)
  next
    case 5
    then show ?thesis using n [of 128 191 3] unfolding runeLen_iff(4) by (simp add: runeLen_def)
  qed simp
qed

lemma runeLen_append:
  assumes "runeLen s = n" "n \<noteq> 0"
  shows "runeLen (take n s @ t) = n"
proof -
  let ?s = "take n s @ t"
  have l: "n \<le> length s" using runeLen_le [of s] assms(1) by simp
  have b: "between lo hi (drop k ?s) = between lo hi (drop k s)" if "k < n" for k lo hi
    by (rule between_append [OF that l])
  have b0: "between lo hi ?s = between lo hi s" for lo hi using b [of 0 lo hi] assms(2) by simp
  consider "n = 1" | "n = 2" | "n = 3" | "n = 4" using runeLen_values [of s] assms by auto
  then show ?thesis
  proof cases
    case 1
    have "runeLen ?s = 1 \<longleftrightarrow> runeLen s = 1" by (simp only: runeLen_iff b0)
    then show ?thesis using 1 assms(1) by simp
  next
    case 2
    have "between lo hi (drop 1 ?s) = between lo hi (drop 1 s)" for lo hi using b [of 1] 2 by simp
    then have "runeLen ?s = 2 \<longleftrightarrow> runeLen s = 2" by (simp only: runeLen_iff b0)
    then show ?thesis using 2 assms(1) by simp
  next
    case 3
    have "between lo hi (drop 1 ?s) = between lo hi (drop 1 s)"
      "between lo hi (drop 2 ?s) = between lo hi (drop 2 s)" for lo hi using b [of 1] b [of 2] 3 by simp_all
    then have "runeLen ?s = 3 \<longleftrightarrow> runeLen s = 3" by (simp only: runeLen_iff b0)
    then show ?thesis using 3 assms(1) by simp
  next
    case 4
    have "between lo hi (drop 1 ?s) = between lo hi (drop 1 s)"
      "between lo hi (drop 2 ?s) = between lo hi (drop 2 s)"
      "between lo hi (drop 3 ?s) = between lo hi (drop 3 s)" for lo hi
      using b [of 1] b [of 2] b [of 3] 4 by simp_all
    then have "runeLen ?s = 4 \<longleftrightarrow> runeLen s = 4" by (simp only: runeLen_iff b0)
    then show ?thesis using 4 assms(1) by simp
  qed
qed

lemma hexVal_hexDigit: "n < 16 \<Longrightarrow> hexVal (hexDigit n) = Some n"
  by (auto simp: hexVal_def hexDigit_def isDigit_def Let_def)

lemma unquote_escape_seq:
  "unescape r = Some (t, n) \<Longrightarrow> unquote (backslash # r) = before t (unquote (drop n r))"
  by (subst unquote.simps) (simp add: backslash_def quote_def)

lemma hex4_low:
  assumes "x < 16" "y < 16"
  shows "hex4 (CHR ''0'' # CHR ''0'' # hexDigit x # hexDigit y # r) = Some (16 * x + y)"
proof -
  have "hexVal (CHR ''0'') = Some 0" by code_simp
  then show ?thesis using hexVal_hexDigit [OF assms(1)] hexVal_hexDigit [OF assms(2)] by simp
qed

lemma unescape_hex:
  assumes "b < 128"
  shows "unescape (CHR ''u'' # CHR ''0'' # CHR ''0'' # hexDigit (b div 16) # hexDigit (b mod 16) # r) = Some ([char_of b], 5)"
proof -
  have "hex4 (CHR ''0'' # CHR ''0'' # hexDigit (b div 16) # hexDigit (b mod 16) # r) = Some b"
    using hex4_low [of "b div 16" "b mod 16" r] assms by simp
  then show ?thesis
    using assms by (simp add: unescape_def utf8_def quote_def backslash_def del: hex4.simps)
qed

lemma charI: "(of_char c :: nat) = of_char d \<Longrightarrow> c = d"
  by simp

lemma unquote_escapeByte:
  assumes "(of_char c :: nat) < 128"
  shows "unquote (escapeByte c @ r) = before [c] (unquote r)"
proof -
  let ?b = "of_char c :: nat"
  have short: "unescape (e # r) = Some (t, 1) \<Longrightarrow> unquote (backslash # e # r) = before t (unquote r)" for e t
    using unquote_escape_seq [of "e # r"] by simp
  consider "c = quote \<or> c = backslash" | "?b = 8 \<or> ?b = 12 \<or> ?b = 10 \<or> ?b = 13 \<or> ?b = 9"
    | "\<not> (c = quote \<or> c = backslash)" "\<not> (?b = 8 \<or> ?b = 12 \<or> ?b = 10 \<or> ?b = 13 \<or> ?b = 9)" by blast
  then show ?thesis
  proof cases
    case 1
    then show ?thesis using short [of c "[c]"] by (auto simp: escapeByte_def unescape_def)
  next
    case 2
    then have "c = CHR 0x08 \<or> c = CHR 0x0C \<or> c = CHR 0x0A \<or> c = CHR 0x0D \<or> c = CHR 0x09"
      using charI [of c "CHR 0x08"] charI [of c "CHR 0x0C"] charI [of c "CHR 0x0A"]
        charI [of c "CHR 0x0D"] charI [of c "CHR 0x09"] by auto
    moreover have "unescape (CHR ''b'' # r) = Some ([CHR 0x08], 1)" "unescape (CHR ''f'' # r) = Some ([CHR 0x0C], 1)"
      "unescape (CHR ''n'' # r) = Some ([CHR 0x0A], 1)" "unescape (CHR ''r'' # r) = Some ([CHR 0x0D], 1)"
      "unescape (CHR ''t'' # r) = Some ([CHR 0x09], 1)"
      by (simp_all add: unescape_def quote_def backslash_def)
    note this [THEN short]
    moreover have "escapeByte (CHR 0x08) = [backslash, CHR ''b'']" "escapeByte (CHR 0x0C) = [backslash, CHR ''f'']"
      "escapeByte (CHR 0x0A) = [backslash, CHR ''n'']" "escapeByte (CHR 0x0D) = [backslash, CHR ''r'']"
      "escapeByte (CHR 0x09) = [backslash, CHR ''t'']"
      by (simp_all add: escapeByte_def quote_def backslash_def)
    ultimately show ?thesis by (elim disjE) simp_all
  next
    case 3
    show ?thesis
    proof (cases "?b < 32 \<or> ?b = 60 \<or> ?b = 62 \<or> ?b = 38")
      case True
      then show ?thesis
        using 3 unquote_escape_seq [OF unescape_hex [OF assms, of r]] by (simp add: escapeByte_def Let_def)
    next
      case False
      then show ?thesis using 3 assms by (subst unquote.simps) (simp add: escapeByte_def Let_def)
    qed
  qed
qed

lemma unquote_separators:
  "unquote (backslash # ''u2028'' @ r) = before lineSep (unquote r)"
  "unquote (backslash # ''u2029'' @ r) = before parSep (unquote r)"
proof -
  have h: "hex4 (CHR ''2'' # CHR ''0'' # CHR ''2'' # CHR ''8'' # r) = Some 0x2028"
    "hex4 (CHR ''2'' # CHR ''0'' # CHR ''2'' # CHR ''9'' # r) = Some 0x2029"
    by (simp_all add: hexVal_def isDigit_def)
  have u: "utf8 0x2028 = lineSep" "utf8 0x2029 = parSep"
    by (simp_all add: utf8_def lineSep_def parSep_def char_of_eq_iff)
  have "unescape (''u2028'' @ r) = Some (lineSep, 5)" "unescape (''u2029'' @ r) = Some (parSep, 5)"
    using h u by (simp_all add: unescape_def quote_def backslash_def del: hex4.simps)
  from this [THEN unquote_escape_seq] show
    "unquote (backslash # ''u2028'' @ r) = before lineSep (unquote r)"
    "unquote (backslash # ''u2029'' @ r) = before parSep (unquote r)" by simp_all
qed

lemma unquote_rune:
  assumes "128 \<le> (of_char c :: nat)" "runeLen (c # cs) \<noteq> 0"
  shows "unquote (take (runeLen (c # cs)) (c # cs) @ r) = before (take (runeLen (c # cs)) (c # cs)) (unquote r)"
proof -
  let ?n = "runeLen (c # cs)"
  have n: "?n \<le> length (c # cs)" by (rule runeLen_le)
  have r: "runeLen (take ?n (c # cs) @ r) = ?n" by (rule runeLen_append [OF refl assms(2)])
  obtain ds where ds: "take ?n (c # cs) @ r = c # ds" using assms(2) by (cases ?n) simp_all
  have "c \<noteq> quote" "c \<noteq> backslash" using assms(1) by (auto simp: quote_def backslash_def)
  then have "unquote (c # ds) = before (take ?n (c # ds)) (unquote (drop ?n (c # ds)))"
    using assms r ds by (subst unquote.simps) simp
  then show ?thesis using n by (simp flip: ds)
qed

lemma before_Some [simp]: "before p (Some (t, r)) = Some (p @ t, r)"
  by (simp add: before_def)

lemma runeLen_separators: "runeLen (lineSep @ t) = 3" "runeLen (parSep @ t) = 3"
  by (simp_all add: runeLen_def between_def lineSep_def parSep_def)

text \<open>A quoted valid string reads back as itself.\<close>

lemma unquote_escape: "validUTF8 s \<Longrightarrow> unquote (escape s @ quote # r) = Some (s, r)"
proof (induction "length s" arbitrary: s rule: less_induct)
  case less
  show ?case
  proof (cases s)
    case Nil
    then show ?thesis by (subst unquote.simps) simp
  next
    case (Cons c cs)
    let ?n = "runeLen s"
    have v: "?n \<noteq> 0" "validUTF8 (drop ?n s)" 
      using less.prems Cons unfolding validUTF8.simps [of s] by (simp_all split: if_splits)
    then have IH: "unquote (escape (drop ?n s) @ quote # r) = Some (drop ?n s, r)"
      using less.hyps [of "drop ?n s"] Cons by simp
    show ?thesis
    proof (cases "(of_char c :: nat) < 128")
      case True
      then have "?n = 1" by (simp add: Cons runeLen_def between_def)
      then show ?thesis using IH True Cons by (simp add: unquote_escapeByte)
    next
      case False
      then have hi: "128 \<le> (of_char c :: nat)" by simp
      have sep: "?n = 3" "take 3 s = p" if pp: "p = lineSep \<or> p = parSep" and hp: "HasPrefix s p" for p
      proof -
        obtain t where "s = p @ t" using hp by (auto simp: HasPrefix_iff)
        moreover have "length p = 3" using pp by (auto simp: lineSep_def parSep_def)
        ultimately show "?n = 3" "take 3 s = p" using pp runeLen_separators by auto
      qed
      show ?thesis
      proof (cases "HasPrefix s lineSep \<or> HasPrefix s parSep")
        case True
        then obtain p where p: "p = lineSep \<or> p = parSep" "HasPrefix s p" by blast
        have one: "\<not> (HasPrefix s lineSep \<and> HasPrefix s parSep)" by (auto simp: HasPrefix_iff lineSep_def parSep_def)
        have "escape s = backslash # (if p = lineSep then ''u2028'' else ''u2029'') @ escape (drop 3 s)"
          using p v(1) one unfolding Cons escape_high [OF hi] Let_def by auto
        then have "unquote (escape s @ quote # r) = before p (unquote (escape (drop 3 s) @ quote # r))"
          using p(1) unquote_separators by auto
        then show ?thesis using IH sep [OF p] by (metis append_take_drop_id before_Some)
      next
        case False
        then have "escape s = take ?n s @ escape (drop ?n s)"
          using v(1) unfolding Cons escape_high [OF hi] Let_def by simp
        then show ?thesis using IH unquote_rune [OF hi, of cs] v(1) by (simp flip: Cons)
      qed
    qed
  qed
qed

lemma unquote_quoted: "validUTF8 s \<Longrightarrow> unquote (tl (quoted s) @ r) = Some (s, r) \<and> hd (quoted s) = quote"
  using unquote_escape [of s r] by (simp add: quoted_def)

section \<open>Numbers round-trip\<close>

text \<open>What may follow a number without being read as a part of it.\<close>

definition boundary :: "string \<Rightarrow> bool" where
  "boundary t = (t = [] \<or> \<not> isDigit (hd t) \<and> hd t \<notin> {CHR ''.'', CHR ''e'', CHR ''E'', CHR ''+'', CHR ''-''})"

lemma digitRun_append:
  assumes "digitRun s = Some (ds, r)" "boundary t"
  shows "digitRun (s @ t) = Some (ds, r @ t)"
proof -
  have t: "takeWhile isDigit t = []" using assms(2) by (cases t) (auto simp: boundary_def)
  have ds: "ds = takeWhile isDigit s" "ds \<noteq> []" "r = drop (length ds) s"
    using assms(1) by (auto simp: digitRun_def Let_def split: if_splits)
  have "takeWhile isDigit (s @ t) = takeWhile isDigit s" by (induction s) (simp_all add: t)
  then have "takeWhile isDigit (s @ t) = ds" using ds(1) by simp
  moreover have "length ds \<le> length s" using ds(1) by (simp add: length_takeWhile_le)
  ultimately show ?thesis using ds by (simp add: digitRun_def Let_def)
qed

lemma pInt_append: "pInt s = Some (i, r) \<Longrightarrow> boundary t \<Longrightarrow> pInt (s @ t) = Some (i, r @ t)"
  using digitRun_append [of s i r t] by (cases s) (auto simp: pInt_def split: if_splits)

lemma pFrac_append: "pFrac s = Some (f, r) \<Longrightarrow> boundary t \<Longrightarrow> pFrac (s @ t) = Some (f, r @ t)"
  using digitRun_append [of "tl s" "tl f" r t]
  by (cases s; cases t) (auto simp: pFrac_def boundary_def split: if_splits)

lemma pExp_append: "pExp s = Some (e, r) \<Longrightarrow> boundary t \<Longrightarrow> pExp (s @ t) = Some (e, r @ t)"
proof -
  assume e: "pExp s = Some (e, r)" and t: "boundary t"
  show ?thesis
  proof (cases s)
    case Nil
    then show ?thesis using e t by (cases t) (auto simp: pExp_def boundary_def)
  next
    case (Cons c u)
    show ?thesis
    proof (cases "c = CHR ''e'' \<or> c = CHR ''E''")
      case False
      then show ?thesis using e Cons by (auto simp: pExp_def)
    next
      case True
      obtain sg v where sv: "pExpSign u = (sg, v)" by (cases "pExpSign u")
      obtain ds where ds: "digitRun v = Some (ds, r)" "e = c # sg @ ds"
        using e Cons True sv by (auto simp: pExp_def)
      have "u \<noteq> []" using ds(1) sv by (auto simp: pExpSign_def digitRun_def)
      then have "pExpSign (u @ t) = (sg, v @ t)" using sv by (cases u) (auto simp: pExpSign_def split: if_splits)
      then show ?thesis using True Cons ds(2) digitRun_append [OF ds(1) t] by (auto simp: pExp_def)
    qed
  qed
qed

lemma pMinus_append: "s \<noteq> [] \<Longrightarrow> pMinus s = (sg, r) \<Longrightarrow> pMinus (s @ t) = (sg, r @ t)"
  by (cases s) (auto simp: pMinus_def split: if_splits)

lemma pNumber_append:
  assumes "pNumber s = Some (l, r)" "boundary t"
  shows "pNumber (s @ t) = Some (l, r @ t)"
proof -
  obtain sg s0 where m: "pMinus s = (sg, s0)" by (cases "pMinus s")
  obtain i s1 f s2 e where p: "pInt s0 = Some (i, s1)" "pFrac s1 = Some (f, s2)" "pExp s2 = Some (e, r)"
    "l = sg @ i @ f @ e"
    using assms(1) m by (auto simp: pNumber_def bind_eq_Some_conv)
  have "s \<noteq> []" using p(1) m by (auto simp: pMinus_def pInt_def)
  then show ?thesis
    using pMinus_append [OF _ m] pInt_append [OF p(1) assms(2)] pFrac_append [OF p(2) assms(2)]
      pExp_append [OF p(3) assms(2)] p(4)
    by (simp add: pNumber_def)
qed

definition numLit :: "string \<Rightarrow> bool" where "numLit l = (pNumber l = Some (l, []))"

lemma numLit_head: "numLit l \<Longrightarrow> \<exists>c cs. l = c # cs \<and> (c = CHR ''-'' \<or> isDigit c)"
proof -
  assume "numLit l"
  then obtain sg s0 i s1 where p: "pMinus l = (sg, s0)" "pInt s0 = Some (i, s1)"
    by (auto simp: numLit_def pNumber_def bind_eq_Some_conv split: prod.splits)
  have "isDigit (hd s0)" "s0 \<noteq> []"
    using p(2) by (auto simp: pInt_def digitRun_def Let_def isDigit_def neq_Nil_conv split: list.splits if_splits)
  then show ?thesis using p(1) by (cases l) (auto simp: pMinus_def split: if_splits)
qed

lemma numLit_headE:
  assumes "numLit l"
  obtains c cs where "l = c # cs" "c = CHR ''-'' \<or> isDigit c"
  using numLit_head [OF assms] by blast

text \<open>Numbers written in decimal are literals.\<close>

lemma hd_formatNat: "hd (formatNat n) = CHR ''0'' \<Longrightarrow> n = 0"
proof (induction n rule: formatNat.induct)
  case (1 n)
  show ?case
  proof (cases "n < 10")
    case True
    then have "digitChar n = CHR ''0''" using "1.prems" by (simp add: formatNat.simps)
    then show ?thesis using digit_ok [OF True] by (simp add: digitVal_def)
  next
    case False
    have "formatNat (n div 10) \<noteq> []" using formatNat_digits by blast
    then have "hd (formatNat n) = hd (formatNat (n div 10))" using False by (subst formatNat.simps) simp
    then have "n div 10 = 0" using 1 False by simp
    then show ?thesis using False by simp
  qed
qed

lemma pInt_formatNat: "pInt (formatNat n) = Some (formatNat n, [])"
proof (cases "n = 0")
  case True
  then show ?thesis by (simp add: pInt_def formatNat.simps digitChar_def char_of_eq_iff)
next
  case False
  obtain c cs where c: "formatNat n = c # cs" using formatNat_digits [of n] by (cases "formatNat n") simp_all
  have "c \<noteq> CHR ''0''" using hd_formatNat [of n] c False by auto
  moreover have "takeWhile isDigit (formatNat n) = formatNat n"
    using formatNat_digits [of n] by (simp add: list_all_iff)
  ultimately show ?thesis using c by (simp add: pInt_def digitRun_def)
qed

lemma numLit_formatNat: "numLit (formatNat n)"
proof -
  obtain c cs where c: "formatNat n = c # cs" "isDigit c"
    using formatNat_digits [of n] by (cases "formatNat n") simp_all
  then have "pMinus (formatNat n) = ([], formatNat n)" using isDigit_not_sign by (simp add: pMinus_def)
  then show ?thesis using pInt_formatNat by (simp add: numLit_def pNumber_def pFrac_def pExp_def)
qed

lemma numLit_FormatInt: "numLit (FormatInt n)"
  using numLit_formatNat pInt_formatNat
  by (simp add: FormatInt_def numLit_def pNumber_def pMinus_def pFrac_def pExp_def)

section \<open>Values round-trip\<close>

text \<open>Texts are valid UTF-8, numbers are literals, the nesting is at most \<open>d\<close>.\<close>

fun json_ok :: "int \<Rightarrow> json \<Rightarrow> bool" where
  "json_ok d JNull = True"
| "json_ok d (JBool b) = True"
| "json_ok d (JNum l) = numLit l"
| "json_ok d (JStr s) = validUTF8 s"
| "json_ok d (JArr xs) = (0 < d \<and> list_all (json_ok (d - 1)) xs)"
| "json_ok d (JObj kvs) = (0 < d \<and> list_all (\<lambda>(k, v). validUTF8 k \<and> json_ok (d - 1) v) kvs)"

lemma skip_Cons: "\<not> jsonSpace c \<Longrightarrow> skip (c # s) = c # s"
  by (simp add: skip_def)

lemma expect_Cons: "\<not> jsonSpace c \<Longrightarrow> expect d (c # s) = (if c = d then Some s else None)"
  by (simp add: expect_def skip_Cons)

lemma punctuation [simp]:
  "\<not> jsonSpace (CHR '','')" "\<not> jsonSpace (CHR '':'')" "\<not> jsonSpace (CHR '']'')" "\<not> jsonSpace (CHR ''}'')"
  "\<not> jsonSpace (CHR ''['')" "\<not> jsonSpace (CHR ''{'')" "\<not> jsonSpace quote"
  "boundary (CHR '','' # t)" "boundary (CHR '']'' # t)" "boundary (CHR ''}'' # t)"
  by (simp_all add: jsonSpace_def quote_def boundary_def isDigit_def)

lemma number_char: "c = CHR ''-'' \<or> isDigit c \<Longrightarrow> \<not> jsonSpace c \<and> c \<noteq> quote
   \<and> c \<notin> {CHR ''['', CHR '']'', CHR ''{'', CHR ''}'', CHR '','', CHR '':'', CHR ''t'', CHR ''f'', CHR ''n''}"
  by (auto simp: jsonSpace_def quote_def isDigit_def)

lemma encodeJson_head:
  "json_ok d v \<Longrightarrow> \<exists>c cs. encodeJson v = c # cs \<and> \<not> jsonSpace c \<and> c \<notin> {CHR '']'', CHR ''}'', CHR '','', CHR '':''}"
proof (cases "\<exists>l. v = JNum l")
  case True
  then obtain l where l: "v = JNum l" by blast
  assume "json_ok d v"
  then have "numLit l" using l by simp
  then obtain c cs where "l = c # cs" "c = CHR ''-'' \<or> isDigit c" by (rule numLit_headE)
  then show ?thesis using l number_char [of c] by simp
next
  case False
  then show ?thesis by (cases v) (auto simp: quoted_def jsonSpace_def quote_def)
qed

lemma pElems_encode:
  assumes "xs \<noteq> []" "\<And>x n t. x \<in> set xs \<Longrightarrow> boundary t \<Longrightarrow> 2 * length (encodeJson x @ t) < n \<Longrightarrow>
      pValue n d (encodeJson x @ t) = Some (x, t)"
    and "2 * length (joinWith (CHR '','') (map encodeJson xs) @ CHR '']'' # t) + 1 < n"
  shows "pElems n d (joinWith (CHR '','') (map encodeJson xs) @ CHR '']'' # t) = Some (xs, t)"
  using assms
proof (induction xs arbitrary: n rule: list_nonempty_induct)
  case (single x)
  then obtain m where "n = Suc m" by (cases n) auto
  then show ?case using single by (simp add: expect_Cons pElems.simps)
next
  case (cons x xs)
  then obtain m where m: "n = Suc m" by (cases n) auto
  let ?r = "joinWith (CHR '','') (map encodeJson xs) @ CHR '']'' # t"
  have j: "joinWith (CHR '','') (map encodeJson (x # xs)) @ CHR '']'' # t = encodeJson x @ CHR '','' # ?r"
    using cons.hyps by (simp add: joinWith_Cons)
  have l: "2 * length (encodeJson x @ CHR '','' # ?r) < m" "2 * length ?r + 1 < m"
    using cons.prems(2) unfolding j m by simp_all
  have "pValue m d (encodeJson x @ CHR '','' # ?r) = Some (x, CHR '','' # ?r)"
    using cons.prems(1) l(1) by simp
  moreover have "pElems m d ?r = Some (xs, t)" by (rule cons.IH) (use cons.prems l in auto)
  ultimately show ?case unfolding m j by (simp add: expect_Cons pElems.simps)
qed

definition member :: "string \<times> json \<Rightarrow> string" where
  "member kv = (case kv of (k, v) \<Rightarrow> quoted k @ CHR '':'' # encodeJson v)"

lemma pMembers_encode:
  assumes "kvs \<noteq> []" "\<And>k x n t. (k, x) \<in> set kvs \<Longrightarrow> boundary t \<Longrightarrow> 2 * length (encodeJson x @ t) < n \<Longrightarrow>
      pValue n d (encodeJson x @ t) = Some (x, t)" "\<And>k x. (k, x) \<in> set kvs \<Longrightarrow> validUTF8 k"
    and "2 * length (joinWith (CHR '','') (map member kvs) @ CHR ''}'' # t) < n"
  shows "pMembers n d (joinWith (CHR '','') (map member kvs) @ CHR ''}'' # t) = Some (kvs, t)"
  using assms
proof (induction kvs arbitrary: n rule: list_nonempty_induct)
  case (single kv)
  obtain k x where kv: "kv = (k, x)" by (cases kv)
  obtain m where m: "n = Suc m" using single by (cases n) auto
  have "pValue m d (encodeJson x @ CHR ''}'' # t) = Some (x, CHR ''}'' # t)"
    using single kv m by (simp add: member_def quoted_def)
  then show ?case
    using single kv m unquote_escape [of k] by (simp add: expect_Cons pMembers.simps member_def quoted_def)
next
  case (cons kv kvs)
  obtain k x where kv: "kv = (k, x)" by (cases kv)
  obtain m where m: "n = Suc m" using cons by (cases n) auto
  let ?r = "joinWith (CHR '','') (map member kvs) @ CHR ''}'' # t"
  have j: "joinWith (CHR '','') (map member (kv # kvs)) @ CHR ''}'' # t
      = quote # escape k @ quote # CHR '':'' # encodeJson x @ CHR '','' # ?r"
    using cons.hyps by (simp add: joinWith_Cons kv member_def quoted_def)
  have l: "2 * length (encodeJson x @ CHR '','' # ?r) < m" "2 * length ?r < m"
    using cons.prems(3) unfolding j m by simp_all
  have "pValue m d (encodeJson x @ CHR '','' # ?r) = Some (x, CHR '','' # ?r)"
    using cons.prems(1) [of k x] kv l(1) by simp
  moreover have "pMembers m d ?r = Some (kvs, t)"
    by (rule cons.IH) (use cons.prems l kv in \<open>auto intro: cons.prems(2)\<close>)
  moreover have "validUTF8 k" using cons.prems(2) [of k x] kv by simp
  ultimately show ?case
    unfolding m j by (simp add: expect_Cons pMembers.simps unquote_escape kv)
qed

lemma pValue_literals:
  "pValue (Suc n) d (''null'' @ t) = Some (JNull, t)"
  "pValue (Suc n) d (''true'' @ t) = Some (JBool True, t)"
  "pValue (Suc n) d (''false'' @ t) = Some (JBool False, t)"
  by (simp_all add: pValue.simps skip_Cons jsonSpace_def quote_def)

lemma pValue_encode:
  "json_ok d v \<Longrightarrow> boundary t \<Longrightarrow> 2 * length (encodeJson v @ t) < n \<Longrightarrow>
     pValue n d (encodeJson v @ t) = Some (v, t)"
proof (induction v arbitrary: d t n)
  case JNull
  then show ?case using pValue_literals(1) by (cases n) auto
next
  case (JBool b)
  then show ?case using pValue_literals(2,3) by (cases n; cases b) auto
next
  case (JNum l)
  obtain m where m: "n = Suc m" using JNum.prems by (cases n) auto
  have "numLit l" using JNum.prems by simp
  then obtain c cs where c: "l = c # cs" "c = CHR ''-'' \<or> isDigit c" by (rule numLit_headE)
  have "pNumber (l @ t) = Some (l, t)"
    using pNumber_append [of l l "[]" t] JNum.prems by (simp add: numLit_def)
  then show ?case using c number_char [OF c(2)] by (simp add: m pValue.simps skip_Cons)
next
  case (JStr s)
  obtain m where m: "n = Suc m" using JStr.prems by (cases n) auto
  have "quote \<noteq> CHR ''{''" "quote \<noteq> CHR ''[''" by (simp_all add: quote_def)
  then show ?case using JStr.prems by (simp add: m pValue.simps skip_Cons quoted_def unquote_escape)
next
  case (JArr xs)
  obtain m where m: "n = Suc m" using JArr.prems by (cases n) auto
  note b = pValue_bracket [where c = "CHR ''[''" and n = m and d = d, OF skip_Cons]
  show ?case
  proof (cases xs)
    case Nil
    then show ?thesis using JArr.prems by (simp add: m b expect_Cons)
  next
    case (Cons x ys)
    let ?r = "joinWith (CHR '','') (map encodeJson xs) @ CHR '']'' # t"
    have "pElems m (d - 1) ?r = Some (xs, t)"
      using Cons JArr.prems by (intro pElems_encode JArr.IH) (auto simp: m list_all_iff)
    moreover obtain c cs where c: "encodeJson x = c # cs" "\<not> jsonSpace c" "c \<noteq> CHR '']''"
      using encodeJson_head [of "d - 1" x] JArr.prems Cons by auto
    then have "expect (CHR '']'') ?r = None"
      using Cons by (simp add: joinWith_head expect_Cons)
    ultimately show ?thesis using JArr.prems by (simp add: m b)
  qed
next
  case (JObj kvs)
  obtain m where m: "n = Suc m" using JObj.prems by (cases n) auto
  have mem: "(\<lambda>(k, v). quoted k @ CHR '':'' # encodeJson v) = member" by (auto simp: member_def)
  note b = pValue_bracket [where c = "CHR ''{''" and n = m and d = d, OF skip_Cons]
  show ?case
  proof (cases kvs)
    case Nil
    then show ?thesis using JObj.prems by (simp add: m b expect_Cons)
  next
    case (Cons kv ys)
    let ?r = "joinWith (CHR '','') (map member kvs) @ CHR ''}'' # t"
    have "pMembers m (d - 1) ?r = Some (kvs, t)"
      using Cons JObj.prems by (intro pMembers_encode JObj.IH) (auto simp: m list_all_iff mem)
    moreover have "expect (CHR ''}'') ?r = None"
      using Cons by (cases kv) (simp add: member_def quoted_def joinWith_head expect_Cons quote_def jsonSpace_def)
    ultimately show ?thesis using JObj.prems by (simp add: m b mem)
  qed
qed

text \<open>Decoding what was encoded gives the value back.\<close>

lemma parse_encode: "json_ok maxNestingDepth v \<Longrightarrow> parseJson (encodeJson v) = Some v"
  using pValue_encode [of maxNestingDepth v "[]" "2 * length (encodeJson v) + 1"]
  by (simp add: parseJson_def parseFirst_def boundary_def skip_def)

end
