(* ===== verification/LeaderFeed.thy ===== *)
theory LeaderFeed
  imports Server Tracker JsonFacts
begin

text \<open>
  The path of a leader from bigbrain to usher: the bytes \<open>handleLeaderStream\<close> writes
  (\<open>leaderFrame\<close>, \<open>keepaliveFrame\<close> of \<open>server/server.go\<close>), read back line by line by
  \<open>consumeStream\<close> of \<open>usher/main.go\<close>. Events
  are encoded and decoded by the JSON codec; the lemmas on lines hold for any codec that is
  right on the events sent.
\<close>

section \<open>Frames on the wire\<close>

definition newline :: char where "newline = CHR 0x0A"

definition keepaliveFrame :: string where
  "keepaliveFrame = '': keepalive'' @ [newline, newline]"

definition leaderFrame :: "(LeaderEvent \<Rightarrow> string) \<Rightarrow> LeaderEvent \<Rightarrow> string" where
  "leaderFrame enc ev = ''event: leader'' @ [newline] @ ''data: '' @ enc ev @ [newline, newline]"

fun frameBytes :: "(LeaderEvent \<Rightarrow> string) \<Rightarrow> streamFrame \<Rightarrow> string" where
  "frameBytes enc (LeaderFrame ev) = leaderFrame enc ev"
| "frameBytes enc KeepaliveFrame = keepaliveFrame"

definition streamBytes :: "(LeaderEvent \<Rightarrow> string) \<Rightarrow> streamFrame list \<Rightarrow> string" where
  "streamBytes enc fs = concat (map (frameBytes enc) fs)"

text \<open>The fields a \<open>leaderResponse\<close> shares with a \<open>LeaderEvent\<close>, matched by their JSON names.\<close>

definition wire :: "LeaderEvent \<Rightarrow> leaderResponse" where
  "wire ev = \<lparr>lr_LeaderURL = LeaderURL ev, lr_Seq = Seq ev, lr_Epoch = Epoch ev\<rparr>"

text \<open>
  What the feed needs of an encoder and a decoder for one event: the encoding is decoded to the
  same fields, holds no raw line break and fits the scanner's buffer.
\<close>

definition codec :: "(LeaderEvent \<Rightarrow> string) \<Rightarrow> (string \<Rightarrow> leaderResponse option) \<Rightarrow> LeaderEvent \<Rightarrow> bool" where
  "codec enc decode ev =
     (decode (enc ev) = Some (wire ev) \<and> newline \<notin> set (enc ev) \<and> CHR 0x0D \<notin> set (enc ev)
      \<and> length (enc ev) + 6 < streamBufferMax)"

section \<open>The codec\<close>

text \<open>\<open>json.Marshal\<close> on a \<open>LeaderEvent\<close>: the fields in the order of the struct.\<close>

definition eventJson :: "LeaderEvent \<Rightarrow> json" where
  "eventJson ev = JObj
     [(''name'', JStr (Name ev)), (''leaderPod'', JStr (LeaderPod ev)), (''leaderUrl'', JStr (LeaderURL ev)),
      (''seq'', JNum (FormatUint (Seq ev))), (''epoch'', JNum (FormatUint (Epoch ev)))]"

definition encodeLeader :: "LeaderEvent \<Rightarrow> string" where
  "encodeLeader ev = encodeJson (eventJson ev)"

text \<open>Decoding into a \<open>leaderResponse\<close>, from a whole text and from the start of a body.\<close>

definition leaderFields :: "leaderResponse field list" where
  "leaderFields =
     [(''leaderUrl'', \<lambda>v r. map_option (\<lambda>u. r\<lparr>lr_LeaderURL := u\<rparr>) (decodeString v (lr_LeaderURL r))),
      (''seq'', \<lambda>v r. map_option (\<lambda>n. r\<lparr>lr_Seq := n\<rparr>) (decodeUint v (lr_Seq r))),
      (''epoch'', \<lambda>v r. map_option (\<lambda>n. r\<lparr>lr_Epoch := n\<rparr>) (decodeUint v (lr_Epoch r)))]"

definition decodeLeader :: "string \<Rightarrow> leaderResponse option" where
  "decodeLeader s = do { v \<leftarrow> parseJson s; decodeStruct False leaderFields v noResponse }"

definition decodeLeaderBody :: "string \<Rightarrow> leaderResponse option" where
  "decodeLeaderBody s = do { (v, r) \<leftarrow> parseFirst s; decodeStruct False leaderFields v noResponse }"

definition validEvent :: "LeaderEvent \<Rightarrow> bool" where
  "validEvent ev = (validUTF8 (Name ev) \<and> validUTF8 (LeaderPod ev) \<and> validUTF8 (LeaderURL ev))"

lemma field_names:
  "foldName ''name'' = ''NAME''" "foldName ''leaderPod'' = ''LEADERPOD''" "foldName ''leaderUrl'' = ''LEADERURL''"
  "foldName ''seq'' = ''SEQ''" "foldName ''epoch'' = ''EPOCH''"
  by code_simp+

lemma ParseUint_Format [simp]: "ParseUint (FormatUint w) = Some w"
  using unsigned_less [of w] by (simp add: ParseUint_def FormatUint_def)

lemma decode_eventJson: "decodeStruct False leaderFields (eventJson ev) noResponse = Some (wire ev)"
  by (simp add: decodeStruct_def eventJson_def leaderFields_def field_names decodeString_def decodeUint_def
      noResponse_def wire_def)

lemma ascii_names: "validUTF8 ''name''" "validUTF8 ''leaderPod''" "validUTF8 ''leaderUrl''" "validUTF8 ''seq''"
    "validUTF8 ''epoch''"
  by code_simp+

lemma eventJson_ok: "validEvent ev \<Longrightarrow> 0 < d \<Longrightarrow> json_ok d (eventJson ev)"
  by (simp add: eventJson_def validEvent_def FormatUint_def numLit_formatNat ascii_names)

lemma FormatUint_printable: "c \<in> set (FormatUint w) \<Longrightarrow> 32 \<le> (of_char c :: nat)"
  using formatNat_digits [of "unat w"] by (auto simp: FormatUint_def list_all_iff isDigit_def)

lemma quoted_printable: "c \<in> set (quoted s) \<Longrightarrow> 32 \<le> (of_char c :: nat)"
  using escape_printable [of c s] by (auto simp: quoted_def quote_def)

lemma encodeLeader_printable: "c \<in> set (encodeLeader ev) \<Longrightarrow> 32 \<le> (of_char c :: nat)"
  by (auto simp: encodeLeader_def eventJson_def dest: quoted_printable FormatUint_printable)

lemma codec_leader:
  assumes "validEvent ev" "length (encodeLeader ev) + 6 < streamBufferMax"
  shows "codec encodeLeader decodeLeader ev"
proof -
  have "decodeLeader (encodeLeader ev) = Some (wire ev)"
    using parse_encode [OF eventJson_ok [OF assms(1)]] decode_eventJson
    by (simp add: decodeLeader_def encodeLeader_def maxNestingDepth_def)
  moreover have "newline \<notin> set (encodeLeader ev)" "CHR 0x0D \<notin> set (encodeLeader ev)"
    using encodeLeader_printable [of newline ev] encodeLeader_printable [of "CHR 0x0D" ev]
    by (auto simp: newline_def)
  ultimately show ?thesis using assms(2) by (simp add: codec_def)
qed

section \<open>Lines of a stream\<close>

fun frameLines :: "(LeaderEvent \<Rightarrow> string) \<Rightarrow> streamFrame \<Rightarrow> string list" where
  "frameLines enc (LeaderFrame ev) = [''event: leader'', ''data: '' @ enc ev, '''']"
| "frameLines enc KeepaliveFrame = ['': keepalive'', '''']"

lemma splitLines_line: "newline \<notin> set l \<Longrightarrow> splitLines cur (l @ newline # s) = (rev cur @ l) # splitLines [] s"
  by (induction l arbitrary: cur) (auto simp: newline_def)

lemma splitLines_empty: "splitLines [] (newline # s) = [] # splitLines [] s"
  using splitLines_line [of "[]" "[]" s] by simp

lemma splitLines_two:
  "newline \<notin> set a \<Longrightarrow> newline \<notin> set b \<Longrightarrow>
     splitLines [] (a @ newline # b @ newline # newline # s) = [a, b, ''''] @ splitLines [] s"
  by (simp add: splitLines_line splitLines_empty del: splitLines.simps)

lemma splitLines_one:
  "newline \<notin> set a \<Longrightarrow> splitLines [] (a @ newline # newline # s) = [a, ''''] @ splitLines [] s"
  by (simp add: splitLines_line splitLines_empty del: splitLines.simps)

lemma splitLines_frame:
  assumes "\<And>ev. f = LeaderFrame ev \<Longrightarrow> codec enc decode ev"
  shows "splitLines [] (frameBytes enc f @ s) = frameLines enc f @ splitLines [] s"
proof (cases f)
  case (LeaderFrame ev)
  have a: "newline \<notin> set ''event: leader''" and b: "newline \<notin> set (''data: '' @ enc ev)"
    using assms [OF LeaderFrame] by (simp_all add: codec_def newline_def)
  have e: "frameBytes enc f @ s = ''event: leader'' @ newline # (''data: '' @ enc ev) @ newline # newline # s"
    using LeaderFrame by (simp add: leaderFrame_def)
  have "frameLines enc f = [''event: leader'', ''data: '' @ enc ev, '''']" using LeaderFrame by simp
  then show ?thesis unfolding e using splitLines_two [OF a b] by (simp only:)
next
  case KeepaliveFrame
  have a: "newline \<notin> set '': keepalive''" by (simp add: newline_def)
  have e: "frameBytes enc f @ s = '': keepalive'' @ newline # newline # s"
    using KeepaliveFrame by (simp add: keepaliveFrame_def)
  have "frameLines enc f = ['': keepalive'', '''']" using KeepaliveFrame by simp
  then show ?thesis unfolding e using splitLines_one [OF a] by (simp only:)
qed

lemma splitLines_stream:
  "(\<forall>ev \<in> set (leaderEvents fs). codec enc decode ev) \<Longrightarrow>
     splitLines [] (streamBytes enc fs) = concat (map (frameLines enc) fs)"
proof (induction fs)
  case (Cons f fs)
  have "codec enc decode ev" if "f = LeaderFrame ev" for ev using Cons.prems that by simp
  moreover have "\<forall>ev \<in> set (leaderEvents fs). codec enc decode ev"
    using Cons.prems by (cases f) auto
  ultimately show ?case
    using Cons.IH splitLines_frame [of f enc decode "streamBytes enc fs"] by (simp add: streamBytes_def)
qed (simp add: streamBytes_def)

text \<open>No line of a well-formed frame is cut or changed by the scanner.\<close>

definition plainLine :: "string \<Rightarrow> bool" where
  "plainLine l = (length l < streamBufferMax \<and> CHR 0x0D \<notin> set l)"

lemma dropCR_plain: "CHR 0x0D \<notin> set l \<Longrightarrow> dropCR l = l"
  by (auto simp: dropCR_def dest: last_in_set)

lemma frameLines_plain:
  "(\<And>ev. f = LeaderFrame ev \<Longrightarrow> codec enc decode ev) \<Longrightarrow> \<forall>l \<in> set (frameLines enc f). plainLine l"
  by (cases f) (auto simp: plainLine_def codec_def streamBufferMax_def)

lemma plain_lines:
  "\<forall>l \<in> set ls. plainLine l \<Longrightarrow> map dropCR (takeWhile (\<lambda>l. length l < streamBufferMax) ls) = ls"
  by (induction ls) (simp_all add: plainLine_def dropCR_plain)

lemma scanLines_stream:
  assumes "\<forall>ev \<in> set (leaderEvents fs). codec enc decode ev"
  shows "scanLines (streamBytes enc fs) = concat (map (frameLines enc) fs)"
proof -
  have c: "codec enc decode ev" if "LeaderFrame ev \<in> set fs" for ev
    using assms that by (induction fs rule: leaderEvents.induct) auto
  have "plainLine l" if "f \<in> set fs" "l \<in> set (frameLines enc f)" for f l
    using frameLines_plain [of f enc decode] c that by blast
  then have "\<forall>l \<in> set (concat (map (frameLines enc) fs)). plainLine l" by auto
  then show ?thesis
    unfolding scanLines_def splitLines_stream [OF assms] by (rule plain_lines)
qed

lemma frame_lineEvent:
  "l \<in> set (frameLines enc f) \<Longrightarrow> (\<And>ev. f = LeaderFrame ev \<Longrightarrow> codec enc decode ev) \<Longrightarrow>
     lineEvent decode l = None
     \<or> (\<exists>ev. f = LeaderFrame ev \<and> l = ''data: '' @ enc ev \<and> lineEvent decode l = Some (wire ev))"
  by (cases f) (auto simp: lineEvent_def codec_def CutPrefix_def)

lemma stream_lineEvent:
  assumes "l \<in> set (concat (map (frameLines enc) fs))" "\<forall>ev \<in> set (leaderEvents fs). codec enc decode ev"
  shows "lineEvent decode l = None
     \<or> (\<exists>ev \<in> set (leaderEvents fs). lineEvent decode l = Some (wire ev))"
  using assms
proof (induction fs)
  case (Cons f fs)
  have le: "set (leaderEvents fs) \<subseteq> set (leaderEvents (f # fs))" by (cases f) auto
  then have sub: "\<forall>ev \<in> set (leaderEvents fs). codec enc decode ev"
    using Cons.prems(2) by blast
  show ?case
  proof (cases "l \<in> set (frameLines enc f)")
    case True
    have "lineEvent decode l = None
      \<or> (\<exists>ev. f = LeaderFrame ev \<and> l = ''data: '' @ enc ev \<and> lineEvent decode l = Some (wire ev))"
      by (rule frame_lineEvent [OF True]) (use Cons.prems(2) in simp)
    then show ?thesis
    proof
      assume "\<exists>ev. f = LeaderFrame ev \<and> l = ''data: '' @ enc ev \<and> lineEvent decode l = Some (wire ev)"
      then obtain ev where "f = LeaderFrame ev" "lineEvent decode l = Some (wire ev)" by blast
      then show ?thesis by simp
    qed (rule disjI1)
  next
    case False
    then have "l \<in> set (concat (map (frameLines enc) fs))" using Cons.prems(1) by auto
    from Cons.IH [OF this sub] le show ?thesis by blast
  qed
qed simp

lemma stream_data_line:
  assumes "ev \<in> set (leaderEvents fs)" "\<forall>ev \<in> set (leaderEvents fs). codec enc decode ev"
  shows "''data: '' @ enc ev \<in> set (concat (map (frameLines enc) fs))
    \<and> lineEvent decode (''data: '' @ enc ev) = Some (wire ev)"
proof -
  have "codec enc decode ev" using assms by blast
  then have "lineEvent decode (''data: '' @ enc ev) = Some (wire ev)"
    by (simp add: lineEvent_def codec_def CutPrefix_def)
  then show ?thesis using assms(1) by (induction fs rule: leaderEvents.induct) auto
qed

section \<open>From the registry to the forwarding target\<close>

text \<open>
  The lines of a session that is up to date, read by a tracker of the same epoch that is not
  ahead of the registry, leave the tracker at the registry's current state.
\<close>

lemma lines_catch_up:
  assumes codec: "\<forall>ev \<in> set (leaderEvents fs). codec enc decode ev"
    and url: "\<forall>ev \<in> set (leaderEvents fs). usableURL parse (LeaderURL ev)"
    and o: "ordered r n fs" and last: "fst (Leader r n) \<in> set (leaderEvents fs)"
    and ep: "lastEpoch t = epoch r"
    and behind: "unat (lastAppliedSeq t) \<le> currentSeq r n
      \<and> (unat (lastAppliedSeq t) = currentSeq r n \<longrightarrow> curURL t = LeaderURL (fst (Leader r n)))"
  shows "(let t' = foldl (handleStreamLine parse decode) t (scanLines (streamBytes enc fs)) in
      curURL t' = LeaderURL (fst (Leader r n)) \<and> lastAppliedSeq t' = Seq (fst (Leader r n)))"
proof -
  let ?ls = "concat (map (frameLines enc) fs)" and ?m = "fst (Leader r n)"
  let ?t' = "foldl (handleStreamLine parse decode) t ?ls"
  have ev: "lineEvent decode l = None \<or> (\<exists>ev \<in> set (leaderEvents fs). lineEvent decode l = Some (wire ev))"
    if "l \<in> set ?ls" for l using stream_lineEvent [OF that codec] .
  have acc: "list_all (lineAcceptable parse decode t) ?ls"
    unfolding list_all_iff
  proof
    fix l assume "l \<in> set ?ls"
    from ev [OF this] show "lineAcceptable parse decode t l"
      using url o ep by (auto simp: lineAcceptable_def wire_def ordered_def)
  qed
  have m: "''data: '' @ enc ?m \<in> set ?ls" "lineEvent decode (''data: '' @ enc ?m) = Some (wire ?m)"
    using stream_data_line [OF last codec] by simp_all
  have ms: "lineSeq decode (''data: '' @ enc ?m) = currentSeq r n"
    "lineURL decode (''data: '' @ enc ?m) = LeaderURL ?m"
    using m(2) by (simp_all add: lineSeq_def lineURL_def wire_def currentSeq_def)
  have le: "lineSeq decode l \<le> currentSeq r n
      \<and> (lineSeq decode l = currentSeq r n \<longrightarrow> lineSeq decode l = 0 \<or> lineURL decode l = LeaderURL ?m)"
    if "l \<in> set ?ls" for l
    using ev [OF that] o by (auto simp: lineSeq_def lineURL_def wire_def ordered_def)
  have "unat (lastAppliedSeq ?t') = currentSeq r n \<and> curURL ?t' = LeaderURL ?m"
  proof (cases "unat (lastAppliedSeq t) < currentSeq r n")
    case True
    then show ?thesis
      using line_feed.feed_latest [OF acc m(1)] le ms by auto
  next
    case False
    then show ?thesis
      using line_feed.feed_old [OF acc] le behind by auto
  qed
  then show ?thesis
    unfolding scanLines_stream [OF codec] by (simp add: Let_def currentSeq_def word_unat_eq_iff)
qed

text \<open>
  C2: the leader bigbrain has published reaches the router. Take any leader-stream session
  against any reachable registry, interleaved with any publications, that has nothing left to
  send, and any tracker of the same epoch that is not ahead of the registry: after reading the
  bytes of the stream the tracker's leader and version are the registry's current ones, so API
  requests are forwarded to that leader (or to none, if the registry has none).
\<close>

theorem leader_reaches_router:
  assumes "registry_reachable r" and "openLeaderStream r n False = (r0, StreamOpen c)"
    and "session r0 n c Headers as = (r1, Following, fs)"
    and "unat (Seq (fst (Leader r n))) + publications as < 2 ^ 64"
    and "recv r1 c = None" and "Published r1 n"
    and "\<forall>ev \<in> set (leaderEvents fs). validEvent ev
      \<and> length (encodeLeader ev) + 6 < streamBufferMax \<and> usableURL parse (LeaderURL ev)"
    and "tracker_inv parse t" and "lastEpoch t = epoch r1"
    and "lastAppliedSeq t < Seq (fst (Leader r1 n))
      \<or> lastAppliedSeq t = Seq (fst (Leader r1 n)) \<and> curURL t = LeaderURL (fst (Leader r1 n))"
  shows "(let t' = foldl (handleStreamLine parse decodeLeader) t (scanLines (streamBytes encodeLeader fs)) in
      curURL t' = LeaderURL (fst (Leader r1 n)) \<and> lastAppliedSeq t' = Seq (fst (Leader r1 n))
      \<and> currentLeader t' False = parsedURL parse (LeaderURL (fst (Leader r1 n))))"
proof -
  have start: "session_ok r0 n c Headers []"
    by (rule open_session_ok [OF reachable_reg_inv [OF assms(1)] assms(2)])
  have "Subscribe r n = Some (r0, c)"
    using assms(2) by (auto simp: openLeaderStream_def split: option.splits)
  then have "Leader r0 n = Leader r n"
    by (intro Leader_cong) (auto simp: Subscribe_def Let_def split: if_splits)
  then have o: "ordered r1 n fs"
    using session_ordered [OF start _ _ assms(3)] assms(4) by (simp add: ordered_def eventSeqs_def currentSeq_def)
  have "session_ok r1 n c Following fs" using session_keeps_ok [OF start assms(3)] by simp
  then have last: "fst (Leader r1 n) \<in> set (leaderEvents fs)"
    using assms(5,6) subscribed_pending [of r1 c n] last_in_set
    by (fastforce simp: session_ok_def caught_up_def)
  have behind: "unat (lastAppliedSeq t) \<le> currentSeq r1 n
      \<and> (unat (lastAppliedSeq t) = currentSeq r1 n \<longrightarrow> curURL t = LeaderURL (fst (Leader r1 n)))"
    using assms(10) by (auto simp: currentSeq_def word_less_nat_alt)
  let ?t' = "foldl (handleStreamLine parse decodeLeader) t (scanLines (streamBytes encodeLeader fs))"
  have "tracker_inv parse ?t'"
    using foldl_inv [of "tracker_inv parse" "handleStreamLine parse decodeLeader"] handleStreamLine_inv assms(8)
    by blast
  then show ?thesis
    using lines_catch_up [OF _ _ o last assms(9) behind, of encodeLeader decodeLeader parse] assms(7) codec_leader
    by (simp add: Let_def tracker_inv_def currentLeader_def)
qed

text \<open>A tracker that polled before the sample session.\<close>

definition samplePolled :: tracker where
  "samplePolled = resolveOnce sampleParse (\<lambda>_. Inr (200, '''') :: string + int \<times> string)
     (\<lambda>_. Some \<lparr>lr_LeaderURL = ''http://a:3210'', lr_Seq = 1, lr_Epoch = 1\<rparr>) sampleTracker False"

lemma samplePolled_inv: "tracker_inv sampleParse samplePolled"
  unfolding samplePolled_def sampleTracker_def by (rule resolveOnce_inv) simp

lemma sample_session_facts:
  "case session sampleOpened ''dev'' 0 Headers sampleActs of (r1, p, fs) \<Rightarrow>
     p = Following \<and> recv r1 0 = None \<and> Published r1 ''dev'' \<and> epoch r1 = 1
     \<and> leaderEvents fs =
         [\<lparr>Name = ''dev'', LeaderPod = ''backend-0'', LeaderURL = ''http://a:3210'', Seq = 1, Epoch = 1\<rparr>,
          \<lparr>Name = ''dev'', LeaderPod = ''backend-1'', LeaderURL = ''http://b:3210'', Seq = 2, Epoch = 1\<rparr>]
     \<and> Seq (fst (Leader r1 ''dev'')) = 2
     \<and> LeaderURL (fst (Leader r1 ''dev'')) = ''http://b:3210''"
  by code_simp

lemma samplePolled_state: "lastEpoch samplePolled = 1 \<and> lastAppliedSeq samplePolled = 1"
  by (simp add: samplePolled_def resolveOnce_def queryBigbrain_def applyLeader_usable applyParsed_def
      usableURL_def sampleParse_def CutPrefix_def sampleTracker_def newTracker_def Let_def)

lemma sample_texts: "validUTF8 ''dev''" "validUTF8 ''backend-0''" "validUTF8 ''backend-1''"
    "validUTF8 ''http://a:3210''" "validUTF8 ''http://b:3210''"
  by code_simp+

lemma sample_lengths:
  "length (encodeLeader \<lparr>Name = ''dev'', LeaderPod = ''backend-0'', LeaderURL = ''http://a:3210'', Seq = 1, Epoch = 1\<rparr>) + 6
     < streamBufferMax"
  "length (encodeLeader \<lparr>Name = ''dev'', LeaderPod = ''backend-1'', LeaderURL = ''http://b:3210'', Seq = 2, Epoch = 1\<rparr>) + 6
     < streamBufferMax"
proof -
  have "length (encodeLeader \<lparr>Name = ''dev'', LeaderPod = ''backend-0'', LeaderURL = ''http://a:3210'', Seq = 1, Epoch = 1\<rparr>) < 100"
    "length (encodeLeader \<lparr>Name = ''dev'', LeaderPod = ''backend-1'', LeaderURL = ''http://b:3210'', Seq = 2, Epoch = 1\<rparr>) < 100"
    by code_simp+
  then show
    "length (encodeLeader \<lparr>Name = ''dev'', LeaderPod = ''backend-0'', LeaderURL = ''http://a:3210'', Seq = 1, Epoch = 1\<rparr>) + 6
       < streamBufferMax"
    "length (encodeLeader \<lparr>Name = ''dev'', LeaderPod = ''backend-1'', LeaderURL = ''http://b:3210'', Seq = 2, Epoch = 1\<rparr>) + 6
       < streamBufferMax"
    by (simp_all add: streamBufferMax_def)
qed

theorem leader_reaches_router_witness:
  "case session sampleOpened ''dev'' 0 Headers sampleActs of (r1, p, fs) \<Rightarrow>
     curURL (foldl (handleStreamLine sampleParse decodeLeader) samplePolled
       (scanLines (streamBytes encodeLeader fs))) = ''http://b:3210''"
proof -
  obtain r1 p fs where s: "session sampleOpened ''dev'' 0 Headers sampleActs = (r1, p, fs)"
    by (cases "session sampleOpened ''dev'' 0 Headers sampleActs")
  have f: "p = Following" "recv r1 0 = None" "Published r1 ''dev''"
    "lastEpoch samplePolled = epoch r1" "lastAppliedSeq samplePolled < Seq (fst (Leader r1 ''dev''))"
    "LeaderURL (fst (Leader r1 ''dev'')) = ''http://b:3210''"
    using sample_session_facts s samplePolled_state by simp_all
  have small: "unat (Seq (fst (Leader sampleRegistry ''dev''))) + publications sampleActs < 2 ^ 64"
    by (simp add: sample_defs sampleActs_def)
  have codecs: "\<forall>ev \<in> set (leaderEvents fs). validEvent ev
      \<and> length (encodeLeader ev) + 6 < streamBufferMax \<and> usableURL sampleParse (LeaderURL ev)"
    using sample_session_facts s sample_lengths
    by (simp add: validEvent_def sample_texts usableURL_def sampleParse_def CutPrefix_def)
  show ?thesis
    using leader_reaches_router [OF sample_reachable(1) sampleOpened_eq s [unfolded f(1)] small f(2,3)
        codecs samplePolled_inv f(4) disjI1 [OF f(5)]] s f(6)
    by (simp add: Let_def)
qed

section \<open>Polling\<close>

text \<open>\<open>writeJSON\<close> and \<open>writeErr\<close>: the encoder ends a value with a line break.\<close>

fun replyBody :: "payload \<Rightarrow> string" where
  "replyBody OkText = ''ok''"
| "replyBody (ErrorMessage m) = encodeJson (JObj [(''error'', JStr m)]) @ [newline]"
| "replyBody (LeaderPayload ev) = encodeLeader ev @ [newline]"

lemma decode_reply: "validEvent ev \<Longrightarrow> decodeLeaderBody (replyBody (LeaderPayload ev)) = Some (wire ev)"
proof -
  assume "validEvent ev"
  then have ok: "json_ok maxNestingDepth (eventJson ev)" by (simp add: eventJson_ok maxNestingDepth_def)
  have "boundary [newline]" by (simp add: boundary_def newline_def isDigit_def)
  from pValue_encode [OF ok this] show ?thesis
    using decode_eventJson by (simp add: decodeLeaderBody_def parseFirst_def encodeLeader_def)
qed

lemma poll_query:
  assumes "registry_reachable r" and "handleGetLeader r n = (code, reply)"
    and "http (leaderURLof t) = Inr (code, replyBody reply)" and "length (replyBody reply) \<le> bodyReadLimit"
    and "validEvent (fst (Leader r n))"
  shows "queryBigbrain http decodeLeaderBody t = (if Published r n then Some (wire (fst (Leader r n))) else None)"
proof (cases "Published r n")
  case False
  then have "code \<noteq> 200 \<and> code \<noteq> 503"
    using assms(2) leader_reply [OF assms(1), of n] by (auto split: if_splits)
  then show ?thesis using assms(3) False by (simp add: queryBigbrain_def)
next
  case True
  have ep: "Epoch (fst (Leader r n)) \<noteq> 0"
    using leader_reply [OF assms(1), of n] by (simp add: Leader_def split: option.splits)
  have "Namespace r n \<noteq> None" using True by (auto simp: Published_def Namespace_def split: option.splits)
  then have reply: "reply = LeaderPayload (fst (Leader r n))"
    "code = (if LeaderURL (fst (Leader r n)) = '''' then 503 else 200)"
    using assms(2) leader_reply [OF assms(1), of n] True by (auto split: if_splits)
  have "decodeLeaderBody (take bodyReadLimit (replyBody reply)) = Some (wire (fst (Leader r n)))"
    using decode_reply [OF assms(5)] reply(1) assms(4) by simp
  then show ?thesis using assms(3) reply ep True by (simp add: queryBigbrain_def wire_def)
qed

text \<open>
  A poll makes the router agree with bigbrain. Against any reachable registry, a poll that
  bigbrain answers leaves the tracker alone while the deployment is not published; otherwise, if
  the registry is newer than the tracker (another epoch, as after a restart of bigbrain, or a
  higher version), the tracker holds the registry's leader, epoch and version afterwards, and
  forwards to this leader or, when there is none, to nobody.
\<close>

theorem poll_adopts_leader:
  assumes "registry_reachable r" and "handleGetLeader r n = (code, reply)"
    and "http (leaderURLof t) = Inr (code, replyBody reply)" and "length (replyBody reply) \<le> bodyReadLimit"
    and "ev = fst (Leader r n)" and "validEvent ev" and "usableURL parse (LeaderURL ev)"
    and "tracker_inv parse t" and "Seq ev \<noteq> 0" and "lastEpoch t \<noteq> epoch r \<or> lastAppliedSeq t < Seq ev"
  shows "(let t' = resolveOnce parse http decodeLeaderBody t canceled in
      if Published r n
      then curURL t' = LeaderURL ev \<and> lastEpoch t' = epoch r \<and> lastAppliedSeq t' = Seq ev \<and> resolved t'
        \<and> currentLeader t' False = parsedURL parse (LeaderURL ev)
      else curURL t' = curURL t \<and> resolved t' = resolved t \<and> currentLeader t' False = currentLeader t False)"
proof -
  have q: "queryBigbrain http decodeLeaderBody t = (if Published r n then Some (wire ev) else None)"
    using poll_query [where http = http, OF assms(1-4)] assms(5,6) by simp
  have ep: "Epoch ev = epoch r"
    using assms(5) by (simp add: Leader_def split: option.splits)
  let ?t = "resolveOnce parse http decodeLeaderBody t canceled"
  have inv: "tracker_inv parse ?t" by (rule resolveOnce_inv [OF assms(8)])
  have "Published r n \<Longrightarrow> curURL ?t = LeaderURL ev \<and> lastEpoch ?t = epoch r \<and> lastAppliedSeq ?t = Seq ev \<and> resolved ?t"
    using q assms(7,9,10) ep
    by (auto simp: resolveOnce_def applyLeader_usable applyParsed_def wire_def Let_def not_le split: if_splits)
  moreover have "currentLeader ?t False = parsedURL parse (curURL ?t)" using inv by (simp add: tracker_inv_def currentLeader_def)
  moreover have "\<not> Published r n \<Longrightarrow> curURL ?t = curURL t \<and> resolved ?t = resolved t \<and> currentLeader ?t False = currentLeader t False"
    using q by (simp add: resolveOnce_def currentLeader_def)
  ultimately show ?thesis by (cases "Published r n") (simp_all only: Let_def if_True if_False simp_thms)
qed

theorem poll_adopts_leader_witness:
  "curURL (resolveOnce sampleParse (\<lambda>_. Inr (200, replyBody (LeaderPayload (fst (Leader sampleUpdated ''dev'')))))
      decodeLeaderBody sampleTracker False) = LeaderURL (fst (Leader sampleUpdated ''dev''))"
proof -
  have ev: "validEvent (fst (Leader sampleUpdated ''dev''))" "Seq (fst (Leader sampleUpdated ''dev'')) \<noteq> 0"
    "usableURL sampleParse (LeaderURL (fst (Leader sampleUpdated ''dev'')))"
    "Published sampleUpdated ''dev''" "epoch sampleUpdated \<noteq> 0"
    "LeaderURL (fst (Leader sampleUpdated ''dev'')) \<noteq> ''''"
    "Namespace sampleUpdated ''dev'' \<noteq> None"
    "length (replyBody (LeaderPayload (fst (Leader sampleUpdated ''dev'')))) \<le> 150"
    by code_simp+
  have "handleGetLeader sampleUpdated ''dev'' = (200, LeaderPayload (fst (Leader sampleUpdated ''dev'')))"
    using leader_reply [OF sample_reachable(3), of "''dev''"] ev by simp
  moreover have "tracker_inv sampleParse sampleTracker" unfolding sampleTracker_def by simp
  moreover have "lastEpoch sampleTracker = 0" by (simp add: sampleTracker_def newTracker_def)
  moreover have "length (replyBody (LeaderPayload (fst (Leader sampleUpdated ''dev'')))) \<le> bodyReadLimit"
    using ev(8) by (simp add: bodyReadLimit_def)
  ultimately show ?thesis
    using poll_adopts_leader [OF sample_reachable(3) _ _ _ refl ev(1,3) _ ev(2),
        of 200 "LeaderPayload (fst (Leader sampleUpdated ''dev''))"
          "\<lambda>_. Inr (200, replyBody (LeaderPayload (fst (Leader sampleUpdated ''dev''))))" sampleTracker False] ev(4) ev(5) [symmetric]
    by (simp only: Let_def if_True simp_thms True_implies_equals, elim conjE)
qed

end
