(* ===== verification/RouterLoop.thy ===== *)
theory RouterLoop
  imports LeaderFeed
begin

text \<open>
  The two goroutines that keep a tracker of usher fresh (\<open>resolveLoop\<close> and \<open>streamBigbrain\<close> of
  \<open>usher/main.go\<close>), running concurrently against a bigbrain whose registry changes over time.

  Every access to shared state (a gate, the wake-up channel, \<open>applyLeader\<close> under its mutex) is a
  step; the goroutines and the nudges of the proxy interleave freely. Time is explicit: it
  passes only while every goroutine waits, for a poll to return, for its timer or its channel,
  and not beyond the deadline of a poll, a ticker, a pause or the watchdog of the stream. That a
  goroutine which can proceed does so at once idealises the Go scheduler. The end of the
  context is not modelled here.

  \<open>reg\<close> gives the registry of bigbrain at each instant; a poll is answered from the registry at
  some instant while it is running, a stream line is an event published earlier, or no event.
\<close>

section \<open>State\<close>

definition resolveTimeout :: duration where "resolveTimeout = 3 * second"
definition streamIdleTimeout :: duration where "streamIdleTimeout = 75 * second"

text \<open>
  \<open>resolveLoop\<close>: not started, waiting for the answer of a poll (after the first poll the ticker is
  not reset), about to reset the ticker, or in its \<open>select\<close>.
\<close>

datatype resolverPhase =
    Fresh
  | Asking bool "(instant \<times> int \<times> payload) option"
  | Resetting
  | Idle

text \<open>
  \<open>streamBigbrain\<close>: opening the stream, reading it, having marked it as down and about to wake
  the resolver (after a stream that was open, or not), or pausing.
\<close>

datatype streamerPhase = Dialing | Reading | Waking bool | Pausing

text \<open>
  Besides the tracker, the phases and the timers: \<open>l_asked\<close> is the start of the last poll,
  \<open>l_downAt\<close> the instant the stream was marked as down, \<open>l_heard\<close> the instant at which bigbrain
  answered the last poll that succeeded, and \<open>l_failed\<close> remembers that a poll failed. The
  code does not store these four.
\<close>

record loopState =
  l_tracker :: tracker
  l_phase :: resolverPhase
  l_stream :: streamerPhase
  l_backoff :: duration
  l_clock :: instant
  l_tick :: instant
  l_pause :: instant
  l_idle :: instant
  l_started :: instant
  l_asked :: instant
  l_downAt :: instant
  l_heard :: "instant option"
  l_failed :: bool

definition startLoop :: "tracker \<Rightarrow> instant \<Rightarrow> loopState" where
  "startLoop t now =
     \<lparr>l_tracker = t, l_phase = Fresh, l_stream = Dialing, l_backoff = streamBackoffInitial,
      l_clock = now, l_tick = now, l_pause = now, l_idle = now, l_started = now, l_asked = now,
      l_downAt = now, l_heard = None, l_failed = False\<rparr>"

section \<open>Steps\<close>

text \<open>The start of \<open>resolveLoop\<close>: the ticker, then the first poll.\<close>

definition beginLoop :: "loopState \<Rightarrow> loopState" where
  "beginLoop s = s\<lparr>l_tick := l_clock s + pollInterval (l_tracker s), l_phase := Asking False None, l_asked := l_clock s\<rparr>"

definition beginPoll :: "loopState \<Rightarrow> loopState" where
  "beginPoll s = s\<lparr>l_phase := Asking True None, l_asked := l_clock s\<rparr>"

text \<open>The end of a poll, successful or not.\<close>

definition pollReply :: "(instant \<times> int \<times> payload) option \<Rightarrow> string \<Rightarrow> unit + int \<times> string" where
  "pollReply ans u = (case ans of None \<Rightarrow> Inl () | Some (_, code, p) \<Rightarrow> Inr (code, replyBody p))"

definition endPoll ::
  "(string \<Rightarrow> url option) \<Rightarrow> bool \<Rightarrow> (instant \<times> int \<times> payload) option \<Rightarrow> loopState \<Rightarrow> loopState" where
  "endPoll parse again ans s =
     (let ok = queryBigbrain (pollReply ans) decodeLeaderBody (l_tracker s) \<noteq> None in
      s\<lparr>l_tracker := resolveOnce parse (pollReply ans) decodeLeaderBody (l_tracker s) False,
        l_phase := (if again then Resetting else Idle),
        l_heard := (if ok then map_option fst ans else l_heard s),
        l_failed := (l_failed s \<or> \<not> ok)\<rparr>)"

definition resetTicker :: "loopState \<Rightarrow> loopState" where
  "resetTicker s = s\<lparr>l_tick := l_clock s + pollInterval (l_tracker s), l_phase := Idle\<rparr>"

text \<open>A gate is a flag; the instant is remembered when it changes.\<close>

definition markDown :: "loopState \<Rightarrow> loopState" where
  "markDown s =
     (case gateFail (streamGate (l_tracker s)) of
        (g, changed) \<Rightarrow> s\<lparr>l_tracker := (l_tracker s)\<lparr>streamGate := g\<rparr>,
                          l_downAt := (if changed then l_clock s else l_downAt s)\<rparr>)"

text \<open>The pause after an attempt, which was healthy or not.\<close>

definition beginPause :: "bool \<Rightarrow> loopState \<Rightarrow> loopState" where
  "beginPause healthy s =
     s\<lparr>l_stream := Pausing, l_pause := l_clock s + streamPause (l_backoff s) healthy,
       l_backoff := streamBackoff (l_backoff s) healthy\<rparr>"

definition dialFailed :: "loopState \<Rightarrow> loopState" where
  "dialFailed s =
     (if snd (gateFail (streamGate (l_tracker s))) then (markDown s)\<lparr>l_stream := Waking False\<rparr>
      else beginPause False (markDown s))"

definition dialOk :: "loopState \<Rightarrow> loopState" where
  "dialOk s =
     s\<lparr>l_tracker := (l_tracker s)\<lparr>streamGate := fst (gateOk (streamGate (l_tracker s)))\<rparr>,
       l_stream := Reading, l_idle := l_clock s + streamIdleTimeout\<rparr>"

definition readLine :: "(string \<Rightarrow> url option) \<Rightarrow> string \<Rightarrow> loopState \<Rightarrow> loopState" where
  "readLine parse line s =
     s\<lparr>l_tracker := handleStreamLine parse decodeLeader (l_tracker s) line,
       l_idle := l_clock s + streamIdleTimeout\<rparr>"

definition wakeAndPause :: "bool \<Rightarrow> loopState \<Rightarrow> loopState" where
  "wakeAndPause healthy s = beginPause healthy (s\<lparr>l_tracker := wakeResolve (l_tracker s)\<rparr>)"

text \<open>Time may pass by \<open>d\<close>: no goroutine can proceed before the end of the period.\<close>

definition mayElapse :: "duration \<Rightarrow> loopState \<Rightarrow> bool" where
  "mayElapse d s =
     (0 < d
      \<and> (case l_phase s of
           Fresh \<Rightarrow> False
         | Asking _ _ \<Rightarrow> l_clock s + d \<le> l_asked s + resolveTimeout
         | Resetting \<Rightarrow> False
         | Idle \<Rightarrow> \<not> resolvePending (l_tracker s) \<and> l_clock s + d \<le> l_tick s)
      \<and> (case l_stream s of
           Dialing \<Rightarrow> True
         | Reading \<Rightarrow> l_clock s + d \<le> l_idle s
         | Waking _ \<Rightarrow> False
         | Pausing \<Rightarrow> l_clock s + d \<le> l_pause s))"

text \<open>What a line of the stream may carry: an event published by now, or none.\<close>

definition genuineLine :: "(instant \<Rightarrow> Registry) \<Rightarrow> string \<Rightarrow> instant \<Rightarrow> string \<Rightarrow> bool" where
  "genuineLine reg n now line =
     (case lineEvent decodeLeader line of
        None \<Rightarrow> True
      | Some lr \<Rightarrow> (\<exists>a \<le> now. Published (reg a) n \<and> lr = wire (fst (Leader (reg a) n))))"

inductive loopStep ::
  "(string \<Rightarrow> url option) \<Rightarrow> (instant \<Rightarrow> Registry) \<Rightarrow> string \<Rightarrow> loopState \<Rightarrow> loopState \<Rightarrow> bool"
  for parse reg n where
  begins: "l_phase s = Fresh \<Longrightarrow> loopStep parse reg n s (beginLoop s)"
| answered: "l_phase s = Asking again None \<Longrightarrow> handleGetLeader (reg (l_clock s)) n = (code, p) \<Longrightarrow>
    loopStep parse reg n s (s\<lparr>l_phase := Asking again (Some (l_clock s, code, p))\<rparr>)"
| applied: "l_phase s = Asking again (Some ans) \<Longrightarrow> loopStep parse reg n s (endPoll parse again (Some ans) s)"
| gaveUp: "l_phase s = Asking again ans \<Longrightarrow> loopStep parse reg n s (endPoll parse again None s)"
| resets: "l_phase s = Resetting \<Longrightarrow> loopStep parse reg n s (resetTicker s)"
| woken: "l_phase s = Idle \<Longrightarrow> resolvePending (l_tracker s) \<Longrightarrow>
    loopStep parse reg n s (beginPoll (s\<lparr>l_tracker := (l_tracker s)\<lparr>resolvePending := False\<rparr>\<rparr>))"
| ticked: "l_phase s = Idle \<Longrightarrow> l_tick s \<le> l_clock s \<Longrightarrow> loopStep parse reg n s (beginPoll s)"
| nudged: "loopStep parse reg n s (s\<lparr>l_tracker := nudgeResolve (l_tracker s) (l_clock s) (l_clock s)\<rparr>)"
| dialFails: "l_stream s = Dialing \<Longrightarrow> loopStep parse reg n s (dialFailed s)"
| dials: "l_stream s = Dialing \<Longrightarrow> loopStep parse reg n s (dialOk s)"
| reads: "l_stream s = Reading \<Longrightarrow> genuineLine reg n (l_clock s) line \<Longrightarrow>
    loopStep parse reg n s (readLine parse line s)"
| ends: "l_stream s = Reading \<Longrightarrow> loopStep parse reg n s ((markDown s)\<lparr>l_stream := Waking True\<rparr>)"
| wakes: "l_stream s = Waking opened \<Longrightarrow>
    loopStep parse reg n s (wakeAndPause (opened \<and> time_sub (l_clock s) (l_started s) \<ge> streamHealthyAfter) s)"
| redials: "l_stream s = Pausing \<Longrightarrow> l_pause s \<le> l_clock s \<Longrightarrow>
    loopStep parse reg n s (s\<lparr>l_stream := Dialing, l_started := l_clock s\<rparr>)"
| elapses: "mayElapse d s \<Longrightarrow> loopStep parse reg n s (s\<lparr>l_clock := l_clock s + d\<rparr>)"

inductive loopReachable ::
  "(string \<Rightarrow> url option) \<Rightarrow> (instant \<Rightarrow> Registry) \<Rightarrow> string \<Rightarrow> loopState \<Rightarrow> bool"
  for parse reg n where
  start: "loopReachable parse reg n (startLoop (newTracker site big name body) now)"
| step: "loopReachable parse reg n s \<Longrightarrow> loopStep parse reg n s s' \<Longrightarrow> loopReachable parse reg n s'"


text \<open>
  The steps of one attempt, taken without interruption, change the tracker as the sequential
  \<open>consumeStream\<close> does.
\<close>

lemma readLines_tracker:
  "l_tracker (foldl (\<lambda>s l. readLine parse l s) s ls) = foldl (handleStreamLine parse decodeLeader) (l_tracker s) ls"
  by (induction ls arbitrary: s) (simp_all add: readLine_def)

lemma attempt_is_consumeStream:
  "l_tracker (case openStream ans of
       Some body \<Rightarrow> wakeAndPause healthy
         ((markDown (foldl (\<lambda>s l. readLine parse l s) (dialOk s) (scanLines body)))\<lparr>l_stream := Waking True\<rparr>)
     | None \<Rightarrow> if l_stream (dialFailed s) = Waking False then wakeAndPause False (dialFailed s) else dialFailed s)
    = fst (consumeStream parse decodeLeader (l_tracker s) (openStream ans) False began ended)"
  by (cases "openStream ans")
    (auto simp: consumeStream_def wakeAndPause_def beginPause_def markDown_def dialFailed_def dialOk_def
      readLines_tracker gateFail_def Let_def)

section \<open>Polls come in time\<close>

lemma second_pos [simp]: "0 < second" "0 \<le> second"
  by (simp_all add: second_def)

lemma timing_consts:
  "resolveTimeout = 3 * second" "fastResolveInterval = 5 * second" "resolveInterval = 60 * second"
  by (simp_all add: resolveTimeout_def fastResolveInterval_def resolveInterval_def)

lemma pollInterval_range:
  "pollInterval t = (if streamGate t then 5 * second else 60 * second)"
  by (simp add: pollInterval_def timing_consts)

text \<open>What the resolver reads of a tracker: nothing but the gate and the wake-up flag.\<close>

lemma applyParsed_flags:
  "streamGate (fst (applyParsed t lr u fromPoll)) = streamGate t"
  "resolvePending t \<Longrightarrow> resolvePending (fst (applyParsed t lr u fromPoll))"
  by (simp_all add: applyParsed_def installLeader_def wakeResolve_def Let_def)

lemma applyLeader_flags:
  "streamGate (fst (applyLeader parse t lr fromPoll)) = streamGate t"
  "resolvePending t \<Longrightarrow> resolvePending (fst (applyLeader parse t lr fromPoll))"
  by (simp_all add: applyLeader_usable applyParsed_flags)

lemma resolveOnce_flags:
  "streamGate (resolveOnce parse http decode t canceled) = streamGate t"
  "resolvePending t \<Longrightarrow> resolvePending (resolveOnce parse http decode t canceled)"
  by (simp_all add: resolveOnce_def applyLeader_flags split: option.splits)

lemma handleStreamLine_flags:
  "streamGate (handleStreamLine parse decode t line) = streamGate t"
  "resolvePending t \<Longrightarrow> resolvePending (handleStreamLine parse decode t line)"
  by (simp_all add: handleStreamLine_def applyLeader_flags split: option.splits)

lemma nudge_flags:
  "streamGate (nudgeResolve t a b) = streamGate t"
  "resolvePending t \<Longrightarrow> resolvePending (nudgeResolve t a b)"
  by (simp_all add: nudgeResolve_def wakeResolve_def)

lemmas flags = resolveOnce_flags handleStreamLine_flags nudge_flags

text \<open>The phases in which the ticker that is running will be waited for.\<close>

fun ticking :: "resolverPhase \<Rightarrow> bool" where
  "ticking Fresh = False"
| "ticking (Asking again _) = (\<not> again)"
| "ticking Resetting = False"
| "ticking Idle = True"

definition wakeDue :: "loopState \<Rightarrow> bool" where
  "wakeDue s =
     ((\<exists>b. l_stream s = Waking b) \<and> l_clock s = l_downAt s
      \<or> resolvePending (l_tracker s)
        \<and> (l_phase s = Idle \<longrightarrow> l_clock s \<le> max (l_downAt s) (l_asked s + 3 * second)))"

definition cadence :: "loopState \<Rightarrow> bool" where
  "cadence s =
     (l_phase s \<noteq> Fresh \<longrightarrow>
        l_asked s \<le> l_clock s
        \<and> (l_phase s = Idle \<longrightarrow> l_clock s \<le> l_tick s)
        \<and> (l_phase s \<noteq> Idle \<longrightarrow> l_clock s \<le> l_asked s + 3 * second)
        \<and> (ticking (l_phase s) \<longrightarrow>
             l_asked s + 3 * second \<le> l_tick s \<and> l_tick s \<le> l_asked s + 63 * second
             \<and> (streamGate (l_tracker s) \<longrightarrow> wakeDue s \<or> l_tick s \<le> l_asked s + 8 * second)))"

lemmas loop_defs = beginLoop_def beginPoll_def endPoll_def resetTicker_def markDown_def beginPause_def
  dialFailed_def dialOk_def readLine_def wakeAndPause_def Let_def

lemma cadence_step:
  assumes "loopStep parse reg n s s'" and "cadence s"
  shows "cadence s'"
  using assms
proof (induction rule: loopStep.induct)
  case (begins s)
  then show ?case by (simp add: cadence_def loop_defs pollInterval_range)
next
  case (answered s again code p)
  then show ?case by (auto simp: cadence_def wakeDue_def)
next
  case (applied s again ans)
  then show ?case by (auto simp: cadence_def wakeDue_def loop_defs flags)
next
  case (gaveUp s again ans)
  then show ?case by (auto simp: cadence_def wakeDue_def loop_defs flags)
next
  case (resets s)
  then show ?case by (auto simp: cadence_def loop_defs pollInterval_range)
next
  case (woken s)
  then show ?case by (simp add: cadence_def loop_defs)
next
  case (ticked s)
  then show ?case by (simp add: cadence_def loop_defs)
next
  case (nudged s)
  then show ?case by (auto simp: cadence_def wakeDue_def flags)
next
  case (dialFails s)
  then show ?case by (auto simp: cadence_def wakeDue_def loop_defs gateFail_def)
next
  case (dials s)
  then show ?case by (auto simp: cadence_def loop_defs gateOk_def)
next
  case (reads s line)
  then show ?case by (auto simp: cadence_def wakeDue_def loop_defs flags)
next
  case (ends s)
  then show ?case by (auto simp: cadence_def wakeDue_def loop_defs gateFail_def)
next
  case (wakes s opened)
  then show ?case by (auto simp: cadence_def wakeDue_def loop_defs wakeResolve_def)
next
  case (redials s)
  then show ?case by (auto simp: cadence_def wakeDue_def)
next
  case (elapses d s)
  then show ?case
    by (auto simp: cadence_def wakeDue_def mayElapse_def timing_consts
        split: resolverPhase.splits streamerPhase.splits)
qed

lemma reachable_cadence: "loopReachable parse reg n s \<Longrightarrow> cadence s"
proof (induction rule: loopReachable.induct)
  case (step s s')
  then show ?case using cadence_step by blast
qed (simp add: startLoop_def cadence_def)

text \<open>
  C18: however polls, stream attempts and nudges interleave, the router never stops asking. Once
  its resolver runs, at most 63 seconds pass between the starts of two polls (one poll and the
  full interval); while the leader stream is down, at most 8 seconds pass since it went down and
  since the last poll began.
\<close>

theorem polls_come_in_time:
  assumes "loopReachable parse reg n s" and "l_phase s \<noteq> Fresh"
  shows "l_asked s \<le> l_clock s \<and> l_clock s \<le> l_asked s + 63 * second
    \<and> (streamGate (l_tracker s) \<longrightarrow> l_clock s \<le> max (l_downAt s) (l_asked s) + 8 * second)"
  using reachable_cadence [OF assms(1)] assms(2)
  by (cases "l_phase s") (auto simp: cadence_def wakeDue_def max_def split: if_splits)


section \<open>A bounded staleness\<close>

text \<open>
  The registry at the instants of a run: it evolves by its operations (so nothing is assumed of
  what is published, only that the counter does not wrap), and what it publishes for \<open>n\<close> can be
  sent: valid text, a numbered event, a URL the router can parse, a reply that fits the limit.
\<close>

definition evolving :: "(instant \<Rightarrow> Registry) \<Rightarrow> string \<Rightarrow> bool" where
  "evolving reg n = (\<forall>a b. a \<le> b \<longrightarrow> registry_reachable (reg a) \<and> evolves n (reg a) (reg b))"

definition eventAt :: "(instant \<Rightarrow> Registry) \<Rightarrow> string \<Rightarrow> instant \<Rightarrow> LeaderEvent" where
  "eventAt reg n a = fst (Leader (reg a) n)"

definition sendable :: "(string \<Rightarrow> url option) \<Rightarrow> (instant \<Rightarrow> Registry) \<Rightarrow> string \<Rightarrow> bool" where
  "sendable parse reg n =
     (\<forall>a. validEvent (eventAt reg n a)
       \<and> length (replyBody (snd (handleGetLeader (reg a) n))) \<le> bodyReadLimit
       \<and> (Published (reg a) n \<longrightarrow> usableURL parse (LeaderURL (eventAt reg n a)) \<and> Seq (eventAt reg n a) \<noteq> 0))"

text \<open>The tracker has seen nothing, or holds what was published at some instant \<open>a\<close>.\<close>

definition holds :: "(instant \<Rightarrow> Registry) \<Rightarrow> string \<Rightarrow> instant \<Rightarrow> tracker \<Rightarrow> bool" where
  "holds reg n a t =
     (Published (reg a) n \<and> lastEpoch t = Epoch (eventAt reg n a) \<and> lastAppliedSeq t = Seq (eventAt reg n a)
      \<and> curURL t = LeaderURL (eventAt reg n a))"

definition holds_some :: "(instant \<Rightarrow> Registry) \<Rightarrow> string \<Rightarrow> instant \<Rightarrow> tracker \<Rightarrow> bool" where
  "holds_some reg n now t =
     (lastEpoch t = 0 \<and> lastAppliedSeq t = 0 \<or> (\<exists>a \<le> now. holds reg n a t))"

lemma eventAt_epoch: "Epoch (eventAt reg n a) = epoch (reg a)"
  by (simp add: eventAt_def Leader_def split: option.splits)

lemma events_ordered:
  assumes "evolving reg n" and "a \<le> b" and "Published (reg a) n"
  shows "Published (reg b) n \<and> Epoch (eventAt reg n b) = Epoch (eventAt reg n a)
    \<and> Seq (eventAt reg n a) \<le> Seq (eventAt reg n b)
    \<and> (Seq (eventAt reg n b) = Seq (eventAt reg n a) \<longrightarrow> eventAt reg n b = eventAt reg n a)"
  using evolves_ordered [of n "reg a" "reg b"] assms
  by (simp add: evolving_def eventAt_epoch) (simp add: eventAt_def)

lemma same_epoch:
  assumes "evolving reg n" and "Published (reg a) n" and "Published (reg b) n"
  shows "Epoch (eventAt reg n a) = Epoch (eventAt reg n b)"
  using events_ordered [OF assms(1), of a b] events_ordered [OF assms(1), of b a] assms(2,3)
  by (cases "a \<le> b") simp_all

lemma epoch_nonzero: "evolving reg n \<Longrightarrow> Epoch (eventAt reg n a) \<noteq> 0"
  using leader_reply [of "reg a" n, THEN conjunct2, THEN conjunct1] unfolding evolving_def eventAt_def by blast

text \<open>Applying a genuine event keeps the tracker on the published history, never behind the event.\<close>

lemma apply_genuine:
  assumes "evolving reg n" and "sendable parse reg n" and "a \<le> now" and "Published (reg a) n"
    and "holds_some reg n now t"
  shows "holds_some reg n now (fst (applyLeader parse t (wire (eventAt reg n a)) fromPoll))
    \<and> (fromPoll \<or> lastEpoch t = Epoch (eventAt reg n a) \<longrightarrow>
         Seq (eventAt reg n a) \<le> lastAppliedSeq (fst (applyLeader parse t (wire (eventAt reg n a)) fromPoll)))
    \<and> (lastEpoch t \<noteq> 0 \<longrightarrow>
         lastAppliedSeq t \<le> lastAppliedSeq (fst (applyLeader parse t (wire (eventAt reg n a)) fromPoll)))"
proof -
  let ?e = "eventAt reg n a" and ?t = "fst (applyLeader parse t (wire (eventAt reg n a)) fromPoll)"
  have u: "usableURL parse (LeaderURL ?e)" "Seq ?e \<noteq> 0" using assms(2,4) by (auto simp: sendable_def)
  have e: "lastEpoch t = 0 \<and> lastAppliedSeq t = 0 \<or> lastEpoch t = Epoch ?e"
    using assms(5) same_epoch [OF assms(1) assms(4)] by (auto simp: holds_some_def holds_def)
  have E: "Epoch ?e \<noteq> 0" using epoch_nonzero [OF assms(1)] .
  have t: "?t = fst (applyParsed t (wire ?e) (parsedURL parse (LeaderURL ?e)) fromPoll)"
    using u by (simp add: applyLeader_usable wire_def)
  show ?thesis
  proof (cases "lastEpoch t \<noteq> Epoch ?e \<and> \<not> fromPoll")
    case True
    then have "?t = wakeResolve t" using t by (simp add: applyParsed_def wire_def eq_commute)
    then show ?thesis using assms(5) True e by (auto simp: holds_some_def holds_def)
  next
    case False
    show ?thesis
    proof (cases "lastEpoch t = Epoch ?e \<and> Seq ?e \<le> lastAppliedSeq t")
      case True
      then have "?t = t" using t by (simp add: applyParsed_def wire_def)
      then show ?thesis using True assms(5) by simp
    next
      case newer: False
      define t1 where "t1 = (if Epoch ?e \<noteq> lastEpoch t then t\<lparr>lastEpoch := Epoch ?e, lastAppliedSeq := 0\<rparr> else t)"
      have t1: "lastEpoch t1 = Epoch ?e" "\<not> Seq ?e \<le> lastAppliedSeq t1"
        using newer u(2) by (simp_all add: t1_def)
      have go: "\<not> (Epoch ?e \<noteq> lastEpoch t \<and> \<not> fromPoll)" using False by auto
      have "?t = (if LeaderURL ?e = curURL t1 then t1\<lparr>lastAppliedSeq := Seq ?e\<rparr>
          else installLeader (t1\<lparr>lastAppliedSeq := Seq ?e\<rparr>) (LeaderURL ?e) (parsedURL parse (LeaderURL ?e)))"
        unfolding t unfolding applyParsed_def wire_def leaderResponse.simps if_not_P [OF go] t1_def [symmetric]
        using t1(2) by (simp add: Let_def)
      then have "holds reg n a ?t" using t1(1) assms(4) by (simp add: holds_def)
      then have "holds_some reg n now ?t" "lastAppliedSeq ?t = Seq ?e"
        using assms(3) by (auto simp: holds_some_def holds_def)
      moreover have "lastEpoch t \<noteq> 0 \<longrightarrow> lastAppliedSeq t \<le> Seq ?e" using e newer by auto
      ultimately show ?thesis by simp
    qed
  qed
qed


text \<open>Only three fields of the tracker matter here.\<close>

lemma holds_some_cong:
  assumes "lastEpoch t' = lastEpoch t" and "lastAppliedSeq t' = lastAppliedSeq t" and "curURL t' = curURL t"
  shows "holds_some reg n now t' = holds_some reg n now t"
  using assms by (simp add: holds_some_def holds_def)

lemma holds_some_later: "holds_some reg n now t \<Longrightarrow> now \<le> now' \<Longrightarrow> holds_some reg n now' t"
  by (auto simp: holds_some_def dest: order_trans)

definition notBehind :: "(instant \<Rightarrow> Registry) \<Rightarrow> string \<Rightarrow> instant \<Rightarrow> tracker \<Rightarrow> bool" where
  "notBehind reg n a t =
     (Published (reg a) n \<and> lastEpoch t = Epoch (eventAt reg n a) \<and> Seq (eventAt reg n a) \<le> lastAppliedSeq t)"

lemma notBehind_cong:
  assumes "lastEpoch t' = lastEpoch t" and "lastAppliedSeq t' = lastAppliedSeq t"
  shows "notBehind reg n a t' = notBehind reg n a t"
  using assms by (simp add: notBehind_def)

lemma nudge_core:
  "lastEpoch (nudgeResolve t a b) = lastEpoch t" "lastAppliedSeq (nudgeResolve t a b) = lastAppliedSeq t"
  "curURL (nudgeResolve t a b) = curURL t"
  by (simp_all add: nudgeResolve_def)

text \<open>A poll that was answered at \<open>a\<close>, and one that was not.\<close>

lemma poll_genuine:
  assumes ev: "evolving reg n" and sd: "sendable parse reg n" and "a \<le> now"
    and h: "handleGetLeader (reg a) n = (code, p)" and hs: "holds_some reg n now t"
  shows "(let http = pollReply (Some (a, code, p)); t' = resolveOnce parse http decodeLeaderBody t False in
      holds_some reg n now t'
      \<and> (queryBigbrain http decodeLeaderBody t \<noteq> None \<longrightarrow> notBehind reg n a t')
      \<and> (\<forall>b. notBehind reg n b t \<longrightarrow> notBehind reg n b t'))"
proof -
  let ?http = "pollReply (Some (a, code, p))"
  let ?t' = "resolveOnce parse ?http decodeLeaderBody t False"
  have reach: "registry_reachable (reg a)" using ev by (auto simp: evolving_def)
  have len: "length (replyBody p) \<le> bodyReadLimit" and ok: "validEvent (fst (Leader (reg a) n))"
    using sd h by (auto simp: sendable_def eventAt_def dest: spec [of _ a])
  have q: "queryBigbrain ?http decodeLeaderBody t
      = (if Published (reg a) n then Some (wire (eventAt reg n a)) else None)"
    unfolding eventAt_def by (rule poll_query [OF reach h _ len ok]) (simp add: pollReply_def)
  show ?thesis
  proof (cases "Published (reg a) n")
    case False
    then have "?t' = t\<lparr>pollGate := fst (gateFail (pollGate t))\<rparr>" using q by (simp add: resolveOnce_def)
    then show ?thesis
      using hs q False holds_some_cong [of ?t' t] notBehind_cong [of ?t' t] by (simp add: Let_def)
  next
    case True
    let ?t0 = "t\<lparr>pollGate := fst (gateOk (pollGate t))\<rparr>"
    let ?t1 = "fst (applyLeader parse ?t0 (wire (eventAt reg n a)) True)"
    have t': "?t' = ?t1\<lparr>resolved := True\<rparr>" using q True by (simp add: resolveOnce_def)
    have hs0: "holds_some reg n now ?t0" using hs holds_some_cong [of ?t0 t] by simp
    from apply_genuine [OF ev sd assms(3) True hs0, of True]
    have A: "holds_some reg n now ?t1" "Seq (eventAt reg n a) \<le> lastAppliedSeq ?t1"
      "lastEpoch t \<noteq> 0 \<longrightarrow> lastAppliedSeq t \<le> lastAppliedSeq ?t1"
      by simp_all
    have "Seq (eventAt reg n a) \<noteq> 0" using sd True by (simp add: sendable_def)
    then have "lastAppliedSeq ?t1 \<noteq> 0" using A(2) by auto
    then have E: "lastEpoch ?t1 = Epoch (eventAt reg n a)"
      using A(1) same_epoch [OF ev True] by (auto simp: holds_some_def holds_def)
    have "notBehind reg n b ?t1" if "notBehind reg n b t" for b
      using that A(3) E same_epoch [OF ev True, of b] epoch_nonzero [OF ev, of b]
      by (auto simp: notBehind_def)
    then show ?thesis
      using A E True holds_some_cong [of ?t' ?t1] notBehind_cong [of ?t' ?t1] t'
      by (simp add: Let_def notBehind_def)
  qed
qed

lemma poll_failed:
  "(let http = pollReply None; t' = resolveOnce parse http decodeLeaderBody t False in
      queryBigbrain http decodeLeaderBody t = None
      \<and> lastEpoch t' = lastEpoch t \<and> lastAppliedSeq t' = lastAppliedSeq t \<and> curURL t' = curURL t)"
  by (simp add: pollReply_def resolveOnce_def queryBigbrain_def Let_def)

text \<open>A line of the stream.\<close>

lemma line_genuine:
  assumes ev: "evolving reg n" and sd: "sendable parse reg n" and g: "genuineLine reg n now line"
    and hs: "holds_some reg n now t"
  shows "holds_some reg n now (handleStreamLine parse decodeLeader t line)
    \<and> (\<forall>b. notBehind reg n b t \<longrightarrow> notBehind reg n b (handleStreamLine parse decodeLeader t line))"
proof (cases "lineEvent decodeLeader line")
  case None
  let ?t' = "handleStreamLine parse decodeLeader t line"
  have "?t' = t \<or> ?t' = t\<lparr>eventGate := fst (gateFail (eventGate t))\<rparr>"
    using None by (auto simp: handleStreamLine_def lineEvent_def split: option.splits)
  then have "lastEpoch ?t' = lastEpoch t" "lastAppliedSeq ?t' = lastAppliedSeq t" "curURL ?t' = curURL t" by auto
  then show ?thesis using hs holds_some_cong [of ?t' t] notBehind_cong [of ?t' t] by simp
next
  case (Some lr)
  then obtain a where a: "a \<le> now" "Published (reg a) n" "lr = wire (eventAt reg n a)"
    using g by (auto simp: genuineLine_def eventAt_def)
  let ?t0 = "t\<lparr>eventGate := fst (gateOk (eventGate t))\<rparr>"
  have t': "handleStreamLine parse decodeLeader t line = fst (applyLeader parse ?t0 (wire (eventAt reg n a)) False)"
    using Some a(3) by (auto simp: handleStreamLine_def lineEvent_def split: option.splits)
  have hs0: "holds_some reg n now ?t0" using hs holds_some_cong [of ?t0 t] by simp
  note A = apply_genuine [OF ev sd a(1,2) hs0, of False]
  have "notBehind reg n b (fst (applyLeader parse ?t0 (wire (eventAt reg n a)) False))" if nb: "notBehind reg n b t" for b
  proof -
    have "lastEpoch t \<noteq> 0" using nb epoch_nonzero [OF ev, of b] by (simp add: notBehind_def)
    moreover have "lastEpoch (fst (applyLeader parse ?t0 (wire (eventAt reg n a)) False)) = lastEpoch t"
      by (simp add: applyLeader_usable applyParsed_def Let_def)
    ultimately show ?thesis using nb A by (auto simp: notBehind_def)
  qed
  then show ?thesis using A t' by simp
qed


definition up_to_date :: "(instant \<Rightarrow> Registry) \<Rightarrow> string \<Rightarrow> loopState \<Rightarrow> bool" where
  "up_to_date reg n s =
     (holds_some reg n (l_clock s) (l_tracker s)
      \<and> (\<forall>a. l_heard s = Some a \<longrightarrow> a \<le> l_clock s \<and> notBehind reg n a (l_tracker s))
      \<and> (\<forall>again a code p. l_phase s = Asking again (Some (a, code, p)) \<longrightarrow>
           l_asked s \<le> a \<and> a \<le> l_clock s \<and> handleGetLeader (reg a) n = (code, p))
      \<and> (\<not> l_failed s \<longrightarrow>
           (l_phase s = Idle \<or> l_phase s = Resetting \<longrightarrow> (\<exists>a. l_heard s = Some a \<and> l_asked s \<le> a))
           \<and> (\<forall>ans. l_phase s = Asking True ans \<longrightarrow> (\<exists>a. l_heard s = Some a \<and> l_asked s \<le> a + 63 * second)))
      \<and> (l_phase s = Fresh \<or> (\<exists>ans. l_phase s = Asking False ans) \<longrightarrow> l_heard s = None))"

text \<open>Steps that change neither what the tracker holds nor the resolver's phase, nor its ghosts.\<close>

lemma up_to_date_frame:
  assumes "up_to_date reg n s" and "l_clock s \<le> l_clock s'" and "l_phase s' = l_phase s"
    and "l_heard s' = l_heard s" and "l_asked s' = l_asked s" and "l_failed s' = l_failed s"
    and "lastEpoch (l_tracker s') = lastEpoch (l_tracker s)"
    and "lastAppliedSeq (l_tracker s') = lastAppliedSeq (l_tracker s)"
    and "curURL (l_tracker s') = curURL (l_tracker s)"
  shows "up_to_date reg n s'"
proof -
  have "holds_some reg n (l_clock s') (l_tracker s')"
    using assms(1,2) holds_some_cong [OF assms(7-9)] holds_some_later by (auto simp: up_to_date_def)
  then show ?thesis
    using assms(1,2) by (auto simp: up_to_date_def assms(3-6) notBehind_cong [OF assms(7,8)] intro: order_trans)
qed

lemma Idle_asked:
  assumes "cadence s" and "l_phase s = Idle"
  shows "l_clock s \<le> l_asked s + 63 * second"
  using assms by (auto simp: cadence_def)

lemma beginPoll_up_to_date:
  assumes "up_to_date reg n s" and "cadence s" and "l_phase s = Idle"
  shows "up_to_date reg n (beginPoll (s\<lparr>l_tracker := (l_tracker s)\<lparr>resolvePending := b\<rparr>\<rparr>))"
proof -
  let ?t = "(l_tracker s)\<lparr>resolvePending := b\<rparr>"
  have nb: "notBehind reg n a ?t = notBehind reg n a (l_tracker s)" for a
    by (rule notBehind_cong) simp_all
  have hs: "holds_some reg n now ?t = holds_some reg n now (l_tracker s)" for now
    by (rule holds_some_cong) simp_all
  have "\<exists>a. l_heard s = Some a \<and> l_clock s \<le> a + 63 * second" if "\<not> l_failed s"
    using assms(1,3) that Idle_asked [OF assms(2,3)] by (force simp: up_to_date_def)
  then show ?thesis
    using assms(1) by (simp add: up_to_date_def beginPoll_def nb hs)
qed

lemma endPoll_up_to_date:
  assumes "evolving reg n" and "sendable parse reg n" and "up_to_date reg n s"
    and "l_phase s = Asking again pend" and "ans = None \<or> ans = pend"
  shows "up_to_date reg n (endPoll parse again ans s)"
proof (cases ans)
  case None
  let ?t' = "resolveOnce parse (pollReply None) decodeLeaderBody (l_tracker s) False"
  have f: "queryBigbrain (pollReply None) decodeLeaderBody (l_tracker s) = None"
    "lastEpoch ?t' = lastEpoch (l_tracker s)" "lastAppliedSeq ?t' = lastAppliedSeq (l_tracker s)"
    "curURL ?t' = curURL (l_tracker s)"
    using poll_failed [of parse "l_tracker s"] by (simp_all add: Let_def)
  show ?thesis
    using assms(3) f(1) notBehind_cong [OF f(2,3)] holds_some_cong [OF f(2-4)]
    by (simp add: None up_to_date_def endPoll_def Let_def)
next
  case (Some x)
  obtain a code p where x: "x = (a, code, p)" by (cases x)
  have ph: "l_phase s = Asking again (Some (a, code, p))" using assms(4,5) Some x by simp
  then have A: "l_asked s \<le> a" "a \<le> l_clock s" "handleGetLeader (reg a) n = (code, p)"
    "holds_some reg n (l_clock s) (l_tracker s)"
    "\<And>b. l_heard s = Some b \<Longrightarrow> b \<le> l_clock s \<and> notBehind reg n b (l_tracker s)"
    using assms(3) by (auto simp: up_to_date_def)
  note P = poll_genuine [OF assms(1,2) A(2-4), unfolded Let_def]
  show ?thesis
    using A P assms(3) by (auto simp: up_to_date_def endPoll_def Let_def Some x)
qed

lemma up_to_date_step:
  assumes "loopStep parse reg n s s'" and "evolving reg n" and "sendable parse reg n"
    and "up_to_date reg n s" and "cadence s"
  shows "up_to_date reg n s'"
  using assms
proof (induction rule: loopStep.induct)
  case (begins s)
  then show ?case by (auto simp: up_to_date_def beginLoop_def)
next
  case (answered s again code p)
  then show ?case by (auto simp: up_to_date_def cadence_def)
next
  case (applied s again ans)
  then show ?case using endPoll_up_to_date by blast
next
  case (gaveUp s again ans)
  then show ?case using endPoll_up_to_date by blast
next
  case (resets s)
  then show ?case by (auto simp: up_to_date_def resetTicker_def)
next
  case (woken s)
  show ?case by (rule beginPoll_up_to_date [OF woken.prems(3,4) woken.hyps(1)])
next
  case (ticked s)
  show ?case
    using beginPoll_up_to_date [OF ticked.prems(3,4) ticked.hyps(1), of "resolvePending (l_tracker s)"] by simp
next
  case (nudged s)
  show ?case by (rule up_to_date_frame [OF nudged.prems(3)]) (simp_all add: nudge_core)
next
  case (dialFails s)
  show ?case by (rule up_to_date_frame [OF dialFails.prems(3)]) (simp_all add: loop_defs split: prod.splits)
next
  case (dials s)
  show ?case by (rule up_to_date_frame [OF dials.prems(3)]) (simp_all add: loop_defs)
next
  case (reads s line)
  then show ?case
    using line_genuine [OF reads.prems(1,2) reads.hyps(2), of "l_tracker s"]
    by (auto simp: up_to_date_def readLine_def)
next
  case (ends s)
  show ?case by (rule up_to_date_frame [OF ends.prems(3)]) (simp_all add: loop_defs split: prod.splits)
next
  case (wakes s opened)
  show ?case by (rule up_to_date_frame [OF wakes.prems(3)]) (simp_all add: loop_defs)
next
  case (redials s)
  show ?case by (rule up_to_date_frame [OF redials.prems(3)]) simp_all
next
  case (elapses d s)
  show ?case by (rule up_to_date_frame [OF elapses.prems(3)]) (use elapses.hyps in \<open>simp_all add: mayElapse_def\<close>)
qed

lemma reachable_up_to_date:
  assumes "loopReachable parse reg n s" and "evolving reg n" and "sendable parse reg n"
  shows "up_to_date reg n s"
  using assms
proof (induction rule: loopReachable.induct)
  case (start site big name body now)
  then show ?case by (simp add: up_to_date_def startLoop_def holds_some_def newTracker_def)
next
  case (step s s')
  then show ?case using up_to_date_step [OF step.hyps(2)] reachable_cadence by blast
qed

lemma loopStep_tracker_inv:
  "loopStep parse reg n s s' \<Longrightarrow> tracker_inv parse (l_tracker s) \<Longrightarrow> tracker_inv parse (l_tracker s')"
proof (induction rule: loopStep.induct)
  case (nudged s)
  then show ?case by (subst tracker_inv_cong [of _ "l_tracker s"]) (simp_all add: nudgeResolve_def)
next
  case (dialFails s)
  then show ?case
    by (subst tracker_inv_cong [of _ "l_tracker s"]) (simp_all add: loop_defs split: prod.splits)
next
  case (ends s)
  then show ?case
    by (subst tracker_inv_cong [of _ "l_tracker s"]) (simp_all add: loop_defs split: prod.splits)
qed (auto simp: loop_defs tracker_inv_def resolveOnce_inv [unfolded tracker_inv_def]
    handleStreamLine_inv [unfolded tracker_inv_def])

lemma reachable_tracker_inv: "loopReachable parse reg n s \<Longrightarrow> tracker_inv parse (l_tracker s)"
proof (induction rule: loopReachable.induct)
  case (step s s')
  then show ?case using loopStep_tracker_inv by blast
qed (simp add: startLoop_def)


text \<open>
  The router is never more than 66 seconds behind. Whatever bigbrain publishes, however the
  polls, the stream and the nudges interleave, and even if the stream never delivers anything: as
  long as polls succeed, what the router forwards to is the leader that bigbrain had published at
  some instant of the last 66 seconds (or to nobody, if there was none).
\<close>

theorem router_staleness_bounded:
  assumes "loopReachable parse reg n s" and "evolving reg n" and "sendable parse reg n"
    and "\<not> l_failed s" and "l_heard s \<noteq> None"
  shows "\<exists>a. l_clock s - 66 * second \<le> a \<and> a \<le> l_clock s \<and> Published (reg a) n
    \<and> lastAppliedSeq (l_tracker s) = Seq (fst (Leader (reg a) n))
    \<and> curURL (l_tracker s) = LeaderURL (fst (Leader (reg a) n))
    \<and> currentLeader (l_tracker s) False = parsedURL parse (LeaderURL (fst (Leader (reg a) n)))"
proof -
  note u = reachable_up_to_date [OF assms(1-3)] and c = reachable_cadence [OF assms(1)]
  obtain h where h: "l_heard s = Some h" "h \<le> l_clock s" "notBehind reg n h (l_tracker s)"
    using u assms(5) by (auto simp: up_to_date_def)
  have age: "l_clock s \<le> h + 66 * second"
  proof (cases "l_phase s")
    case (Asking again ans)
    then have "again" using u h(1) by (cases again) (auto simp: up_to_date_def)
    then show ?thesis using u c h(1) Asking assms(4) by (auto simp: up_to_date_def cadence_def)
  qed (use u c h(1) assms(4) in \<open>auto simp: up_to_date_def cadence_def\<close>)
  have "lastEpoch (l_tracker s) \<noteq> 0" using h(3) epoch_nonzero [OF assms(2)] by (simp add: notBehind_def)
  then obtain b where b: "b \<le> l_clock s" "holds reg n b (l_tracker s)"
    using u by (auto simp: up_to_date_def holds_some_def)
  have "\<exists>a. h \<le> a \<and> a \<le> l_clock s \<and> holds reg n a (l_tracker s)"
  proof (cases "h \<le> b")
    case True
    then show ?thesis using b by blast
  next
    case False
    then have "eventAt reg n h = eventAt reg n b"
      using events_ordered [OF assms(2), of b h] b(2) h(3) by (auto simp: holds_def notBehind_def)
    then have "holds reg n h (l_tracker s)" using b(2) h(3) by (simp add: holds_def notBehind_def)
    then show ?thesis using h(2) by blast
  qed
  then obtain a where a: "h \<le> a" "a \<le> l_clock s" "holds reg n a (l_tracker s)" by blast
  have "currentLeader (l_tracker s) False = parsedURL parse (curURL (l_tracker s))"
    using reachable_tracker_inv [OF assms(1)] by (simp add: tracker_inv_def currentLeader_def)
  then show ?thesis using a age by (intro exI [of _ a]) (simp add: holds_def eventAt_def)
qed

text \<open>A run: the first poll is answered by a registry that does not change; the stream cannot be opened.\<close>

definition sampleLoop :: loopState where
  "sampleLoop = beginLoop (startLoop sampleTracker 0)"

definition sampleAnswered :: loopState where
  "sampleAnswered = endPoll sampleParse False
     (Some (0, 200, LeaderPayload (fst (Leader sampleUpdated ''dev''))))
     (sampleLoop\<lparr>l_phase := Asking False (Some (0, 200, LeaderPayload (fst (Leader sampleUpdated ''dev''))))\<rparr>)"

lemma sampleLoop_reachable: "loopReachable sampleParse (\<lambda>_. sampleUpdated) ''dev'' sampleLoop"
  unfolding sampleLoop_def sampleTracker_def
  by (rule loopReachable.step [OF loopReachable.start loopStep.begins]) (simp add: startLoop_def)

lemma sample_reply:
  "handleGetLeader sampleUpdated ''dev'' = (200, LeaderPayload (fst (Leader sampleUpdated ''dev'')))"
  by code_simp

lemma sampleAnswered_reachable: "loopReachable sampleParse (\<lambda>_. sampleUpdated) ''dev'' sampleAnswered"
proof -
  have "loopReachable sampleParse (\<lambda>_. sampleUpdated) ''dev''
      (sampleLoop\<lparr>l_phase := Asking False (Some (l_clock sampleLoop, 200, LeaderPayload (fst (Leader sampleUpdated ''dev''))))\<rparr>)"
    by (rule loopReachable.step [OF sampleLoop_reachable loopStep.answered])
      (simp_all add: sampleLoop_def beginLoop_def sample_reply)
  moreover have "l_clock sampleLoop = 0" by (simp add: sampleLoop_def beginLoop_def startLoop_def)
  ultimately show ?thesis
    unfolding sampleAnswered_def
    by (intro loopReachable.step [OF _ loopStep.applied]) (simp_all)
qed

lemma sample_sendable: "sendable sampleParse (\<lambda>_. sampleUpdated) ''dev''"
proof -
  have "validEvent (fst (Leader sampleUpdated ''dev''))" "Seq (fst (Leader sampleUpdated ''dev'')) \<noteq> 0"
    "usableURL sampleParse (LeaderURL (fst (Leader sampleUpdated ''dev'')))"
    "length (replyBody (LeaderPayload (fst (Leader sampleUpdated ''dev'')))) \<le> 150"
    by code_simp+
  then show ?thesis by (simp add: sendable_def eventAt_def sample_reply bodyReadLimit_def)
qed

theorem polls_come_in_time_witness:
  "streamGate (l_tracker (dialFailed sampleLoop))
   \<and> l_clock (dialFailed sampleLoop) \<le> max (l_downAt (dialFailed sampleLoop)) (l_asked (dialFailed sampleLoop)) + 8 * second"
proof -
  have s: "l_stream sampleLoop = Dialing" by (simp add: sampleLoop_def beginLoop_def startLoop_def)
  have g: "streamGate (l_tracker (dialFailed sampleLoop))" "l_phase (dialFailed sampleLoop) \<noteq> Fresh"
    by (simp_all add: loop_defs gateFail_def sampleLoop_def startLoop_def sampleTracker_def newTracker_def)
  show ?thesis
    using polls_come_in_time [OF loopReachable.step [OF sampleLoop_reachable loopStep.dialFails [OF s]] g(2)] g(1)
    by simp
qed

theorem router_staleness_bounded_witness:
  "currentLeader (l_tracker sampleAnswered) False = parsedURL sampleParse ''http://a:3210''"
proof -
  have e: "evolving (\<lambda>_. sampleUpdated) ''dev''"
    by (simp add: evolving_def sample_reachable(3) evolves.same)
  have "Published sampleUpdated ''dev''" by code_simp
  then have q: "\<not> l_failed sampleAnswered" "l_heard sampleAnswered \<noteq> None"
    using poll_query [OF sample_reachable(3) sample_reply, of "pollReply (Some (0, 200, LeaderPayload (fst (Leader sampleUpdated ''dev''))))"]
      sample_sendable sample_reply
    by (simp_all add: sampleAnswered_def endPoll_def sendable_def eventAt_def pollReply_def sampleLoop_def
        beginLoop_def startLoop_def)
  have "LeaderURL (fst (Leader sampleUpdated ''dev'')) = ''http://a:3210''" by code_simp
  then show ?thesis
    using router_staleness_bounded [OF sampleAnswered_reachable e sample_sendable q] by auto
qed

end
