(* ===== verification/K8sClient.thy ===== *)
theory K8sClient
  imports Prelude
begin

text \<open>
  The Kubernetes client of bigbrain (\<open>k8sclient/k8sclient.go\<close>): which pods of a deployment
  are backends to poll, in which order, under which URL and with which priority.

  The API server's answer is an input (\<open>Inl\<close> an error, \<open>Inr\<close> the items of the pod list). A
  pod is the part of \<open>corev1.Pod\<close> the code reads.
\<close>

section \<open>Pods and backends\<close>

datatype podPhase = PodPending | PodRunning | PodSucceeded | PodFailed | PodUnknown

datatype conditionStatus = ConditionTrue | ConditionFalse | ConditionUnknown

record containerStatus =
  cs_Name :: string
  RestartCount :: i32

record podCondition =
  cond_Type :: string
  cond_Status :: conditionStatus

record containerPort =
  port_Name :: string
  ContainerPort :: int

record pod =
  pod_Name :: string
  pod_Namespace :: string
  Labels :: "(string, string) gomap"
  DeletionTimestamp :: "instant option"
  PodIP :: string
  Phase :: podPhase
  ContainerStatuses :: "containerStatus list"
  Conditions :: "podCondition list"
  Containers :: "containerPort list list"

record Backend =
  Pod :: string
  URL :: string
  Priority :: int
  Restarts :: i32

definition labelPrefix :: string where "labelPrefix = ''convex''"
definition labelDeployment :: string where "labelDeployment = labelPrefix @ ''/instance''"
definition labelRole :: string where "labelRole = labelPrefix @ ''/role''"
definition LabelComponent :: string where "LabelComponent = labelPrefix @ ''/component''"
definition containerName :: string where "containerName = ''backend''"

definition priorityLeaderDefault :: int where "priorityLeaderDefault = 100"
definition priorityFollowerDefault :: int where "priorityFollowerDefault = 0"

text \<open>The decimal form of \<open>BackendPort\<close> (3210).\<close>

definition BackendPort :: string where "BackendPort = ''3210''"

section \<open>The client\<close>

text \<open>
  \<open>New\<close>: the in-cluster configuration with client-side rate limiting switched off, or an error. The
  configuration the cluster offers and the clientset made of it are arguments.
\<close>

record 'c restConfig =
  QPS :: int
  restOf :: 'c

record 'cs kubeClient =
  clientset :: 'cs

datatype 'e kubeError = InClusterConfigError 'e | ClientsetError 'e

definition NewFromInterface :: "'cs \<Rightarrow> 'cs kubeClient" where
  "NewFromInterface cs = \<lparr>clientset = cs\<rparr>"

definition NewKubeClient ::
  "'e + 'c restConfig \<Rightarrow> ('c restConfig \<Rightarrow> 'e + 'cs) \<Rightarrow> 'e kubeError + 'cs kubeClient" where
  "NewKubeClient inCluster newForConfig =
     (case inCluster of
        Inl err \<Rightarrow> Inl (InClusterConfigError err)
      | Inr cf \<Rightarrow>
          (case newForConfig (cf\<lparr>QPS := -1\<rparr>) of
             Inl err \<Rightarrow> Inl (ClientsetError err)
           | Inr cs \<Rightarrow> Inr (NewFromInterface cs)))"

definition Clientset :: "'cs kubeClient \<Rightarrow> 'cs" where
  "Clientset c = clientset c"

lemma NewKubeClient_Inr:
  "NewKubeClient inCluster newForConfig = Inr c \<longleftrightarrow>
     (\<exists>cf. inCluster = Inr cf \<and> newForConfig (cf\<lparr>QPS := -1\<rparr>) = Inr (Clientset c))"
  by (auto simp: NewKubeClient_def NewFromInterface_def Clientset_def split: sum.splits)

section \<open>Discovery\<close>

fun restartsOf :: "containerStatus list \<Rightarrow> i32" where
  "restartsOf [] = 0"
| "restartsOf (cs # css) =
     (if cs_Name cs = containerName then RestartCount cs else restartsOf css)"

definition backendRestarts :: "pod \<Rightarrow> i32" where
  "backendRestarts p = restartsOf (ContainerStatuses p)"

definition priorityFor :: "string \<Rightarrow> int" where
  "priorityFor role =
     (if role = ''leader'' then priorityLeaderDefault else priorityFollowerDefault)"

text \<open>\<open>net.JoinHostPort\<close> brackets a host that contains a colon (an IPv6 address).\<close>

definition joinHostPort :: "string \<Rightarrow> string \<Rightarrow> string" where
  "joinHostPort host port =
     (if CHR '':'' \<in> set host then ''['' @ host @ '']:'' @ port else host @ '':'' @ port)"

definition backendSelector :: "string \<Rightarrow> string" where
  "backendSelector name =
     labelDeployment @ ''='' @ name @ '','' @ labelRole @ '','' @ LabelComponent @ ''=backend''"

definition skipPod :: "pod \<Rightarrow> bool" where
  "skipPod p = ((DeletionTimestamp p \<noteq> None \<or> PodIP p = '''')
     \<or> (Phase p = PodFailed \<or> Phase p = PodSucceeded))"

definition toBackend :: "pod \<Rightarrow> Backend" where
  "toBackend p =
     \<lparr>Pod = pod_Name p,
      URL = ''http://'' @ joinHostPort (PodIP p) BackendPort,
      Priority = priorityFor (gget (Labels p) labelRole ''''),
      Restarts = backendRestarts p\<rparr>"

fun collectBackends :: "pod list \<Rightarrow> Backend list" where
  "collectBackends [] = []"
| "collectBackends (p # ps) =
     (if skipPod p then collectBackends ps else toBackend p # collectBackends ps)"

text \<open>
  \<open>list\<close> is the API server: from namespace and label selector to an error or the items.
  \<open>sort.Slice\<close> by pod name gives the ascending order; it says nothing on pods of equal name,
  which one namespace cannot hold, so a stable sort is as good as any.
\<close>

definition DiscoverBackends ::
  "(string \<Rightarrow> string \<Rightarrow> 'e + pod list) \<Rightarrow> string \<Rightarrow> string \<Rightarrow> 'e + Backend list" where
  "DiscoverBackends list ns name =
     (case list ns (backendSelector name) of
        Inl err \<Rightarrow> Inl err
      | Inr items \<Rightarrow> Inr (sort_key Pod (collectBackends items)))"

text \<open>Readiness as the metrics scraper asks for it: the first \<open>Ready\<close> condition decides.\<close>

fun readyCondition :: "podCondition list \<Rightarrow> bool" where
  "readyCondition [] = False"
| "readyCondition (c # cs) =
     (if cond_Type c = ''Ready'' then cond_Status c = ConditionTrue else readyCondition cs)"

definition PodReady :: "pod \<Rightarrow> bool" where
  "PodReady p = (if Phase p \<noteq> PodRunning then False else readyCondition (Conditions p))"

section \<open>Facts\<close>

lemma collectBackends_filter:
  "collectBackends ps = map toBackend (filter (\<lambda>p. \<not> skipPod p) ps)"
  by (induction ps) auto

lemma Pod_toBackend [simp]: "Pod (toBackend p) = pod_Name p"
  by (simp add: toBackend_def)

lemma restartsOf_find:
  "restartsOf css = (case find (\<lambda>c. cs_Name c = ''backend'') css of None \<Rightarrow> 0 | Some c \<Rightarrow> RestartCount c)"
  by (induction css) (simp_all add: containerName_def)

text \<open>A backend spelt out.\<close>

lemma toBackend_iff:
  "b = toBackend p \<longleftrightarrow>
     Pod b = pod_Name p
     \<and> URL b = (if CHR '':'' \<in> set (PodIP p) then ''http://['' @ PodIP p @ '']:3210'' else ''http://'' @ PodIP p @ '':3210'')
     \<and> Priority b = (if map_of (Labels p) ''convex/role'' = Some ''leader'' then 100 else 0)
     \<and> Restarts b = (case find (\<lambda>c. cs_Name c = ''backend'') (ContainerStatuses p) of None \<Rightarrow> 0 | Some c \<Rightarrow> RestartCount c)"
  by (cases b) (auto simp: toBackend_def backendRestarts_def restartsOf_find priorityFor_def joinHostPort_def
      BackendPort_def labelRole_def labelPrefix_def gget_def priorityLeaderDefault_def priorityFollowerDefault_def
      split: option.splits)

lemma distinct_collectBackends:
  "distinct (map pod_Name ps) \<Longrightarrow> distinct (map Pod (collectBackends ps))"
  by (induction ps) (auto simp: collectBackends_filter)

lemma URL_nonempty: "b \<in> set (collectBackends ps) \<Longrightarrow> URL b \<noteq> ''''"
  by (auto simp: collectBackends_filter toBackend_def)

lemma discover_members:
  "DiscoverBackends list ns name = Inr bs \<Longrightarrow>
     \<exists>items. list ns (backendSelector name) = Inr items
       \<and> mset bs = mset (map toBackend (filter (\<lambda>p. \<not> skipPod p) items))
       \<and> sorted (map Pod bs)"
  by (auto simp: DiscoverBackends_def collectBackends_filter split: sum.splits)

lemma discover_distinct:
  assumes "DiscoverBackends list ns name = Inr bs"
    and "\<And>items. list ns (backendSelector name) = Inr items \<Longrightarrow> distinct (map pod_Name items)"
  shows "distinct (map Pod bs)"
proof -
  obtain items where items: "list ns (backendSelector name) = Inr items"
    and bs: "bs = sort_key Pod (collectBackends items)"
    using assms(1) by (auto simp: DiscoverBackends_def split: sum.splits)
  have "distinct (map Pod (collectBackends items))"
    using assms(2) [OF items] by (rule distinct_collectBackends)
  moreover have "mset bs = mset (collectBackends items)"
    by (simp add: bs)
  ultimately show ?thesis
    by (metis mset_map_distinct)
qed

text \<open>
  C40: discovery returns exactly one backend for every pod that is not being deleted, has an
  address and has neither failed nor succeeded: with the name of the pod, its address and the port
  3210 as URL (an IPv6 address in brackets), priority 100 for the role \<open>leader\<close> and 0 for every other,
  and the restart count of the container \<open>backend\<close>, the first of that name, if there is one. The
  backends come in ascending order of their names, and (names being unique in a namespace)
  without repetition.
\<close>

theorem discover_exact:
  assumes "list ns (backendSelector name) = Inr items" and "distinct (map pod_Name items)"
  shows "\<exists>bs. DiscoverBackends list ns name = Inr bs
      \<and> (\<forall>b. b \<in> set bs \<longleftrightarrow> (\<exists>p \<in> set items.
            DeletionTimestamp p = None \<and> PodIP p \<noteq> '''' \<and> Phase p \<noteq> PodFailed \<and> Phase p \<noteq> PodSucceeded
          \<and> Pod b = pod_Name p
          \<and> URL b = (if CHR '':'' \<in> set (PodIP p) then ''http://['' @ PodIP p @ '']:3210'' else ''http://'' @ PodIP p @ '':3210'')
          \<and> Priority b = (if map_of (Labels p) ''convex/role'' = Some ''leader'' then 100 else 0)
          \<and> Restarts b = (case find (\<lambda>c. cs_Name c = ''backend'') (ContainerStatuses p) of None \<Rightarrow> 0 | Some c \<Rightarrow> RestartCount c)))
      \<and> sorted (map Pod bs) \<and> distinct (map Pod bs)"
proof -
  obtain bs where bs: "DiscoverBackends list ns name = Inr bs"
    using assms(1) by (simp add: DiscoverBackends_def)
  have "distinct (map Pod bs)"
    by (rule discover_distinct [OF bs]) (use assms in auto)
  moreover have "set bs = toBackend ` {p \<in> set items. \<not> skipPod p}"
    using bs assms(1) by (auto simp: DiscoverBackends_def collectBackends_filter)
  then have "b \<in> set bs \<longleftrightarrow> (\<exists>p \<in> set items. \<not> skipPod p \<and> b = toBackend p)" for b by blast
  ultimately show ?thesis
    using bs discover_members [OF bs] by (auto simp: skipPod_def toBackend_iff)
qed

definition samplePod :: "string \<Rightarrow> string \<Rightarrow> string \<Rightarrow> podPhase \<Rightarrow> pod" where
  "samplePod name role ip phase =
     \<lparr>pod_Name = name, pod_Namespace = ''convex-dev'', Labels = [(labelRole, role)],
      DeletionTimestamp = None, PodIP = ip, Phase = phase,
      ContainerStatuses = [\<lparr>cs_Name = ''backend'', RestartCount = 2\<rparr>],
      Conditions = [\<lparr>cond_Type = ''Ready'', cond_Status = ConditionTrue\<rparr>], Containers = []\<rparr>"

theorem discover_exact_witness:
  "\<exists>bs. DiscoverBackends
      (\<lambda>_ _. Inr [samplePod ''backend-1'' ''follower'' ''10.0.0.2'' PodRunning,
                 samplePod ''backend-0'' ''leader'' ''10.0.0.1'' PodRunning,
                 (samplePod ''backend-2'' ''follower'' ''10.0.0.3'' PodRunning)\<lparr>DeletionTimestamp := Some 0\<rparr>,
                 samplePod ''backend-3'' ''follower'' ''10.0.0.4'' PodFailed] :: string + pod list)
      ''convex-dev'' ''dev'' = Inr bs \<and> sorted (map Pod bs)
    \<and> \<lparr>Pod = ''backend-0'', URL = ''http://10.0.0.1:3210'', Priority = 100, Restarts = 2\<rparr> \<in> set bs
    \<and> ''backend-2'' \<notin> Pod ` set bs \<and> ''backend-3'' \<notin> Pod ` set bs"
proof -
  let ?items = "[samplePod ''backend-1'' ''follower'' ''10.0.0.2'' PodRunning,
    samplePod ''backend-0'' ''leader'' ''10.0.0.1'' PodRunning,
    (samplePod ''backend-2'' ''follower'' ''10.0.0.3'' PodRunning)\<lparr>DeletionTimestamp := Some 0\<rparr>,
    samplePod ''backend-3'' ''follower'' ''10.0.0.4'' PodFailed]"
  have d: "distinct (map pod_Name ?items)" by (simp add: samplePod_def)
  note D = discover_exact [of "\<lambda>_ _. Inr ?items :: string + pod list" "''convex-dev''" "''dev''" ?items, OF refl d]
  then obtain bs where bs: "DiscoverBackends (\<lambda>_ _. Inr ?items :: string + pod list) ''convex-dev'' ''dev'' = Inr bs"
    "sorted (map Pod bs)" and mem: "\<And>b. b \<in> set bs \<longleftrightarrow> (\<exists>p \<in> set ?items.
            DeletionTimestamp p = None \<and> PodIP p \<noteq> '''' \<and> Phase p \<noteq> PodFailed \<and> Phase p \<noteq> PodSucceeded
          \<and> Pod b = pod_Name p
          \<and> URL b = (if CHR '':'' \<in> set (PodIP p) then ''http://['' @ PodIP p @ '']:3210'' else ''http://'' @ PodIP p @ '':3210'')
          \<and> Priority b = (if map_of (Labels p) ''convex/role'' = Some ''leader'' then 100 else 0)
          \<and> Restarts b = (case find (\<lambda>c. cs_Name c = ''backend'') (ContainerStatuses p) of None \<Rightarrow> 0 | Some c \<Rightarrow> RestartCount c))"
    by (elim exE conjE) (rule that, assumption, assumption, erule spec)
  have "\<lparr>Pod = ''backend-0'', URL = ''http://10.0.0.1:3210'', Priority = 100, Restarts = 2\<rparr> \<in> set bs"
    unfolding mem by (simp add: samplePod_def labelRole_def labelPrefix_def)
  moreover have no: "Pod b \<noteq> ''backend-2''" "Pod b \<noteq> ''backend-3''" if "b \<in> set bs" for b
    using that unfolding mem by (auto simp: samplePod_def)
  have "''backend-2'' \<notin> Pod ` set bs" "''backend-3'' \<notin> Pod ` set bs"
    by (rule notI, erule imageE, erule (1) no [THEN notE, OF _ sym])+
  ultimately show ?thesis using bs by (intro exI [of _ bs] conjI)
qed

end
