(* ===== verification/BackendClient.thy ===== *)
theory BackendClient
  imports GoStd
begin

text \<open>
  The HTTP client that bigbrain uses to poll and to actuate the backends
  (\<open>backend/backend.go\<close>).

  The network is an input: what \<open>http.Client.Do\<close> returns for a request, and the bytes a
  response body delivers before it ends or fails. Building a request may fail on a malformed
  URL (\<open>newRequest\<close>), and decoding a body is the decoder of \<open>encoding/json\<close> for the
  \<open>Leadership\<close> struct (\<open>decode\<close>); both are arguments of the definitions that use them. The theory
  \<open>BackendApi\<close> gives the decoder for the struct.
\<close>

section \<open>Data\<close>

record Leadership =
  Role :: string
  IsLeader :: bool
  LatestTS :: u64
  LeaseTS :: "u64 option"
  LeaseUnverifiedSecs :: "u64 option"
  TailerHealthy :: bool

definition noLeadership :: Leadership where
  "noLeadership = \<lparr>Role = '''', IsLeader = False, LatestTS = 0, LeaseTS = None,
     LeaseUnverifiedSecs = None, TailerHealthy = False\<rparr>"

definition maxBodyBytes :: nat where "maxBodyBytes = 4096"

datatype httpMethod = MethodGet | MethodPost

record request =
  rq_Method :: httpMethod
  rq_URL :: string
  rq_Token :: "string option"

text \<open>A body: the bytes that arrive, and the error that ends them (\<open>None\<close>: end of file).\<close>

record 'e response =
  StatusCode :: int
  bodyBytes :: string
  bodyError :: "'e option"

datatype 'e clientError =
    RequestError 'e
  | TransportError 'e
  | StatusError string int string
  | DecodeError string 'e

section \<open>Operations\<close>

text \<open>\<open>io.ReadAll(io.LimitReader(body, maxBodyBytes))\<close>: an error after the limit is not seen.\<close>

definition readLimited :: "'e response \<Rightarrow> 'e + string" where
  "readLimited resp =
     (if length (bodyBytes resp) \<ge> maxBodyBytes then Inr (take maxBodyBytes (bodyBytes resp))
      else case bodyError resp of None \<Rightarrow> Inr (bodyBytes resp) | Some err \<Rightarrow> Inl err)"

text \<open>\<open>do\<close> returns the status (0 without a response), the body and the error.\<close>

definition doRequest ::
  "(request \<Rightarrow> 'e + 'e response) \<Rightarrow> request \<Rightarrow> int \<times> string \<times> 'e option" where
  "doRequest net req =
     (case net req of
        Inl err \<Rightarrow> (0, '''', Some err)
      | Inr resp \<Rightarrow>
          (case readLimited resp of
             Inl err \<Rightarrow> (StatusCode resp, '''', Some err)
           | Inr body \<Rightarrow> (StatusCode resp, body, None)))"

definition pollLeadership ::
  "(string \<Rightarrow> 'e option) \<Rightarrow> (request \<Rightarrow> 'e + 'e response) \<Rightarrow> (string \<Rightarrow> 'e + Leadership)
    \<Rightarrow> string \<Rightarrow> 'e clientError + Leadership" where
  "pollLeadership newRequest net decode base =
     (case newRequest (base @ ''/instance/leadership'') of
        Some err \<Rightarrow> Inl (RequestError err)
      | None \<Rightarrow>
          (case doRequest net \<lparr>rq_Method = MethodGet, rq_URL = base @ ''/instance/leadership'',
                               rq_Token = None\<rparr> of
             (status, body, err) \<Rightarrow>
               (case err of
                  Some e \<Rightarrow> Inl (TransportError e)
                | None \<Rightarrow>
                    if status \<noteq> 200 then Inl (StatusError base status body)
                    else (case decode body of
                            Inl e \<Rightarrow> Inl (DecodeError base e)
                          | Inr l \<Rightarrow> Inr l))))"

text \<open>
  The connection wrapper of \<open>post\<close>: each \<open>Write\<close> reports how many bytes the connection took;
  \<open>written\<close> is set as soon as one write took any.
\<close>

fun trackedWrites :: "bool \<Rightarrow> int list \<Rightarrow> bool" where
  "trackedWrites written [] = written"
| "trackedWrites written (n # ns) = trackedWrites (if n > 0 then True else written) ns"

definition setControlPlaneToken :: "(string, string) gomap \<Rightarrow> string \<Rightarrow> request \<Rightarrow> request" where
  "setControlPlaneToken tokens deployment req =
     (let token = gget tokens deployment '''' in
      if token \<noteq> '''' then req\<lparr>rq_Token := Some token\<rparr> else req)"

text \<open>
  \<open>post\<close> returns the status, whether the request may have reached the backend, and the error.
  \<open>writes\<close> are the byte counts the connection accepted during the call.
\<close>

definition post ::
  "(string \<Rightarrow> 'e option) \<Rightarrow> (request \<Rightarrow> 'e + 'e response) \<Rightarrow> int list
    \<Rightarrow> (string, string) gomap \<Rightarrow> string \<Rightarrow> string \<Rightarrow> int \<times> bool \<times> 'e option" where
  "post newRequest net writes tokens deployment url =
     (case newRequest url of
        Some err \<Rightarrow> (0, False, Some err)
      | None \<Rightarrow>
          (let req = setControlPlaneToken tokens deployment
                 \<lparr>rq_Method = MethodPost, rq_URL = url, rq_Token = None\<rparr>;
               (status, _, err) = doRequest net req
           in if status = 0 then (0, trackedWrites False writes, err)
              else (status, True, None)))"

definition Promote ::
  "(string \<Rightarrow> 'e option) \<Rightarrow> (request \<Rightarrow> 'e + 'e response) \<Rightarrow> int list
    \<Rightarrow> (string, string) gomap \<Rightarrow> string \<Rightarrow> string \<Rightarrow> int \<times> bool \<times> 'e option" where
  "Promote newRequest net writes tokens deployment base =
     post newRequest net writes tokens deployment (base @ ''/instance/promote'')"

definition demoteURL :: "string \<Rightarrow> u64 option \<Rightarrow> string" where
  "demoteURL base leaseTS =
     (case leaseTS of
        None \<Rightarrow> base @ ''/instance/demote''
      | Some ts \<Rightarrow> base @ ''/instance/demote'' @ ''?lease_ts='' @ FormatUint ts)"

definition Demote ::
  "(string \<Rightarrow> 'e option) \<Rightarrow> (request \<Rightarrow> 'e + 'e response) \<Rightarrow> int list
    \<Rightarrow> (string, string) gomap \<Rightarrow> string \<Rightarrow> string \<Rightarrow> u64 option \<Rightarrow> int \<times> 'e option" where
  "Demote newRequest net writes tokens deployment base leaseTS =
     (case post newRequest net writes tokens deployment (demoteURL base leaseTS) of
        (status, _, err) \<Rightarrow> (status, err))"

section \<open>Facts\<close>

lemma trackedWrites_iff: "trackedWrites w ns \<longleftrightarrow> w \<or> (\<exists>n \<in> set ns. n > 0)"
  by (induction ns arbitrary: w) auto

lemma readLimited_bound: "readLimited resp = Inr body \<Longrightarrow> length body \<le> maxBodyBytes"
  by (auto simp: readLimited_def split: if_splits option.splits)

lemma pollLeadership_ok:
  "pollLeadership newRequest net decode base = Inr l \<Longrightarrow>
     \<exists>resp body. net \<lparr>rq_Method = MethodGet, rq_URL = base @ ''/instance/leadership'',
                      rq_Token = None\<rparr> = Inr resp
       \<and> StatusCode resp = 200 \<and> readLimited resp = Inr body \<and> decode body = Inr l
       \<and> length body \<le> maxBodyBytes"
  using readLimited_bound
  by (auto simp: pollLeadership_def doRequest_def split: option.splits sum.splits if_splits)

text \<open>
  With a network whose responses carry a non-zero status, an actuation reports an error
  exactly when it has no status; a status is the one of the backend's response (even when
  reading the body failed) and counts as sent; and a request reported as not sent either was
  never built or had none of its bytes accepted by the connection, so no backend acted on it.
\<close>

theorem post_outcome:
  assumes "\<And>rq resp. net rq = Inr resp \<Longrightarrow> StatusCode resp \<noteq> 0"
    and "post newRequest net writes tokens deployment url = (code, sent, err)"
  shows "(err \<noteq> None \<longleftrightarrow> code = 0)
    \<and> (code \<noteq> 0 \<longrightarrow> sent \<and> (\<exists>rq resp. net rq = Inr resp \<and> StatusCode resp = code
        \<and> rq_Method rq = MethodPost \<and> rq_URL rq = url))
    \<and> (\<not> sent \<longrightarrow> code = 0 \<and> (newRequest url \<noteq> None \<or> (\<forall>n \<in> set writes. n \<le> 0)))"
proof -
  let ?rq = "setControlPlaneToken tokens deployment
    \<lparr>rq_Method = MethodPost, rq_URL = url, rq_Token = None\<rparr>"
  have rq: "rq_Method ?rq = MethodPost" "rq_URL ?rq = url"
    by (simp_all add: setControlPlaneToken_def Let_def)
  show ?thesis
  proof (cases "newRequest url")
    case (Some e)
    then have "code = 0 \<and> \<not> sent \<and> err = Some e" using assms(2) by (simp add: post_def)
    then show ?thesis using Some by simp
  next
    case new: None
    show ?thesis
    proof (cases "net ?rq")
      case (Inl e)
      then show ?thesis
        using assms(2) new by (auto simp: post_def doRequest_def trackedWrites_iff not_less)
    next
      case (Inr resp)
      then have "code = StatusCode resp \<and> sent \<and> err = None"
        using assms(1) [OF Inr] assms(2) new
        by (auto simp: post_def doRequest_def split: sum.splits)
      moreover have "\<exists>rq resp'. net rq = Inr resp' \<and> StatusCode resp' = StatusCode resp
          \<and> rq_Method rq = MethodPost \<and> rq_URL rq = url"
        using Inr rq by blast
      ultimately show ?thesis using assms(1) [OF Inr] by simp
    qed
  qed
qed

theorem post_outcome_witness:
  "\<exists>code sent err. post (\<lambda>_. None)
      (\<lambda>_. Inr \<lparr>StatusCode = 202, bodyBytes = '''', bodyError = Some ''reset''\<rparr>) [15]
      [] ''dev'' ''http://a:3210/instance/promote'' = (code, sent, err)
    \<and> code \<noteq> 0 \<and> sent \<and> err = (None :: string option)"
proof -
  let ?net = "\<lambda>_ :: request.
    Inr \<lparr>StatusCode = 202, bodyBytes = '''', bodyError = Some ''reset''\<rparr> :: string + string response"
  have p: "post (\<lambda>_. None) ?net [15] [] ''dev'' ''http://a:3210/instance/promote''
      = (202, True, None)"
    by (simp add: post_def doRequest_def readLimited_def setControlPlaneToken_def maxBodyBytes_def)
  show ?thesis
    using post_outcome [of ?net, OF _ p] p by (intro exI conjI) auto
qed

text \<open>
  The URL of a demotion determines its target and lease: two demotions with equal URLs
  and bases carry the same lease timestamp.
\<close>

theorem demoteURL_inject: "demoteURL base l1 = demoteURL base l2 \<longleftrightarrow> l1 = l2"
  by (cases l1; cases l2) (auto simp: demoteURL_def)

end
