(* ===== verification/Decide.thy ===== *)
theory Decide
  imports K8sClient BackendClient
begin

text \<open>
  The pure decision function of the election controller (\<open>election/decide.go\<close>): from what
  one polling round observed, who leads, whom to demote, whom to promote and whether to fail
  back to a preferred pod.
\<close>

section \<open>Data\<close>

record observation =
  be :: Backend
  status :: Leadership
  reach :: bool
  wasTransitioning :: bool

record demoteTarget =
  dt_pod :: string
  dt_url :: string
  dt_leaseTS :: "u64 option"

record failbackState =
  candidate :: string
  restarts :: i32
  eligibleSince :: instant

definition noFailback :: failbackState where
  "noFailback = \<lparr>candidate = '''', restarts = 0, eligibleSince = zero_time\<rparr>"

record decision =
  dec_leaderPod :: string
  dec_leaderURL :: string
  liveLeaderCount :: nat
  incumbentUnreachable :: bool
  hasTransitioning :: bool
  promoteTarget :: "observation option"
  demotes :: "demoteTarget list"
  failbackTarget :: "observation option"
  dec_failback :: failbackState

record failbackParams =
  enabled :: bool
  stabilityWindow :: duration
  warmthLagNs :: u64
  fb_now :: instant
  prior :: failbackState

record decideParams =
  incumbent :: string
  dp_leaseUnverifiedGrace :: duration
  attempted :: "(string, instant) gomap"
  dp_failback :: failbackParams

abbreviation obPod :: "observation \<Rightarrow> string" where "obPod ob \<equiv> Pod (be ob)"

section \<open>Predicates on observations\<close>

text \<open>
  A claim with an unverified lease counts only while the lease has been unverified for at most
  \<open>grace\<close>, in whole seconds (\<open>uint64(grace/time.Second)\<close>, \<open>grace\<close> being positive there).
\<close>

definition isLiveLeaderClaim :: "observation \<Rightarrow> duration \<Rightarrow> bool" where
  "isLiveLeaderClaim ob grace =
     (if \<not> reach ob \<or> \<not> IsLeader (status ob) then False
      else if grace \<le> 0 then True
      else (case LeaseUnverifiedSecs (status ob) of
              None \<Rightarrow> True
            | Some secs \<Rightarrow> secs \<le> word_of_int (grace div second)))"

definition claimedLeaders :: "observation list \<Rightarrow> duration \<Rightarrow> observation list" where
  "claimedLeaders obs grace = filter (\<lambda>ob. isLiveLeaderClaim ob grace) obs"

definition isTransitioning :: "observation \<Rightarrow> bool" where
  "isTransitioning ob =
     (if \<not> reach ob then wasTransitioning ob
      else if IsLeader (status ob) then False
      else LeaseTS (status ob) \<noteq> None \<or> Role (status ob) = ''promoting'')"

definition anyTransitioning :: "observation list \<Rightarrow> bool" where
  "anyTransitioning obs = list_ex isTransitioning obs"

definition isPromotable :: "observation \<Rightarrow> bool" where
  "isPromotable ob = (reach ob \<and> \<not> IsLeader (status ob) \<and> \<not> isTransitioning ob
     \<and> TailerHealthy (status ob))"

fun firstUnreach :: "observation list \<Rightarrow> string \<Rightarrow> bool" where
  "firstUnreach [] pod = False"
| "firstUnreach (ob # obs) pod = (if obPod ob = pod then \<not> reach ob else firstUnreach obs pod)"

definition incumbentDiscoveredUnreachable :: "observation list \<Rightarrow> string \<Rightarrow> bool" where
  "incumbentDiscoveredUnreachable obs inc =
     (if inc = '''' then False else firstUnreach obs inc)"

section \<open>Choosing: the comparisons and the scans\<close>

definition leaseOf :: "observation \<Rightarrow> u64 \<times> bool" where
  "leaseOf ob = (case LeaseTS (status ob) of None \<Rightarrow> (0, False) | Some ts \<Rightarrow> (ts, True))"

definition betterLeader :: "observation \<Rightarrow> observation \<Rightarrow> bool" where
  "betterLeader a b =
     (let (ta, aok) = leaseOf a; (tb, bok) = leaseOf b in
      if aok \<and> bok \<and> ta \<noteq> tb then ta > tb
      else if aok \<noteq> bok then aok
      else obPod a < obPod b)"

definition morePreferredCandidate :: "observation \<Rightarrow> observation \<Rightarrow> bool" where
  "morePreferredCandidate a b =
     (if Priority (be a) \<noteq> Priority (be b) then Priority (be a) > Priority (be b)
      else if LatestTS (status a) \<noteq> LatestTS (status b)
      then LatestTS (status a) > LatestTS (status b)
      else obPod a < obPod b)"

definition lessRecentlyAttempted ::
  "(string, instant) gomap \<Rightarrow> observation \<Rightarrow> observation \<Rightarrow> bool" where
  "lessRecentlyAttempted att a b =
     (let ta = gget att (obPod a) zero_time; tb = gget att (obPod b) zero_time in
      if ta \<noteq> tb then ta < tb else morePreferredCandidate a b)"

text \<open>
  The loop all three choices share: keep the best element so far among those that pass
  \<open>ok\<close>, replacing it only by a strictly better one.
\<close>

fun scanBest ::
  "('a \<Rightarrow> bool) \<Rightarrow> ('a \<Rightarrow> 'a \<Rightarrow> bool) \<Rightarrow> 'a option \<Rightarrow> 'a list \<Rightarrow> 'a option" where
  "scanBest ok better best [] = best"
| "scanBest ok better best (x # xs) =
     (if \<not> ok x then scanBest ok better best xs
      else (case best of
              None \<Rightarrow> scanBest ok better (Some x) xs
            | Some y \<Rightarrow> scanBest ok better (if better x y then Some x else best) xs))"

text \<open>\<open>pickLeader\<close> starts from \<open>claims[0]\<close>: it is called on a non-empty list only.\<close>

fun pickLeader :: "observation list \<Rightarrow> observation option" where
  "pickLeader [] = None"
| "pickLeader (c # cs) = scanBest (\<lambda>_. True) betterLeader (Some c) cs"

definition bestCandidate :: "observation list \<Rightarrow> (string, instant) gomap \<Rightarrow> observation option" where
  "bestCandidate obs att = scanBest isPromotable (lessRecentlyAttempted att) None obs"

definition warmEnough :: "u64 \<Rightarrow> u64 \<Rightarrow> u64 \<Rightarrow> bool" where
  "warmEnough candTS leaderTS lagNs =
     (if candTS \<ge> leaderTS then True else leaderTS - candTS \<le> lagNs)"

definition failbackEligible :: "observation \<Rightarrow> u64 \<Rightarrow> observation \<Rightarrow> bool" where
  "failbackEligible leader lag ob =
     (isPromotable ob \<and> \<not> Priority (be ob) \<le> Priority (be leader)
      \<and> warmEnough (LatestTS (status ob)) (LatestTS (status leader)) lag)"

definition bestFailbackCandidate ::
  "observation list \<Rightarrow> observation \<Rightarrow> u64 \<Rightarrow> observation option" where
  "bestFailbackCandidate obs leader lag =
     scanBest (failbackEligible leader lag) morePreferredCandidate None obs"

section \<open>The decision\<close>

definition retainedFailback :: "observation list \<Rightarrow> failbackState \<Rightarrow> failbackState" where
  "retainedFailback obs pr =
     (if list_ex (\<lambda>ob. obPod ob = candidate pr \<and> Restarts (be ob) = restarts pr
                    \<and> isPromotable ob) obs
      then pr else noFailback)"

definition evaluateFailback ::
  "observation list \<Rightarrow> observation \<Rightarrow> failbackParams \<Rightarrow> observation option \<times> failbackState" where
  "evaluateFailback obs leader p =
     (if \<not> enabled p then (None, noFailback)
      else (case bestFailbackCandidate obs leader (warmthLagNs p) of
              None \<Rightarrow> (None, noFailback)
            | Some cand \<Rightarrow>
                (let since = (if candidate (prior p) = obPod cand
                                \<and> restarts (prior p) = Restarts (be cand)
                                \<and> \<not> IsZero (eligibleSince (prior p))
                              then eligibleSince (prior p) else fb_now p);
                     st = \<lparr>candidate = obPod cand, restarts = Restarts (be cand),
                           eligibleSince = since\<rparr>
                 in if time_sub (fb_now p) since \<ge> stabilityWindow p then (Some cand, st)
                    else (None, st))))"

definition demoteTargetOf :: "observation \<Rightarrow> demoteTarget" where
  "demoteTargetOf ob =
     \<lparr>dt_pod = obPod ob, dt_url = URL (be ob), dt_leaseTS = LeaseTS (status ob)\<rparr>"

definition noDecision :: decision where
  "noDecision = \<lparr>dec_leaderPod = '''', dec_leaderURL = '''', liveLeaderCount = 0,
     incumbentUnreachable = False, hasTransitioning = False, promoteTarget = None,
     demotes = [], failbackTarget = None, dec_failback = noFailback\<rparr>"

definition decideLeaderless :: "observation list \<Rightarrow> decideParams \<Rightarrow> decision \<Rightarrow> decision" where
  "decideLeaderless obs p d0 =
     (let d = d0\<lparr>dec_failback := retainedFailback obs (prior (dp_failback p)),
                 incumbentUnreachable := incumbentDiscoveredUnreachable obs (incumbent p)\<rparr>
      in if hasTransitioning d then d
         else (case bestCandidate obs (attempted p) of
                 Some cand \<Rightarrow> d\<lparr>promoteTarget := Some cand\<rparr>
               | None \<Rightarrow> d))"

definition decideLed ::
  "observation list \<Rightarrow> decideParams \<Rightarrow> observation list \<Rightarrow> observation \<Rightarrow> decision \<Rightarrow> decision" where
  "decideLed obs p claims leader d0 =
     (let d = d0\<lparr>dec_leaderPod := obPod leader, dec_leaderURL := URL (be leader),
                 demotes := map demoteTargetOf (filter (\<lambda>ob. obPod ob \<noteq> obPod leader) claims)\<rparr>;
          (fb, st) = evaluateFailback obs leader (dp_failback p);
          d' = d\<lparr>dec_failback := st\<rparr>
      in if length claims = 1 \<and> \<not> hasTransitioning d' then d'\<lparr>failbackTarget := fb\<rparr> else d')"

text \<open>\<open>pickLeader claims\<close> is \<open>None\<close> exactly for \<open>len(claims) == 0\<close>.\<close>

definition decide :: "observation list \<Rightarrow> decideParams \<Rightarrow> decision" where
  "decide obs p =
     (let claims = claimedLeaders obs (dp_leaseUnverifiedGrace p);
          d = noDecision\<lparr>liveLeaderCount := length claims, hasTransitioning := anyTransitioning obs\<rparr>
      in case pickLeader claims of
           None \<Rightarrow> decideLeaderless obs p d
         | Some leader \<Rightarrow> decideLed obs p claims leader d)"

section \<open>The comparisons are linear orders on ranks\<close>

text \<open>
  Each comparison orders observations by a rank; smaller is better. The ranks are linearly
  ordered types of their own, so that the order lemmas of the library apply to them.
\<close>

datatype leader_rank = LeaderRank "u64 option" string

fun leaseAbove :: "u64 option \<Rightarrow> u64 option \<Rightarrow> bool" where
  "leaseAbove (Some s) (Some t) = (s > t)"
| "leaseAbove (Some s) None = True"
| "leaseAbove None l = False"

instantiation leader_rank :: linorder
begin

fun less_leader_rank :: "leader_rank \<Rightarrow> leader_rank \<Rightarrow> bool" where
  "less_leader_rank (LeaderRank l p) (LeaderRank m q) = (leaseAbove l m \<or> (l = m \<and> p < q))"

definition less_eq_leader_rank :: "leader_rank \<Rightarrow> leader_rank \<Rightarrow> bool" where
  "less_eq_leader_rank a b = (a < b \<or> a = b)"

instance
proof
  fix x y z :: leader_rank
  have irrefl: "\<not> x < x"
    by (cases x; cases "case x of LeaderRank l p \<Rightarrow> l") auto
  have trans: "x < y \<Longrightarrow> y < z \<Longrightarrow> x < z" for x y z :: leader_rank
    by (cases x; cases y; cases z) (auto elim!: leaseAbove.elims)
  have asym: "x < y \<Longrightarrow> \<not> y < x" for x y :: leader_rank
    by (cases x; cases y) (auto elim!: leaseAbove.elims)
  show "(x < y) = (x \<le> y \<and> \<not> y \<le> x)"
    using irrefl asym by (auto simp: less_eq_leader_rank_def)
  show "x \<le> x" by (simp add: less_eq_leader_rank_def)
  show "x \<le> y \<Longrightarrow> y \<le> z \<Longrightarrow> x \<le> z"
    using trans by (auto simp: less_eq_leader_rank_def)
  show "x \<le> y \<Longrightarrow> y \<le> x \<Longrightarrow> x = y"
    using asym by (auto simp: less_eq_leader_rank_def)
  show "x \<le> y \<or> y \<le> x"
  proof (cases x; cases y)
    fix l p m q assume "x = LeaderRank l p" "y = LeaderRank m q"
    then show ?thesis
      by (cases l; cases m) (auto simp: less_eq_leader_rank_def)
  qed
qed

end

datatype candidate_rank = CandidateRank instant int u64 string

instantiation candidate_rank :: linorder
begin

fun less_candidate_rank :: "candidate_rank \<Rightarrow> candidate_rank \<Rightarrow> bool" where
  "less_candidate_rank (CandidateRank t p l n) (CandidateRank t' p' l' n') =
     (t < t' \<or> (t = t' \<and> (p > p' \<or> (p = p' \<and> (l > l' \<or> (l = l' \<and> n < n'))))))"

definition less_eq_candidate_rank :: "candidate_rank \<Rightarrow> candidate_rank \<Rightarrow> bool" where
  "less_eq_candidate_rank a b = (a < b \<or> a = b)"

instance
proof
  fix x y z :: candidate_rank
  have trans: "x < y \<Longrightarrow> y < z \<Longrightarrow> x < z" for x y z :: candidate_rank
    by (cases x; cases y; cases z) auto
  have asym: "x < y \<Longrightarrow> \<not> y < x" for x y :: candidate_rank
    by (cases x; cases y) auto
  show "(x < y) = (x \<le> y \<and> \<not> y \<le> x)"
    using asym less_eq_candidate_rank_def by metis
  show "x \<le> x" by (simp add: less_eq_candidate_rank_def)
  show "x \<le> y \<Longrightarrow> y \<le> z \<Longrightarrow> x \<le> z"
    using trans by (auto simp: less_eq_candidate_rank_def)
  show "x \<le> y \<Longrightarrow> y \<le> x \<Longrightarrow> x = y"
    using asym by (auto simp: less_eq_candidate_rank_def)
  show "x \<le> y \<or> y \<le> x"
    by (cases x; cases y) (auto simp: less_eq_candidate_rank_def)
qed

end

definition leaderRank :: "observation \<Rightarrow> leader_rank" where
  "leaderRank ob = LeaderRank (LeaseTS (status ob)) (obPod ob)"

definition attemptRank :: "(string, instant) gomap \<Rightarrow> observation \<Rightarrow> candidate_rank" where
  "attemptRank att ob = CandidateRank (gget att (obPod ob) zero_time) (Priority (be ob))
     (LatestTS (status ob)) (obPod ob)"

abbreviation preferenceRank :: "observation \<Rightarrow> candidate_rank" where
  "preferenceRank \<equiv> attemptRank []"

section \<open>Scanning for the best element\<close>

locale preference =
  fixes better :: "'a \<Rightarrow> 'a \<Rightarrow> bool"
    and rank :: "'a \<Rightarrow> 'r::linorder"
  assumes better_iff: "better a b \<longleftrightarrow> rank a < rank b"
begin

lemma scan_mem:
  "scanBest ok better best xs = Some y \<Longrightarrow> (y \<in> set xs \<and> ok y) \<or> best = Some y"
  by (induction xs arbitrary: best) (fastforce split: if_splits option.splits)+

lemma scan_Some: "best \<noteq> None \<Longrightarrow> scanBest ok better best xs \<noteq> None"
  by (induction xs arbitrary: best) (auto split: option.splits)

lemma scan_None: "scanBest ok better None xs = None \<longleftrightarrow> (\<forall>x \<in> set xs. \<not> ok x)"
  using scan_Some by (induction xs) auto

lemma scan_least:
  "scanBest ok better best xs = Some y \<Longrightarrow>
     (\<forall>x \<in> set xs. ok x \<longrightarrow> rank y \<le> rank x) \<and> (\<forall>z. best = Some z \<longrightarrow> rank y \<le> rank z)"
proof (induction xs arbitrary: best)
  case Nil
  then show ?case by auto
next
  case (Cons x xs)
  show ?case
  proof (cases "ok x")
    case False
    then show ?thesis using Cons by auto
  next
    case ok: True
    show ?thesis
    proof (cases best)
      case None
      then show ?thesis using Cons.IH [of "Some x"] Cons.prems ok by auto
    next
      case (Some z)
      then show ?thesis
        using Cons.IH [of "if better x z then Some x else best"] Cons.prems ok
        by (auto simp: better_iff not_less split: if_splits)
    qed
  qed
qed

lemma scan_iff:
  assumes inj: "inj_on rank {x \<in> set xs. ok x}"
  shows "scanBest ok better None xs = Some y \<longleftrightarrow>
    y \<in> set xs \<and> ok y \<and> (\<forall>x \<in> set xs. ok x \<longrightarrow> rank y \<le> rank x)"
proof
  show "scanBest ok better None xs = Some y \<Longrightarrow>
      y \<in> set xs \<and> ok y \<and> (\<forall>x \<in> set xs. ok x \<longrightarrow> rank y \<le> rank x)"
    using scan_mem [of ok None xs y] scan_least [of ok None xs y] by auto
next
  assume y: "y \<in> set xs \<and> ok y \<and> (\<forall>x \<in> set xs. ok x \<longrightarrow> rank y \<le> rank x)"
  then obtain z where z: "scanBest ok better None xs = Some z"
    using scan_None [of ok xs] by fastforce
  then have "z \<in> set xs" "ok z" "rank z \<le> rank y"
    using scan_mem [OF z] scan_least [OF z] y by auto
  then have "z = y" using y inj by (auto simp: inj_on_def intro: antisym)
  then show "scanBest ok better None xs = Some y" using z by simp
qed

lemma scan_perm:
  assumes "set xs = set ys" and "inj_on rank {x \<in> set xs. ok x}"
  shows "scanBest ok better None xs = scanBest ok better None ys"
proof -
  have "scanBest ok better None xs = Some y \<longleftrightarrow> scanBest ok better None ys = Some y" for y
    using scan_iff [OF assms(2)] scan_iff [of ys ok y] assms by simp
  then show ?thesis by (metis not_Some_eq)
qed

end

interpretation leader_pref: preference betterLeader leaderRank
proof
  fix a b
  show "betterLeader a b \<longleftrightarrow> leaderRank a < leaderRank b"
    by (cases "LeaseTS (status a)"; cases "LeaseTS (status b)")
      (auto simp: betterLeader_def leaseOf_def leaderRank_def Let_def)
qed

interpretation failback_pref: preference morePreferredCandidate preferenceRank
  by standard (auto simp: morePreferredCandidate_def attemptRank_def)

interpretation attempt_pref: preference "lessRecentlyAttempted att" "attemptRank att" for att
  by standard
    (auto simp: lessRecentlyAttempted_def morePreferredCandidate_def attemptRank_def Let_def)

lemma rank_pod:
  "leaderRank a = leaderRank b \<Longrightarrow> obPod a = obPod b"
  "attemptRank att a = attemptRank att b \<Longrightarrow> obPod a = obPod b"
  by (simp_all add: leaderRank_def attemptRank_def)

lemma distinct_rank_inj:
  assumes "distinct (map obPod obs)"
  shows "inj_on leaderRank {x \<in> set obs. P x}" "inj_on (attemptRank att) {x \<in> set obs. P x}"
  using assms by (auto intro!: inj_onI dest!: rank_pod dest: distinct_map_eqD)

section \<open>The decision, case by case\<close>

lemma pickLeader_scan: "pickLeader cs = scanBest (\<lambda>_. True) betterLeader None cs"
  by (cases cs) auto

lemma pickLeader_None: "pickLeader cs = None \<longleftrightarrow> cs = []"
  using leader_pref.scan_None [of "\<lambda>_. True" cs] by (cases cs) (auto simp: pickLeader_scan)

lemmas decide_simps = decide_def decideLeaderless_def decideLed_def noDecision_def Let_def

lemma decide_leaderless:
  "claimedLeaders obs (dp_leaseUnverifiedGrace p) = [] \<Longrightarrow>
     decide obs p = \<lparr>dec_leaderPod = '''', dec_leaderURL = '''', liveLeaderCount = 0,
       incumbentUnreachable = incumbentDiscoveredUnreachable obs (incumbent p),
       hasTransitioning = anyTransitioning obs,
       promoteTarget = (if anyTransitioning obs then None else bestCandidate obs (attempted p)),
       demotes = [], failbackTarget = None,
       dec_failback = retainedFailback obs (prior (dp_failback p))\<rparr>"
  by (simp add: decide_simps split: option.splits)

lemma decide_led:
  assumes "claims = claimedLeaders obs (dp_leaseUnverifiedGrace p)" "pickLeader claims = Some l"
  shows "decide obs p = \<lparr>dec_leaderPod = obPod l, dec_leaderURL = URL (be l),
       liveLeaderCount = length claims, incumbentUnreachable = False,
       hasTransitioning = anyTransitioning obs, promoteTarget = None,
       demotes = map demoteTargetOf (filter (\<lambda>ob. obPod ob \<noteq> obPod l) claims),
       failbackTarget = (if length claims = 1 \<and> \<not> anyTransitioning obs
                         then fst (evaluateFailback obs l (dp_failback p)) else None),
       dec_failback = snd (evaluateFailback obs l (dp_failback p))\<rparr>"
  using assms by (simp add: decide_simps split: prod.splits)

lemma decide_count: "liveLeaderCount (decide obs p) =
    length (claimedLeaders obs (dp_leaseUnverifiedGrace p))"
  by (simp add: decide_simps split: option.splits prod.splits)

lemma decide_count_0:
  "liveLeaderCount (decide obs p) = 0 \<longleftrightarrow> claimedLeaders obs (dp_leaseUnverifiedGrace p) = []"
  by (simp add: decide_count)

lemma decide_transitioning: "hasTransitioning (decide obs p) = anyTransitioning obs"
  by (simp add: decide_simps split: option.splits prod.splits)

lemma decide_cases:
  obtains (leaderless) "claimedLeaders obs (dp_leaseUnverifiedGrace p) = []"
    "liveLeaderCount (decide obs p) = 0"
  | (led) l where "pickLeader (claimedLeaders obs (dp_leaseUnverifiedGrace p)) = Some l"
    "l \<in> set (claimedLeaders obs (dp_leaseUnverifiedGrace p))"
    "liveLeaderCount (decide obs p) > 0"
proof (cases "pickLeader (claimedLeaders obs (dp_leaseUnverifiedGrace p))")
  case None
  then show ?thesis using leaderless by (simp add: pickLeader_None decide_count)
next
  case (Some l)
  then have l: "l \<in> set (claimedLeaders obs (dp_leaseUnverifiedGrace p))"
    using leader_pref.scan_mem [of "\<lambda>_. True" None _ l] by (simp add: pickLeader_scan)
  have "claimedLeaders obs (dp_leaseUnverifiedGrace p) \<noteq> []" using l by auto
  then have "liveLeaderCount (decide obs p) > 0" by (simp add: decide_count)
  then show ?thesis using led [OF Some] l by blast
qed

lemma claimedLeaders_iff: "ob \<in> set (claimedLeaders obs g) \<longleftrightarrow> ob \<in> set obs \<and> isLiveLeaderClaim ob g"
  by (auto simp: claimedLeaders_def)

lemma bestCandidate_iff:
  assumes "distinct (map obPod obs)"
  shows "bestCandidate obs att = Some c \<longleftrightarrow>
    c \<in> set obs \<and> isPromotable c
    \<and> (\<forall>ob \<in> set obs. isPromotable ob \<longrightarrow> attemptRank att c \<le> attemptRank att ob)"
  unfolding bestCandidate_def by (rule attempt_pref.scan_iff [OF distinct_rank_inj(2) [OF assms]])

lemma bestCandidate_None: "bestCandidate obs att = None \<longleftrightarrow> (\<forall>ob \<in> set obs. \<not> isPromotable ob)"
  by (simp add: bestCandidate_def attempt_pref.scan_None)

lemma bestCandidate_mem:
  "bestCandidate obs att = Some c \<Longrightarrow> c \<in> set obs \<and> isPromotable c
    \<and> (\<forall>ob \<in> set obs. isPromotable ob \<longrightarrow> \<not> lessRecentlyAttempted att ob c)"
  using attempt_pref.scan_mem [of isPromotable att None obs c]
    attempt_pref.scan_least [of isPromotable att None obs c]
  by (auto simp: bestCandidate_def attempt_pref.better_iff not_less)

lemma evaluateFailback_Some:
  assumes "evaluateFailback obs l q = (Some t, st)"
  shows "enabled q \<and> t \<in> set obs \<and> failbackEligible l (warmthLagNs q) t
    \<and> candidate st = obPod t \<and> restarts st = Restarts (be t)
    \<and> stabilityWindow q \<le> time_sub (fb_now q) (eligibleSince st)
    \<and> (eligibleSince st = fb_now q \<or> st = prior q \<and> \<not> IsZero (eligibleSince (prior q)))"
proof -
  have en: "enabled q" using assms by (auto simp: evaluateFailback_def split: if_splits)
  then obtain c where c: "bestFailbackCandidate obs l (warmthLagNs q) = Some c"
    using assms by (auto simp: evaluateFailback_def split: option.splits)
  then have "c \<in> set obs \<and> failbackEligible l (warmthLagNs q) c"
    unfolding bestFailbackCandidate_def
    using failback_pref.scan_mem [of _ None obs c] by blast
  then show ?thesis
    using assms en c by (auto simp: evaluateFailback_def Let_def split: if_splits)
qed

section \<open>Properties\<close>

definition sampleBackend :: "string \<Rightarrow> int \<Rightarrow> Backend" where
  "sampleBackend pod prio = \<lparr>Pod = pod, URL = ''http://'' @ pod, Priority = prio, Restarts = 0\<rparr>"

definition sampleObs :: "string \<Rightarrow> int \<Rightarrow> bool \<Rightarrow> u64 \<Rightarrow> u64 option \<Rightarrow> observation" where
  "sampleObs pod prio lead ts lease =
     \<lparr>be = sampleBackend pod prio,
      status = \<lparr>Role = '''', IsLeader = lead, LatestTS = ts, LeaseTS = lease,
                LeaseUnverifiedSecs = None, TailerHealthy = True\<rparr>,
      reach = True, wasTransitioning = False\<rparr>"

definition sampleParams :: decideParams where
  "sampleParams = \<lparr>incumbent = '''', dp_leaseUnverifiedGrace = 60 * second, attempted = [],
     dp_failback = \<lparr>enabled = True, stabilityWindow = 15 * second, warmthLagNs = 5,
       fb_now = 100 * second,
       prior = \<lparr>candidate = ''b'', restarts = 0, eligibleSince = 80 * second\<rparr>\<rparr>\<rparr>"

lemmas sampleDecide_defs = sampleObs_def sampleBackend_def sampleParams_def decide_simps
  claimedLeaders_def isLiveLeaderClaim_def anyTransitioning_def isTransitioning_def
  isPromotable_def bestCandidate_def evaluateFailback_def bestFailbackCandidate_def
  failbackEligible_def warmEnough_def betterLeader_def leaseOf_def IsZero_def zero_time_def
  second_def demoteTargetOf_def time_sub_def min_int64_def max_int64_def

text \<open>
  C10: promotion is safe and happens whenever it can: a round proposes a promotion exactly when
  no observed pod makes a live leader claim, none is mid-transition and some pod is promotable;
  the target is then a promotable pod, nothing is demoted or failed back in the same round, and
  no promotable pod ranks strictly before the target.
\<close>

theorem promotion_iff_leaderless:
  "(promoteTarget (decide obs p) \<noteq> None \<longleftrightarrow>
      (\<forall>ob \<in> set obs. \<not> isLiveLeaderClaim ob (dp_leaseUnverifiedGrace p) \<and> \<not> isTransitioning ob)
      \<and> (\<exists>ob \<in> set obs. isPromotable ob))
    \<and> (\<forall>t. promoteTarget (decide obs p) = Some t \<longrightarrow>
        t \<in> set obs \<and> isPromotable t
        \<and> demotes (decide obs p) = [] \<and> failbackTarget (decide obs p) = None
        \<and> (\<forall>ob \<in> set obs. isPromotable ob \<longrightarrow> \<not> lessRecentlyAttempted (attempted p) ob t))"
proof (cases obs p rule: decide_cases)
  case leaderless
  have live: "\<forall>ob \<in> set obs. \<not> isLiveLeaderClaim ob (dp_leaseUnverifiedGrace p)"
    using leaderless(1) by (auto simp: claimedLeaders_def filter_empty_conv)
  show ?thesis
    using live bestCandidate_None [of obs "attempted p"]
      bestCandidate_mem [of obs "attempted p"]
    by (auto simp: decide_leaderless [OF leaderless(1)] anyTransitioning_def list_ex_iff)
next
  case (led l)
  then show ?thesis
    by (auto simp: decide_led [OF refl led(1)] claimedLeaders_iff)
qed

theorem promotion_iff_leaderless_witness:
  "promoteTarget (decide [sampleObs ''a'' 0 False 7 None, sampleObs ''b'' 100 False 5 None]
     sampleParams) = Some (sampleObs ''b'' 100 False 5 None)
   \<and> \<not> lessRecentlyAttempted [] (sampleObs ''a'' 0 False 7 None) (sampleObs ''b'' 100 False 5 None)"
proof -
  let ?a = "sampleObs ''a'' 0 False 7 None" and ?b = "sampleObs ''b'' 100 False 5 None"
  have pt: "promoteTarget (decide [?a, ?b] sampleParams) = Some ?b"
    by (simp add: sampleDecide_defs lessRecentlyAttempted_def morePreferredCandidate_def)
  have "isPromotable ?a" by (simp add: sampleDecide_defs)
  then show ?thesis
    using promotion_iff_leaderless [of "[?a, ?b]" sampleParams] pt
    by (simp add: sampleParams_def)
qed

text \<open>
  C11: split brain is resolved in favour of one leader: if any pod makes a live claim (pod
  names being distinct), the published leader is such a claimant and strictly beats every
  other one (freshest lease, then smallest name); exactly the other claimants are demoted,
  each with the lease it was observed with; and nothing is promoted.
\<close>

theorem leader_unique_rest_demoted:
  assumes "distinct (map obPod obs)" and "liveLeaderCount (decide obs p) > 0"
  shows "\<exists>l \<in> set obs. isLiveLeaderClaim l (dp_leaseUnverifiedGrace p)
    \<and> dec_leaderPod (decide obs p) = obPod l \<and> dec_leaderURL (decide obs p) = URL (be l)
    \<and> (\<forall>ob \<in> set obs. isLiveLeaderClaim ob (dp_leaseUnverifiedGrace p) \<longrightarrow> ob \<noteq> l \<longrightarrow>
          betterLeader l ob \<and> demoteTargetOf ob \<in> set (demotes (decide obs p)))
    \<and> obPod l \<notin> dt_pod ` set (demotes (decide obs p))
    \<and> length (demotes (decide obs p)) = liveLeaderCount (decide obs p) - 1
    \<and> promoteTarget (decide obs p) = None"
proof -
  let ?claims = "claimedLeaders obs (dp_leaseUnverifiedGrace p)"
  obtain l where l: "pickLeader ?claims = Some l" "l \<in> set ?claims"
    using assms(2) by (cases obs p rule: decide_cases) auto
  have dist: "distinct (map obPod ?claims)"
    using assms(1) by (simp add: claimedLeaders_def distinct_map_filter)
  have least: "leaderRank l \<le> leaderRank ob" if "ob \<in> set ?claims" for ob
    using leader_pref.scan_least [of "\<lambda>_. True" None ?claims l] l(1) that
    by (simp add: pickLeader_scan)
  have strict: "betterLeader l ob" if "ob \<in> set ?claims" "ob \<noteq> l" for ob
    using least [OF that(1)] rank_pod(1) [of l ob] distinct_map_eqD [OF dist l(2) that(1)] that(2)
    by (auto simp: leader_pref.better_iff order_less_le)
  have other: "obPod ob \<noteq> obPod l" if "ob \<in> set ?claims" "ob \<noteq> l" for ob
    using distinct_map_eqD [OF dist that(1) l(2)] that(2) by blast
  have "length (filter (\<lambda>ob. obPod ob \<noteq> obPod l) ?claims) = length ?claims - 1"
  proof -
    have "filter (\<lambda>ob. obPod ob \<noteq> obPod l) ?claims = filter (\<lambda>ob. ob \<noteq> l) ?claims"
      using other by (intro filter_cong) auto
    moreover have "distinct ?claims" using dist by (simp add: distinct_map)
    ultimately show ?thesis
      using l(2) by (simp add: length_filter_neq)
  qed
  then show ?thesis
    using l strict other
    by (intro bexI [of _ l]) (auto simp: decide_led [OF refl l(1)] claimedLeaders_iff
        demoteTargetOf_def)
qed

theorem leader_unique_rest_demoted_witness:
  "dec_leaderPod (decide [sampleObs ''a'' 0 True 9 (Some 50), sampleObs ''b'' 0 True 9 (Some 150)]
      sampleParams) = ''b''
   \<and> length (demotes (decide
      [sampleObs ''a'' 0 True 9 (Some 50), sampleObs ''b'' 0 True 9 (Some 150)] sampleParams)) = 1"
proof -
  let ?obs = "[sampleObs ''a'' 0 True 9 (Some 50), sampleObs ''b'' 0 True 9 (Some 150)]"
  have d: "distinct (map obPod ?obs)" by (simp add: sampleDecide_defs)
  have c: "liveLeaderCount (decide ?obs sampleParams) = 2" by (simp add: sampleDecide_defs)
  have "dec_leaderPod (decide ?obs sampleParams) = ''b''" by (simp add: sampleDecide_defs)
  then show ?thesis
    using leader_unique_rest_demoted [OF d, of sampleParams] c by auto
qed

lemma warmEnough_iff: "warmEnough c l lag \<longleftrightarrow> unat l \<le> unat c + unat lag"
proof (cases "l \<le> c")
  case True
  then show ?thesis by (auto simp: warmEnough_def word_le_nat_alt)
next
  case False
  then have "c \<le> l" by simp
  then have "unat (l - c) = unat l - unat c" by (rule unat_sub)
  then show ?thesis using False by (auto simp: warmEnough_def word_le_nat_alt)
qed

text \<open>
  C27: a failback is proposed only over a single uncontested leader, with no pod mid-transition,
  to a promotable pod of strictly higher priority whose replication lag behind the leader is
  within the configured bound; and, for a positive stability window, only if the previous round
  already tracked that very pod incarnation, first seen eligible at least the window ago.
\<close>

theorem failback_guarded:
  assumes "failbackTarget (decide obs p) = Some t" and "0 < stabilityWindow (dp_failback p)"
  shows "enabled (dp_failback p) \<and> t \<in> set obs \<and> isPromotable t
    \<and> (\<forall>ob \<in> set obs. \<not> isTransitioning ob)
    \<and> (\<exists>l. claimedLeaders obs (dp_leaseUnverifiedGrace p) = [l]
        \<and> dec_leaderPod (decide obs p) = obPod l
        \<and> Priority (be l) < Priority (be t)
        \<and> unat (LatestTS (status l)) \<le> unat (LatestTS (status t)) + unat (warmthLagNs (dp_failback p)))
    \<and> dec_failback (decide obs p) = prior (dp_failback p)
    \<and> candidate (prior (dp_failback p)) = obPod t
    \<and> restarts (prior (dp_failback p)) = Restarts (be t)
    \<and> stabilityWindow (dp_failback p)
        \<le> time_sub (fb_now (dp_failback p)) (eligibleSince (prior (dp_failback p)))"
proof (cases obs p rule: decide_cases)
  case leaderless
  then show ?thesis using assms(1) by (simp add: decide_leaderless)
next
  case (led l)
  let ?claims = "claimedLeaders obs (dp_leaseUnverifiedGrace p)" and ?q = "dp_failback p"
  note d = decide_led [OF refl led(1)]
  have one: "length ?claims = 1" "\<not> anyTransitioning obs"
    and ev: "fst (evaluateFailback obs l ?q) = Some t"
    using assms(1) by (auto simp: d split: if_splits)
  obtain st where st: "evaluateFailback obs l ?q = (Some t, st)"
    using ev by (cases "evaluateFailback obs l ?q") auto
  have claims: "?claims = [l]" using one(1) led(2) by (cases ?claims) auto
  note F = evaluateFailback_Some [OF st]
  have "eligibleSince st \<noteq> fb_now ?q" using F assms(2) by auto
  then have "st = prior ?q" using F by blast
  then show ?thesis
    using F claims one(2) st
    by (auto simp: d failbackEligible_def warmEnough_iff anyTransitioning_def list_ex_iff)
qed

theorem failback_guarded_witness:
  "Priority (be (sampleObs ''a'' 0 True 9 (Some 50))) < Priority (be (sampleObs ''b'' 100 False 6 None))
   \<and> failbackTarget (decide [sampleObs ''a'' 0 True 9 (Some 50), sampleObs ''b'' 100 False 6 None]
        sampleParams) = Some (sampleObs ''b'' 100 False 6 None)"
proof -
  let ?obs = "[sampleObs ''a'' 0 True 9 (Some 50), sampleObs ''b'' 100 False 6 None]"
  have f: "failbackTarget (decide ?obs sampleParams) = Some (sampleObs ''b'' 100 False 6 None)"
    by (simp add: sampleDecide_defs)
  have w: "0 < stabilityWindow (dp_failback sampleParams)" by (simp add: sampleDecide_defs)
  have "claimedLeaders ?obs (dp_leaseUnverifiedGrace sampleParams) = [sampleObs ''a'' 0 True 9 (Some 50)]"
    by (simp add: sampleDecide_defs)
  then show ?thesis using failback_guarded [OF f w] f by auto
qed

lemma firstUnreach_iff:
  "distinct (map obPod obs) \<Longrightarrow> firstUnreach obs pod \<longleftrightarrow> (\<exists>ob \<in> set obs. obPod ob = pod \<and> \<not> reach ob)"
  by (induction obs) (auto simp: rev_image_eqI)

lemma incumbentUnreachable_perm:
  "distinct (map obPod obs) \<Longrightarrow> distinct (map obPod obs') \<Longrightarrow> set obs = set obs' \<Longrightarrow>
     incumbentDiscoveredUnreachable obs i = incumbentDiscoveredUnreachable obs' i"
  by (simp add: incumbentDiscoveredUnreachable_def firstUnreach_iff)

text \<open>
  The decision does not depend on the order in which the pods were listed: permuting the
  observations (of distinct pods) permutes the demotions and changes nothing else.
\<close>

theorem decide_order_independent:
  assumes "mset obs = mset obs'" and "distinct (map obPod obs)"
  shows "decide obs' p = (decide obs p)\<lparr>demotes := demotes (decide obs' p)\<rparr>
    \<and> mset (demotes (decide obs' p)) = mset (demotes (decide obs p))"
proof -
  have set: "set obs = set obs'" using assms(1) by (rule mset_eq_setD)
  have dist: "distinct (map obPod obs')" using assms mset_map_distinct by blast
  let ?g = "dp_leaseUnverifiedGrace p"
  have claims: "mset (claimedLeaders obs ?g) = mset (claimedLeaders obs' ?g)"
    using assms(1) by (simp add: claimedLeaders_def)
  have pick: "pickLeader (claimedLeaders obs ?g) = pickLeader (claimedLeaders obs' ?g)"
    unfolding pickLeader_scan
  proof (rule leader_pref.scan_perm)
    show "set (claimedLeaders obs ?g) = set (claimedLeaders obs' ?g)"
      using claims by (rule mset_eq_setD)
    show "inj_on leaderRank {x \<in> set (claimedLeaders obs ?g). True}"
      using distinct_rank_inj(1) [OF assms(2), of "\<lambda>ob. isLiveLeaderClaim ob ?g"]
      by (simp add: claimedLeaders_def)
  qed
  have any: "anyTransitioning obs = anyTransitioning obs'"
    by (simp add: anyTransitioning_def list_ex_iff set)
  have best: "bestCandidate obs att = bestCandidate obs' att" for att
    unfolding bestCandidate_def
    by (rule attempt_pref.scan_perm [OF set distinct_rank_inj(2) [OF assms(2)]])
  have fail: "evaluateFailback obs l q = evaluateFailback obs' l q" for l q
    using failback_pref.scan_perm [OF set distinct_rank_inj(2) [OF assms(2)]]
    by (simp add: evaluateFailback_def bestFailbackCandidate_def)
  have retain: "retainedFailback obs pr = retainedFailback obs' pr" for pr
    by (simp add: retainedFailback_def list_ex_iff set)
  show ?thesis
  proof (cases obs p rule: decide_cases)
    case leaderless
    then have "claimedLeaders obs' ?g = []" using claims by simp
    then show ?thesis
      using leaderless any best retain incumbentUnreachable_perm [OF assms(2) dist set]
      by (simp add: decide_leaderless)
  next
    case (led l)
    then have "pickLeader (claimedLeaders obs' ?g) = Some l" using pick by simp
    then show ?thesis
      using led claims any fail mset_eq_length [OF claims]
      by (simp add: decide_led [OF refl])
  qed
qed

theorem decide_order_independent_witness:
  "decide [sampleObs ''b'' 0 True 9 (Some 150), sampleObs ''a'' 0 True 9 (Some 50)] sampleParams
     = decide [sampleObs ''a'' 0 True 9 (Some 50), sampleObs ''b'' 0 True 9 (Some 150)] sampleParams"
proof -
  let ?obs = "[sampleObs ''a'' 0 True 9 (Some 50), sampleObs ''b'' 0 True 9 (Some 150)]"
    and ?obs' = "[sampleObs ''b'' 0 True 9 (Some 150), sampleObs ''a'' 0 True 9 (Some 50)]"
  have m: "mset ?obs = mset ?obs'" by simp
  have d: "distinct (map obPod ?obs)" by (simp add: sampleDecide_defs)
  have "demotes (decide ?obs' sampleParams) = demotes (decide ?obs sampleParams)"
    by (simp add: sampleDecide_defs)
  then show ?thesis using decide_order_independent [OF m d, of sampleParams] by simp
qed

end
