(* ===== verification/Election.thy ===== *)
theory Election
  imports Decide Registry
begin

text \<open>
  The election controller of bigbrain (\<open>election/election.go\<close> and \<open>election/act.go\<close>): the
  state kept per deployment, the critical sections of a reconcile round, and what each round
  does to the registry and to the actuation goroutines.

  A method that holds \<open>c.mu\<close> is one function from state to state. \<open>reconcile\<close> is composed
  of four parts in the code's order (discover, poll and remember, decide and commit, act), so
  that \<open>ElectionSafety\<close> can interleave them with the actuation goroutines. A goroutine
  started by \<open>actGo\<close> is a task in \<open>tasks\<close>. Logging is not modelled. The clock readings, the
  answer of the API server and the answers of the backends are inputs.
\<close>

section \<open>Data\<close>

record Config =
  Interval :: duration
  PromoteDebounce :: int
  FailbackEnabled :: bool
  FailbackStability :: duration
  FailbackWarmthLagNs :: u64
  UnreachableLeaderGrace :: duration
  LeaseUnverifiedGrace :: duration
  EmptyDiscoveryDebounce :: int
  ActuationTimeout :: duration

definition DefaultConfig :: Config where
  "DefaultConfig = \<lparr>Interval = 2 * second, PromoteDebounce = 3, FailbackEnabled = True,
     FailbackStability = 15 * second, FailbackWarmthLagNs = 5000000000,
     UnreachableLeaderGrace = 60 * second, LeaseUnverifiedGrace = 60 * second,
     EmptyDiscoveryDebounce = 5, ActuationTimeout = 30 * second\<rparr>"

record deploymentRecord =
  leaderlessStreak :: int
  emptyStreak :: int
  incumbentPod :: string
  incumbentUnreachableSince :: instant
  promoting :: bool
  demoting :: bool
  discoveryDown :: bool
  failback :: failbackState
  transitioningSeen :: "(string, instant) gomap"
  promoteAttempts :: "(string, instant) gomap"

definition newDeploymentState :: deploymentRecord where
  "newDeploymentState = \<lparr>leaderlessStreak = 0, emptyStreak = 0, incumbentPod = '''',
     incumbentUnreachableSince = zero_time, promoting = False, demoting = False,
     discoveryDown = False, failback = noFailback, transitioningSeen = [],
     promoteAttempts = []\<rparr>"

text \<open>An actuation goroutine: before its request is answered, and before its deferred release.\<close>

datatype task =
    PromoteTask observation
  | PromoteRelease
  | DemoteTask "demoteTarget list"
  | DemoteRelease

record Controller =
  cfg :: Config
  reg :: Registry
  state :: "(string, deploymentRecord) gomap"
  tasks :: "(string \<times> task) list"

definition NewController :: "Config \<Rightarrow> Registry \<Rightarrow> Controller" where
  "NewController cf r = \<lparr>cfg = cf, reg = r, state = [], tasks = []\<rparr>"

text \<open>\<open>deploymentState(name)\<close> allocates a zero state on first use.\<close>

definition deploymentState :: "Controller \<Rightarrow> string \<Rightarrow> deploymentRecord" where
  "deploymentState c name = gget (state c) name newDeploymentState"

definition putState :: "Controller \<Rightarrow> string \<Rightarrow> deploymentRecord \<Rightarrow> Controller" where
  "putState c name st = c\<lparr>state := AList.update name st (state c)\<rparr>"

section \<open>Critical sections on one deployment\<close>

definition setDiscoveryDown :: "deploymentRecord \<Rightarrow> bool \<Rightarrow> deploymentRecord \<times> bool" where
  "setDiscoveryDown st down =
     (let st1 = (if down then st\<lparr>failback := noFailback\<rparr> else st) in
      if discoveryDown st1 = down then (st1, False)
      else (st1\<lparr>discoveryDown := down\<rparr>, True))"

text \<open>The \<open>switch\<close> of the loop over the observations, then the loop.\<close>

definition rememberOne ::
  "instant \<Rightarrow> observation \<Rightarrow> (string, instant) gomap \<Rightarrow> observation \<times> (string, instant) gomap" where
  "rememberOne pollStart ob seen =
     (let at = map_of seen (obPod ob) in
      if \<not> reach ob then (ob\<lparr>wasTransitioning := at \<noteq> None\<rparr>, seen)
      else if isTransitioning ob
      then (ob, case at of
                  None \<Rightarrow> AList.update (obPod ob) pollStart seen
                | Some t \<Rightarrow> if pollStart > t then AList.update (obPod ob) pollStart seen else seen)
      else (ob, case at of
                  None \<Rightarrow> seen
                | Some t \<Rightarrow> if t < pollStart then AList.delete (obPod ob) seen else seen))"

fun rememberLoop ::
  "instant \<Rightarrow> observation list \<Rightarrow> (string, instant) gomap \<Rightarrow> observation list \<times> (string, instant) gomap"
where
  "rememberLoop pollStart [] seen = ([], seen)"
| "rememberLoop pollStart (ob # obs) seen =
     (let (ob', seen') = rememberOne pollStart ob seen;
          (obs', seen'') = rememberLoop pollStart obs seen'
      in (ob' # obs', seen''))"

definition rememberTransitions ::
  "Config \<Rightarrow> deploymentRecord \<Rightarrow> observation list \<Rightarrow> instant \<Rightarrow> deploymentRecord \<times> observation list" where
  "rememberTransitions cf st obs pollStart =
     (let kept = filter (\<lambda>(pod, seen). \<not> time_sub pollStart seen \<ge> UnreachableLeaderGrace cf)
                   (transitioningSeen st);
          (obs', seen) = rememberLoop pollStart obs kept
      in (st\<lparr>transitioningSeen := seen\<rparr>, obs'))"

definition markTransitioning :: "deploymentRecord \<Rightarrow> string \<Rightarrow> instant \<Rightarrow> deploymentRecord" where
  "markTransitioning st pod now =
     st\<lparr>transitioningSeen := AList.update pod now (transitioningSeen st)\<rparr>"

definition recordPromoteAttempt :: "deploymentRecord \<Rightarrow> string \<Rightarrow> instant \<Rightarrow> deploymentRecord" where
  "recordPromoteAttempt st pod at =
     st\<lparr>promoteAttempts := AList.update pod at (promoteAttempts st)\<rparr>"

definition restartFailbackClock :: "deploymentRecord \<Rightarrow> instant \<Rightarrow> deploymentRecord" where
  "restartFailbackClock st at = st\<lparr>failback := (failback st)\<lparr>eligibleSince := at\<rparr>\<rparr>"

text \<open>The streak part and the retention part of \<open>commitState\<close>, then the whole.\<close>

definition commitStreaks :: "Config \<Rightarrow> deploymentRecord \<Rightarrow> decision \<Rightarrow> bool \<Rightarrow> deploymentRecord" where
  "commitStreaks cf st dec emptyList =
     (if emptyList
      then (let st1 = st\<lparr>emptyStreak := wrap64 (emptyStreak st + 1)\<rparr> in
            if emptyStreak st1 \<ge> EmptyDiscoveryDebounce cf then st1\<lparr>leaderlessStreak := 0\<rparr> else st1)
      else (let st1 = st\<lparr>emptyStreak := 0\<rparr> in
            if liveLeaderCount dec > 0 then st1\<lparr>leaderlessStreak := 0, promoteAttempts := []\<rparr>
            else if \<not> hasTransitioning dec
            then st1\<lparr>leaderlessStreak := wrap64 (leaderlessStreak st1 + 1)\<rparr>
            else st1))"

definition commitRetain ::
  "Config \<Rightarrow> deploymentRecord \<Rightarrow> decision \<Rightarrow> bool \<Rightarrow> instant \<Rightarrow> deploymentRecord \<times> bool" where
  "commitRetain cf st dec emptyList now =
     (if incumbentUnreachable dec
      then (let st1 = (if IsZero (incumbentUnreachableSince st)
                       then st\<lparr>incumbentUnreachableSince := now\<rparr> else st)
            in (st1, time_sub now (incumbentUnreachableSince st1) < UnreachableLeaderGrace cf))
      else if \<not> emptyList then (st\<lparr>incumbentUnreachableSince := zero_time\<rparr>, False)
      else (st, False))"

definition commitState ::
  "Config \<Rightarrow> deploymentRecord \<Rightarrow> decision \<Rightarrow> bool \<Rightarrow> instant
    \<Rightarrow> deploymentRecord \<times> int \<times> int \<times> bool" where
  "commitState cf st dec emptyList now =
     (let st1 = st\<lparr>failback := dec_failback dec\<rparr>;
          st2 = commitStreaks cf st1 dec emptyList;
          (st3, retain) = commitRetain cf st2 dec emptyList now
      in (st3, leaderlessStreak st3, emptyStreak st3, retain))"

text \<open>\<open>tryAcquire(&st.demoting)\<close>, \<open>tryAcquirePromote\<close> and the two releases.\<close>

definition tryAcquireDemote :: "deploymentRecord \<Rightarrow> deploymentRecord option" where
  "tryAcquireDemote st = (if demoting st then None else Some (st\<lparr>demoting := True\<rparr>))"

definition tryAcquirePromote :: "deploymentRecord \<Rightarrow> instant \<Rightarrow> deploymentRecord option" where
  "tryAcquirePromote st pollStart =
     (if promoting st then None
      else if list_ex (\<lambda>(_, seen). seen > pollStart) (transitioningSeen st) then None
      else Some (st\<lparr>promoting := True\<rparr>))"

definition releasePromote :: "deploymentRecord \<Rightarrow> deploymentRecord" where
  "releasePromote st = st\<lparr>promoting := False\<rparr>"

definition releaseDemote :: "deploymentRecord \<Rightarrow> deploymentRecord" where
  "releaseDemote st = st\<lparr>demoting := False\<rparr>"

section \<open>Actions\<close>

text \<open>\<open>setLeader\<close>: the incumbent and the registry change under one lock; \<open>None\<close> is a panic.\<close>

definition setLeader :: "Controller \<Rightarrow> string \<Rightarrow> string \<Rightarrow> string \<Rightarrow> Controller option" where
  "setLeader c name pod url =
     (let st = deploymentState c name;
          st1 = (if incumbentPod st \<noteq> pod then st\<lparr>incumbentPod := pod\<rparr> else st)
      in map_option (\<lambda>r. (putState c name st1)\<lparr>reg := r\<rparr>) (Update (reg c) name pod url))"

definition spawn :: "Controller \<Rightarrow> string \<Rightarrow> task \<Rightarrow> Controller" where
  "spawn c name t = c\<lparr>tasks := tasks c @ [(name, t)]\<rparr>"

definition actEmptyDiscovery :: "Controller \<Rightarrow> string \<Rightarrow> int \<Rightarrow> Controller option" where
  "actEmptyDiscovery c name streak =
     (if streak < EmptyDiscoveryDebounce (cfg c) then Some c else setLeader c name '''' '''')"

definition demoteAll :: "Controller \<Rightarrow> string \<Rightarrow> demoteTarget list \<Rightarrow> Controller" where
  "demoteAll c name targets =
     (if targets = [] then c
      else (case tryAcquireDemote (deploymentState c name) of
              None \<Rightarrow> c
            | Some st \<Rightarrow> spawn (putState c name st) name (DemoteTask targets)))"

definition actFailback :: "Controller \<Rightarrow> string \<Rightarrow> observation \<Rightarrow> instant \<Rightarrow> Controller" where
  "actFailback c name target pollStart =
     (case tryAcquirePromote (deploymentState c name) pollStart of
        None \<Rightarrow> c
      | Some st \<Rightarrow>
          spawn (putState c name (restartFailbackClock st pollStart)) name (PromoteTask target))"

definition actLeaderless ::
  "Controller \<Rightarrow> string \<Rightarrow> decision \<Rightarrow> int \<Rightarrow> bool \<Rightarrow> instant \<Rightarrow> Controller option" where
  "actLeaderless c name d streak retain pollStart =
     (if streak < PromoteDebounce (cfg c) then Some c
      else if retain then Some c
      else (case promoteTarget d of
              None \<Rightarrow> setLeader c name '''' ''''
            | Some target \<Rightarrow>
                (case tryAcquirePromote (deploymentState c name) pollStart of
                   None \<Rightarrow> Some c
                 | Some st \<Rightarrow>
                     (case setLeader (putState c name st) name '''' '''' of
                        None \<Rightarrow> None
                      | Some c1 \<Rightarrow>
                          Some (spawn
                            (putState c1 name (recordPromoteAttempt (deploymentState c1 name)
                               (obPod target) pollStart))
                            name (PromoteTask target))))))"

definition act ::
  "Controller \<Rightarrow> string \<Rightarrow> decision \<Rightarrow> int \<Rightarrow> bool \<Rightarrow> instant \<Rightarrow> Controller option" where
  "act c name d streak retain pollStart =
     (if liveLeaderCount d = 0 then actLeaderless c name d streak retain pollStart
      else (case setLeader c name (dec_leaderPod d) (dec_leaderURL d) of
              None \<Rightarrow> None
            | Some c1 \<Rightarrow>
                (let c2 = demoteAll c1 name (demotes d) in
                 Some (case failbackTarget d of
                         None \<Rightarrow> c2
                       | Some target \<Rightarrow> actFailback c2 name target pollStart))))"

section \<open>The actuation goroutines\<close>

text \<open>
  What a promote call reports (\<open>Promote\<close> of the backend client), or \<open>None\<close> if the call
  panicked (\<open>actGo\<close> recovers, and the deferred release still runs).
\<close>

type_synonym promoteAnswer = "(int \<times> bool \<times> bool) option"

definition promoteAndLog ::
  "deploymentRecord \<Rightarrow> observation \<Rightarrow> promoteAnswer \<Rightarrow> instant \<Rightarrow> deploymentRecord" where
  "promoteAndLog st target answer now =
     (case answer of
        None \<Rightarrow> st
      | Some (code, sent, failed) \<Rightarrow>
          if failed then (if sent then markTransitioning st (obPod target) now else st)
          else if code = 200 \<or> code = 202 then markTransitioning st (obPod target) now
          else st)"

datatype demoteOutcome =
    DemoteFailed | DemoteAccepted | DemoteDeclined | DemoteForbidden | DemoteUnexpected

definition demoteOutcomeOf :: "int \<times> 'e option \<Rightarrow> demoteOutcome" where
  "demoteOutcomeOf ans =
     (case ans of (code, err) \<Rightarrow>
        if err \<noteq> None then DemoteFailed
        else if code = 202 then DemoteAccepted
        else if code = 409 then DemoteDeclined
        else if code = 403 then DemoteForbidden
        else DemoteUnexpected)"

text \<open>The loop of \<open>demoteAll\<close>: every target is called in turn, whatever the others answered.\<close>

fun demoteLoop ::
  "(string \<Rightarrow> u64 option \<Rightarrow> int \<times> 'e option) \<Rightarrow> demoteTarget list \<Rightarrow> (string \<times> demoteOutcome) list" where
  "demoteLoop call [] = []"
| "demoteLoop call (a # as) =
     (dt_pod a, demoteOutcomeOf (call (dt_url a) (dt_leaseTS a))) # demoteLoop call as"

section \<open>A reconcile round\<close>

definition pollOne :: "Backend \<Rightarrow> Leadership option \<Rightarrow> observation" where
  "pollOne b ans =
     \<lparr>be = b, status = (case ans of None \<Rightarrow> noLeadership | Some l \<Rightarrow> l),
      reach = (ans \<noteq> None), wasTransitioning = False\<rparr>"

text \<open>The polls run concurrently, one slot of \<open>obs\<close> each; a failed or panicked poll is \<open>None\<close>.\<close>

definition pollAll :: "(Backend \<Rightarrow> Leadership option) \<Rightarrow> Backend list \<Rightarrow> observation list" where
  "pollAll polls pods = map (\<lambda>b. pollOne b (polls b)) pods"

definition reconcileDiscover ::
  "Controller \<Rightarrow> string \<Rightarrow> (string \<Rightarrow> 'e + Backend list) \<Rightarrow> Controller \<times> Backend list option" where
  "reconcileDiscover c name discover =
     (let st = deploymentState c name in
      case Namespace (reg c) name of
        None \<Rightarrow> (putState c name st, None)
      | Some ns \<Rightarrow>
          (case discover ns of
             Inl err \<Rightarrow> (putState c name (fst (setDiscoveryDown st True)), None)
           | Inr pods \<Rightarrow> (putState c name (fst (setDiscoveryDown st False)), Some pods)))"

definition reconcilePoll ::
  "Controller \<Rightarrow> string \<Rightarrow> Backend list \<Rightarrow> (Backend \<Rightarrow> Leadership option) \<Rightarrow> instant
    \<Rightarrow> Controller \<times> observation list" where
  "reconcilePoll c name pods polls pollStart =
     (let (st, obs) = rememberTransitions (cfg c) (deploymentState c name) (pollAll polls pods) pollStart
      in (putState c name st, obs))"

definition decideParamsOf :: "Config \<Rightarrow> deploymentRecord \<Rightarrow> instant \<Rightarrow> decideParams" where
  "decideParamsOf cf st now =
     \<lparr>incumbent = incumbentPod st, dp_leaseUnverifiedGrace = LeaseUnverifiedGrace cf,
      attempted = promoteAttempts st,
      dp_failback = \<lparr>enabled = FailbackEnabled cf, stabilityWindow = FailbackStability cf,
        warmthLagNs = FailbackWarmthLagNs cf, fb_now = now, prior = failback st\<rparr>\<rparr>"

definition reconcileDecide ::
  "Controller \<Rightarrow> string \<Rightarrow> observation list \<Rightarrow> instant \<Rightarrow> Controller \<times> decision \<times> int \<times> int \<times> bool" where
  "reconcileDecide c name obs now =
     (let st = deploymentState c name;
          dec = decide obs (decideParamsOf (cfg c) st now);
          (st', streak, estreak, retain) = commitState (cfg c) st dec (obs = []) now
      in (putState c name st', dec, streak, estreak, retain))"

definition reconcileAct ::
  "Controller \<Rightarrow> string \<Rightarrow> bool \<Rightarrow> decision \<Rightarrow> int \<Rightarrow> int \<Rightarrow> bool \<Rightarrow> instant \<Rightarrow> Controller option" where
  "reconcileAct c name emptyPods dec streak estreak retain pollStart =
     (if emptyPods then actEmptyDiscovery c name estreak
      else act c name dec streak retain pollStart)"

text \<open>One undisturbed round; \<open>None\<close> would be a panic, which \<open>reconcileSafe\<close> recovers from.\<close>

definition reconcile ::
  "Controller \<Rightarrow> string \<Rightarrow> (string \<Rightarrow> 'e + Backend list) \<Rightarrow> (Backend \<Rightarrow> Leadership option)
    \<Rightarrow> instant \<Rightarrow> instant \<Rightarrow> Controller option" where
  "reconcile c name discover polls pollStart now =
     (case reconcileDiscover c name discover of
        (c1, None) \<Rightarrow> Some c1
      | (c1, Some pods) \<Rightarrow>
          (let (c2, obs) = reconcilePoll c1 name pods polls pollStart;
               (c3, dec, streak, estreak, retain) = reconcileDecide c2 name obs now
           in reconcileAct c3 name (pods = []) dec streak estreak retain pollStart))"

end
