(* ===== verification/ElectionFacts.thy ===== *)
theory ElectionFacts
  imports Election
begin

text \<open>
  Undisturbed reconcile rounds: what a round touches, when it changes the published leader,
  and what sequences of rounds do (hysteresis, debounce, failover, fairness of retries,
  continuity of the failback candidate).
\<close>

section \<open>Controller state\<close>

lemma deploymentState_put [simp]:
  "deploymentState (putState c n st) m = (if m = n then st else deploymentState c m)"
  by (simp add: deploymentState_def putState_def)

lemma putState_fields [simp]:
  "reg (putState c n st) = reg c" "cfg (putState c n st) = cfg c" "tasks (putState c n st) = tasks c"
  by (simp_all add: putState_def)

lemma deploymentState_reg [simp]: "deploymentState (c\<lparr>reg := r\<rparr>) m = deploymentState c m"
  by (simp add: deploymentState_def)

lemma spawn_fields [simp]:
  "reg (spawn c n t) = reg c" "cfg (spawn c n t) = cfg c"
  "tasks (spawn c n t) = tasks c @ [(n, t)]"
  "deploymentState (spawn c n t) m = deploymentState c m"
  by (simp_all add: spawn_def deploymentState_def)

section \<open>What a round may touch\<close>

text \<open>
  \<open>frame c name c'\<close>: only the deployment \<open>name\<close> was touched, the registry stayed
  well-formed, and new tasks belong to \<open>name\<close>.
\<close>

definition frame :: "Controller \<Rightarrow> string \<Rightarrow> Controller \<Rightarrow> bool" where
  "frame c name c' = (cfg c' = cfg c \<and> (reg_inv (reg c) \<longrightarrow> reg_inv (reg c'))
     \<and> (\<forall>n. isKnown (reg c') n = isKnown (reg c) n)
     \<and> (\<forall>n. Namespace (reg c') n = Namespace (reg c) n)
     \<and> (\<forall>m. m \<noteq> name \<longrightarrow> deploymentState c' m = deploymentState c m
          \<and> Leader (reg c') m = Leader (reg c) m)
     \<and> (\<exists>ts. tasks c' = tasks c @ map (Pair name) ts))"

lemma frame_refl [simp]: "frame c name c"
  by (auto simp: frame_def)

lemma frame_trans: "frame c name c1 \<Longrightarrow> frame c1 name c2 \<Longrightarrow> frame c name c2"
  unfolding frame_def by (auto simp: map_append [symmetric] simp del: map_append)

lemma frame_put [simp]: "frame c name (putState c name st)"
  by (auto simp: frame_def)

lemma frame_spawn [simp]: "frame c name (spawn c name t)"
  by (auto simp: frame_def intro: exI [of _ "[t]"])

lemma Namespace_Update: "Update r n pod url = Some r' \<Longrightarrow> Namespace r' m = Namespace r m"
  by (auto simp: Update_def Namespace_def Let_def split: option.splits if_splits)

lemma frame_setLeader: "setLeader c name pod url = Some c' \<Longrightarrow> frame c name c'"
  by (auto simp: setLeader_def Let_def frame_def Namespace_Update store.upd_known
      store.upd_other dest: reg_inv_Update)

lemma setLeader_total:
  assumes "reg_inv (reg c)"
  shows "\<exists>c'. setLeader c name pod url = Some c'"
  using Update_total [OF assms, of name pod url] by (auto simp: setLeader_def Let_def)

lemma setLeader_effect:
  assumes "setLeader c name pod url = Some c'"
  shows "Update (reg c) name pod url = Some (reg c') \<and> tasks c' = tasks c \<and> cfg c' = cfg c
    \<and> deploymentState c' name = (deploymentState c name)\<lparr>incumbentPod := pod\<rparr>"
proof -
  have "st\<lparr>incumbentPod := incumbentPod st\<rparr> = st" for st :: deploymentRecord by simp
  then show ?thesis using assms by (auto simp: setLeader_def Let_def)
qed

lemma frame_demoteAll [simp]: "frame c name (demoteAll c name targets)"
  by (auto simp: demoteAll_def split: option.splits intro: frame_trans [OF frame_put frame_spawn])

lemma frame_actFailback [simp]: "frame c name (actFailback c name target ps)"
  by (auto simp: actFailback_def split: option.splits intro: frame_trans [OF frame_put frame_spawn])

lemma actLeaderless_frame:
  assumes "reg_inv (reg c)"
  shows "\<exists>c'. actLeaderless c name d streak retain ps = Some c' \<and> frame c name c'"
proof -
  have set: "\<exists>c'. setLeader c0 name p u = Some c' \<and> frame c name c'"
    if "frame c name c0" for c0 p u
  proof -
    have "reg_inv (reg c0)" using that assms by (simp add: frame_def)
    then obtain c' where "setLeader c0 name p u = Some c'" using setLeader_total by blast
    then show ?thesis using frame_trans [OF that frame_setLeader] by blast
  qed
  show ?thesis
  proof (cases "promoteTarget d")
    case None
    then show ?thesis using set [OF frame_refl] by (auto simp: actLeaderless_def)
  next
    case (Some t)
    show ?thesis
    proof (cases "tryAcquirePromote (deploymentState c name) ps")
      case None
      then show ?thesis using Some by (auto simp: actLeaderless_def)
    next
      case st: (Some st)
      obtain c1 where c1: "setLeader (putState c name st) name '''' '''' = Some c1" "frame c name c1"
        using set [OF frame_put] by blast
      then have "frame c name (spawn (putState c1 name s) name t')" for s t'
        by (blast intro: frame_trans frame_put frame_spawn)
      then show ?thesis using Some st c1 by (auto simp: actLeaderless_def)
    qed
  qed
qed

lemma reconcileAct_frame:
  assumes "reg_inv (reg c)"
  shows "\<exists>c'. reconcileAct c name e d streak es retain ps = Some c' \<and> frame c name c'"
proof (cases e)
  case True
  then show ?thesis
    using setLeader_total [OF assms, of name "''''" "''''"] frame_setLeader [of c name "''''" "''''"]
    by (auto simp: reconcileAct_def actEmptyDiscovery_def)
next
  case False
  show ?thesis
  proof (cases "liveLeaderCount d = 0")
    case True
    then show ?thesis
      using actLeaderless_frame [OF assms] False by (simp add: reconcileAct_def act_def)
  next
    case led: False
    obtain c1 where c1: "setLeader c name (dec_leaderPod d) (dec_leaderURL d) = Some c1"
      using setLeader_total [OF assms] by blast
    have "frame c name (demoteAll c1 name ts)" for ts
      by (rule frame_trans [OF frame_setLeader [OF c1] frame_demoteAll])
    moreover have "frame c name (actFailback (demoteAll c1 name ts) name t ps)" for ts t
      using calculation frame_actFailback by (rule frame_trans)
    ultimately show ?thesis
      using led False c1 by (auto simp: reconcileAct_def act_def Let_def split: option.splits)
  qed
qed

lemma frame_discover: "reconcileDiscover c name discover = (c', r) \<Longrightarrow> frame c name c'"
  by (auto simp: reconcileDiscover_def Let_def split: option.splits sum.splits)

lemma frame_poll: "reconcilePoll c name pods polls ps = (c', obs) \<Longrightarrow> frame c name c'"
  by (auto simp: reconcilePoll_def Let_def split: prod.splits)

lemma frame_decide: "reconcileDecide c name obs now = (c', r) \<Longrightarrow> frame c name c'"
  by (auto simp: reconcileDecide_def Let_def split: prod.splits)

lemma reconcile_frame:
  assumes "reg_inv (reg c)"
  shows "\<exists>c'. reconcile c name discover polls ps now = Some c' \<and> frame c name c' \<and> reg_inv (reg c')"
proof -
  obtain c1 r where d: "reconcileDiscover c name discover = (c1, r)" by (cases "reconcileDiscover c name discover")
  have f1: "frame c name c1" by (rule frame_discover [OF d])
  show ?thesis
  proof (cases r)
    case None
    then show ?thesis using d f1 assms by (auto simp: reconcile_def frame_def)
  next
    case (Some pods)
    obtain c2 obs where p: "reconcilePoll c1 name pods polls ps = (c2, obs)" by fastforce
    obtain c3 dec s es rt where dc: "reconcileDecide c2 name obs now = (c3, dec, s, es, rt)"
      by (metis prod_cases5)
    have f3: "frame c name c3"
      by (rule frame_trans [OF frame_trans [OF f1 frame_poll [OF p]] frame_decide [OF dc]])
    then have "reg_inv (reg c3)" using assms by (simp add: frame_def)
    then obtain c' where c': "reconcileAct c3 name (pods = []) dec s es rt ps = Some c'" "frame c3 name c'"
      using reconcileAct_frame by blast
    then have "frame c name c'" using f3 frame_trans by blast
    then show ?thesis
      using d Some p dc c' assms by (auto simp: reconcile_def frame_def)
  qed
qed

section \<open>Remembering transitions\<close>

lemma rememberOne_fields [simp]:
  "be (fst (rememberOne ps ob seen)) = be ob"
  "reach (fst (rememberOne ps ob seen)) = reach ob"
  "reach ob \<Longrightarrow> fst (rememberOne ps ob seen) = ob"
  "\<not> reach ob \<Longrightarrow> snd (rememberOne ps ob seen) = seen"
  by (simp_all add: rememberOne_def Let_def)

lemma rememberOne_other:
  "p \<noteq> obPod ob \<Longrightarrow> map_of (snd (rememberOne ps ob seen)) p = map_of seen p"
  by (simp add: rememberOne_def Let_def split: option.splits)

lemma rememberLoop_Cons [simp]:
  "fst (rememberLoop ps (ob # obs) seen) =
     fst (rememberOne ps ob seen) # fst (rememberLoop ps obs (snd (rememberOne ps ob seen)))"
  "snd (rememberLoop ps (ob # obs) seen) =
     snd (rememberLoop ps obs (snd (rememberOne ps ob seen)))"
  by (simp_all add: Let_def split: prod.splits)

declare rememberLoop.simps(2) [simp del]

lemma remember_reached:
  "filter reach (fst (rememberLoop ps obs seen)) = filter reach obs"
  "map be (fst (rememberLoop ps obs seen)) = map be obs"
  by (induction obs arbitrary: seen) auto

lemma remember_length: "length (fst (rememberLoop ps obs seen)) = length obs"
  by (metis length_map remember_reached(2))

lemma remember_empty: "fst (rememberLoop ps obs seen) = [] \<longleftrightarrow> obs = []"
  by (metis length_0_conv remember_length)

lemma remember_pods: "map obPod (fst (rememberLoop ps obs seen)) = map obPod obs"
  using remember_reached(2) [of ps obs seen] by (metis (mono_tags, lifting) list.map_comp comp_def map_eq_conv)

text \<open>
  Claims, promotability and all choices look at reached pods only, which the memory of
  transitions does not change.
\<close>

lemma filter_via_reach:
  assumes "\<And>ob. P ob \<Longrightarrow> reach ob" and "filter reach xs = filter reach ys"
  shows "filter P xs = filter P ys"
proof -
  have "filter P zs = filter P (filter reach zs)" for zs
    using assms(1) by (auto intro!: filter_cong)
  then show ?thesis using assms(2) by metis
qed

lemma scanBest_filter: "scanBest ok better best xs = scanBest ok better best (filter ok xs)"
  by (induction xs arbitrary: best) (auto split: option.splits)

lemma claimed_reach:
  "filter reach xs = filter reach ys \<Longrightarrow> claimedLeaders xs g = claimedLeaders ys g"
  unfolding claimedLeaders_def
  by (rule filter_via_reach) (auto simp: isLiveLeaderClaim_def split: if_splits)

lemma bestCandidate_reach:
  assumes "filter reach xs = filter reach ys"
  shows "bestCandidate xs att = bestCandidate ys att"
proof -
  have "filter isPromotable xs = filter isPromotable ys"
    using _ assms by (rule filter_via_reach) (simp add: isPromotable_def)
  then show ?thesis unfolding bestCandidate_def by (metis scanBest_filter)
qed

lemma rememberTransitions_obs:
  assumes "rememberTransitions cf st obs ps = (st', obs')"
  shows "filter reach obs' = filter reach obs" "map obPod obs' = map obPod obs"
    "obs' = [] \<longleftrightarrow> obs = []" "st' = st\<lparr>transitioningSeen := transitioningSeen st'\<rparr>"
  using assms remember_reached(1) [of ps obs] remember_pods [of ps obs] remember_empty [of ps obs]
  by (auto simp: rememberTransitions_def Let_def split: prod.splits) (metis fst_conv)+

lemma pollAll_pods [simp]: "map obPod (pollAll polls pods) = map Pod pods"
  by (simp add: pollAll_def pollOne_def comp_def)

lemma pollAll_Nil [simp]: "pollAll polls pods = [] \<longleftrightarrow> pods = []"
  by (simp add: pollAll_def)

text \<open>With distinct pods, an unreached pod carries what was remembered of it, others nothing new.\<close>

lemma rememberLoop_unreached:
  "distinct (map obPod obs) \<Longrightarrow> ob \<in> set obs \<Longrightarrow> \<not> reach ob \<Longrightarrow>
     ob\<lparr>wasTransitioning := map_of seen (obPod ob) \<noteq> None\<rparr> \<in> set (fst (rememberLoop ps obs seen))"
proof (induction obs arbitrary: seen)
  case Nil
  then show ?case by simp
next
  case (Cons x obs)
  show ?case
  proof (cases "ob = x")
    case True
    then show ?thesis using Cons.prems(3) by (simp add: rememberOne_def Let_def)
  next
    case False
    then have ob: "ob \<in> set obs" using Cons.prems(2) by simp
    then have "obPod ob \<in> set (map obPod obs)" by simp
    then have ne: "obPod ob \<noteq> obPod x" using Cons.prems(1) by (auto simp del: set_map)
    then show ?thesis
      using Cons.IH [of "snd (rememberOne ps x seen)"] Cons.prems(1,3) ob
      by (simp add: rememberOne_other)
  qed
qed

section \<open>A round that polls\<close>

lemma reconcile_polls:
  assumes "Namespace (reg c) name = Some ns" "discover ns = Inr pods"
  shows "reconcile c name discover polls ps now =
    (let st1 = fst (setDiscoveryDown (deploymentState c name) False);
         (st2, obs) = rememberTransitions (cfg c) st1 (pollAll polls pods) ps;
         dec = decide obs (decideParamsOf (cfg c) st2 now);
         (st3, streak, es, retain) = commitState (cfg c) st2 dec (pods = []) now
     in reconcileAct
          (putState (putState (putState c name st1) name st2) name st3)
          name (pods = []) dec streak es retain ps)"
  using assms rememberTransitions_obs(3)
  by (auto simp: reconcile_def reconcileDiscover_def reconcilePoll_def reconcileDecide_def Let_def
      split: prod.splits)

lemma setDiscoveryDown_fields [simp]:
  "leaderlessStreak (fst (setDiscoveryDown st b)) = leaderlessStreak st"
  "emptyStreak (fst (setDiscoveryDown st b)) = emptyStreak st"
  "incumbentPod (fst (setDiscoveryDown st b)) = incumbentPod st"
  "incumbentUnreachableSince (fst (setDiscoveryDown st b)) = incumbentUnreachableSince st"
  "promoting (fst (setDiscoveryDown st b)) = promoting st"
  "demoting (fst (setDiscoveryDown st b)) = demoting st"
  "transitioningSeen (fst (setDiscoveryDown st b)) = transitioningSeen st"
  "promoteAttempts (fst (setDiscoveryDown st b)) = promoteAttempts st"
  by (simp_all add: setDiscoveryDown_def Let_def)

lemma commitStreaks_fields [simp]:
  "promoting (commitStreaks cf st d e) = promoting st"
  "demoting (commitStreaks cf st d e) = demoting st"
  "incumbentPod (commitStreaks cf st d e) = incumbentPod st"
  "incumbentUnreachableSince (commitStreaks cf st d e) = incumbentUnreachableSince st"
  "transitioningSeen (commitStreaks cf st d e) = transitioningSeen st"
  "failback (commitStreaks cf st d e) = failback st"
  by (simp_all add: commitStreaks_def Let_def)

lemma commitRetain_fields [simp]:
  "promoting (fst (commitRetain cf st d e now)) = promoting st"
  "demoting (fst (commitRetain cf st d e now)) = demoting st"
  "incumbentPod (fst (commitRetain cf st d e now)) = incumbentPod st"
  "transitioningSeen (fst (commitRetain cf st d e now)) = transitioningSeen st"
  "promoteAttempts (fst (commitRetain cf st d e now)) = promoteAttempts st"
  "failback (fst (commitRetain cf st d e now)) = failback st"
  "leaderlessStreak (fst (commitRetain cf st d e now)) = leaderlessStreak st"
  "emptyStreak (fst (commitRetain cf st d e now)) = emptyStreak st"
  by (simp_all add: commitRetain_def Let_def)

lemma commitState_split:
  "commitState cf st dec e now = (st3, streak, es, retain) \<Longrightarrow>
     st3 = fst (commitRetain cf (commitStreaks cf (st\<lparr>failback := dec_failback dec\<rparr>) dec e) dec e now)
     \<and> streak = leaderlessStreak (commitStreaks cf (st\<lparr>failback := dec_failback dec\<rparr>) dec e)
     \<and> es = emptyStreak (commitStreaks cf (st\<lparr>failback := dec_failback dec\<rparr>) dec e)
     \<and> retain = snd (commitRetain cf (commitStreaks cf (st\<lparr>failback := dec_failback dec\<rparr>) dec e) dec e now)"
  by (auto simp: commitState_def Let_def split: prod.splits) (metis commitRetain_fields fst_conv)+

lemma commitState_leaderless:
  assumes "commitState cf st dec False now = (st3, streak, es, retain)" "liveLeaderCount dec = 0"
  shows "streak = (if hasTransitioning dec then leaderlessStreak st
                   else wrap64 (leaderlessStreak st + 1))"
    "leaderlessStreak st3 = streak" "emptyStreak st3 = 0"
    "promoteAttempts st3 = promoteAttempts st" "promoting st3 = promoting st"
    "transitioningSeen st3 = transitioningSeen st" "incumbentPod st3 = incumbentPod st"
    "\<not> incumbentUnreachable dec \<Longrightarrow> \<not> retain"
  using commitState_split [OF assms(1)] assms(2)
  by (auto simp: commitStreaks_def Let_def commitRetain_def)

lemma commitState_led:
  assumes "commitState cf st dec False now = (st3, streak, es, retain)" "liveLeaderCount dec > 0"
  shows "leaderlessStreak st3 = 0" "emptyStreak st3 = 0" "promoteAttempts st3 = []"
    "promoting st3 = promoting st" "demoting st3 = demoting st"
    "transitioningSeen st3 = transitioningSeen st" "failback st3 = dec_failback dec"
  using commitState_split [OF assms(1)] assms(2)
  by (auto simp: commitStreaks_def Let_def commitRetain_def)

lemma commitState_empty:
  assumes "commitState cf st dec True now = (st3, streak, es, retain)"
  shows "es = wrap64 (emptyStreak st + 1)" "emptyStreak st3 = es"
    "incumbentPod st3 = incumbentPod st"
    "leaderlessStreak st3 =
      (if es \<ge> EmptyDiscoveryDebounce cf then 0 else leaderlessStreak st)"
    "\<not> incumbentUnreachable dec \<Longrightarrow>
      incumbentUnreachableSince st3 = incumbentUnreachableSince st"
  using commitState_split [OF assms]
  by (auto simp: commitStreaks_def Let_def commitRetain_def)

text \<open>The polled pods of a round, and that none of them makes a live claim.\<close>

definition noLiveClaim :: "Config \<Rightarrow> (Backend \<Rightarrow> Leadership option) \<Rightarrow> Backend list \<Rightarrow> bool" where
  "noLiveClaim cf polls pods =
     list_all (\<lambda>b. \<not> isLiveLeaderClaim (pollOne b (polls b)) (LeaseUnverifiedGrace cf)) pods"

lemma noLiveClaim_claims:
  "noLiveClaim cf polls pods \<longleftrightarrow> claimedLeaders (pollAll polls pods) (LeaseUnverifiedGrace cf) = []"
  by (auto simp: noLiveClaim_def claimedLeaders_def pollAll_def filter_empty_conv list_all_iff)

lemma decide_count_polls:
  assumes "filter reach obs = filter reach (pollAll polls pods)"
  shows "liveLeaderCount (decide obs (decideParamsOf cf st now)) = 0 \<longleftrightarrow> noLiveClaim cf polls pods"
  using claimed_reach [OF assms]
  by (simp add: decide_count noLiveClaim_claims decideParamsOf_def)

text \<open>A leaderless round below the debounce: the registry and the tasks stay as they are.\<close>

lemma leaderless_round_waits:
  assumes ns: "Namespace (reg c) name = Some ns" and pods: "discover ns = Inr pods" "pods \<noteq> []"
    and live: "noLiveClaim (cfg c) polls pods"
    and s: "0 \<le> leaderlessStreak (deploymentState c name)"
      "leaderlessStreak (deploymentState c name) + 1 < PromoteDebounce (cfg c)"
      "PromoteDebounce (cfg c) \<le> max_int64"
  shows "\<exists>c'. reconcile c name discover polls ps now = Some c' \<and> reg c' = reg c
    \<and> tasks c' = tasks c \<and> cfg c' = cfg c
    \<and> leaderlessStreak (deploymentState c name) \<le> leaderlessStreak (deploymentState c' name)
    \<and> leaderlessStreak (deploymentState c' name) \<le> leaderlessStreak (deploymentState c name) + 1
    \<and> incumbentPod (deploymentState c' name) = incumbentPod (deploymentState c name)"
proof -
  let ?st1 = "fst (setDiscoveryDown (deploymentState c name) False)"
  obtain st2 obs where rem: "rememberTransitions (cfg c) ?st1 (pollAll polls pods) ps = (st2, obs)"
    by fastforce
  let ?dec = "decide obs (decideParamsOf (cfg c) st2 now)"
  obtain st3 streak es retain where com: "commitState (cfg c) st2 ?dec False now = (st3, streak, es, retain)"
    by (metis prod_cases4)
  have count: "liveLeaderCount ?dec = 0"
    using decide_count_polls [OF rememberTransitions_obs(1) [OF rem]] live by simp
  have "st2 = ?st1\<lparr>transitioningSeen := transitioningSeen st2\<rparr>"
    by (rule rememberTransitions_obs(4) [OF rem])
  then have st2: "leaderlessStreak st2 = leaderlessStreak (deploymentState c name)"
    "incumbentPod st2 = incumbentPod (deploymentState c name)"
    by (metis deploymentRecord.ext_inject deploymentRecord.surjective deploymentRecord.update_convs(9)
        setDiscoveryDown_fields(1,3))+
  note com' = commitState_leaderless [OF com count]
  have streak: "leaderlessStreak st2 \<le> streak" "streak \<le> leaderlessStreak st2 + 1"
    using com'(1) s st2 by (auto simp: wrap64_Suc)
  then have "streak < PromoteDebounce (cfg c)" using s st2 by simp
  then have "reconcile c name discover polls ps now =
      Some (putState (putState (putState c name ?st1) name st2) name st3)"
    using reconcile_polls [where discover = discover, OF ns pods(1), of polls ps now] rem com
      pods(2) count
    by (simp add: Let_def reconcileAct_def act_def actLeaderless_def)
  then show ?thesis using com' st2 streak by simp
qed

section \<open>Sequences of rounds\<close>

record round =
  rd_discover :: "string \<Rightarrow> string + Backend list"
  rd_polls :: "Backend \<Rightarrow> Leadership option"
  rd_start :: instant
  rd_now :: instant

definition runRound :: "Controller \<Rightarrow> string \<Rightarrow> round \<Rightarrow> Controller option" where
  "runRound c name r = reconcile c name (rd_discover r) (rd_polls r) (rd_start r) (rd_now r)"

fun runRounds :: "Controller \<Rightarrow> string \<Rightarrow> round list \<Rightarrow> Controller option" where
  "runRounds c name [] = Some c"
| "runRounds c name (r # rs) =
     (case runRound c name r of None \<Rightarrow> None | Some c' \<Rightarrow> runRounds c' name rs)"

lemma runRounds_append:
  "runRounds c name (rs @ qs) =
     (case runRounds c name rs of None \<Rightarrow> None | Some c' \<Rightarrow> runRounds c' name qs)"
  by (induction rs arbitrary: c) (auto split: option.splits)

lemma runRounds_frame:
  "reg_inv (reg c) \<Longrightarrow> \<exists>c'. runRounds c name rs = Some c' \<and> frame c name c' \<and> reg_inv (reg c')"
proof (induction rs arbitrary: c)
  case Nil
  then show ?case by simp
next
  case (Cons r rs)
  obtain c1 where "runRound c name r = Some c1" "frame c name c1" "reg_inv (reg c1)"
    using reconcile_frame [OF Cons.prems] unfolding runRound_def by metis
  then show ?case using Cons.IH [of c1] frame_trans by fastforce
qed

lemma reconcile_discovery_error:
  assumes "Namespace (reg c) name = Some ns" "discover ns = Inl err"
  shows "reconcile c name discover polls ps now =
    Some (putState c name (fst (setDiscoveryDown (deploymentState c name) True)))"
  using assms by (simp add: reconcile_def reconcileDiscover_def Let_def)

text \<open>A round that says nothing about a live leader: it fails, or finds pods without a claim.\<close>

definition quietRound :: "Config \<Rightarrow> string \<Rightarrow> round \<Rightarrow> bool" where
  "quietRound cf ns r =
     (case rd_discover r ns of Inl _ \<Rightarrow> True
      | Inr pods \<Rightarrow> pods \<noteq> [] \<and> noLiveClaim cf (rd_polls r) pods)"

lemma quiet_rounds_wait:
  assumes "Namespace (reg c) name = Some ns" "list_all (quietRound (cfg c) ns) rs"
    and "0 \<le> leaderlessStreak (deploymentState c name)"
    and "leaderlessStreak (deploymentState c name) + int (length rs) < PromoteDebounce (cfg c)"
    and "PromoteDebounce (cfg c) \<le> max_int64"
  shows "\<exists>c'. runRounds c name rs = Some c' \<and> reg c' = reg c \<and> tasks c' = tasks c
    \<and> incumbentPod (deploymentState c' name) = incumbentPod (deploymentState c name)"
  using assms
proof (induction rs arbitrary: c)
  case Nil
  then show ?case by simp
next
  case (Cons r rs)
  let ?s = "leaderlessStreak (deploymentState c name)"
  have "\<exists>c1. runRound c name r = Some c1 \<and> reg c1 = reg c \<and> tasks c1 = tasks c \<and> cfg c1 = cfg c
      \<and> ?s \<le> leaderlessStreak (deploymentState c1 name)
      \<and> leaderlessStreak (deploymentState c1 name) \<le> ?s + 1
      \<and> incumbentPod (deploymentState c1 name) = incumbentPod (deploymentState c name)"
  proof (cases "rd_discover r ns")
    case (Inl err)
    show ?thesis
      unfolding runRound_def reconcile_discovery_error [where discover = "rd_discover r", OF Cons.prems(1) Inl]
      by simp
  next
    case (Inr pods)
    then have "pods \<noteq> []" "noLiveClaim (cfg c) (rd_polls r) pods"
      using Cons.prems(2) by (simp_all add: quietRound_def)
    then show ?thesis
      unfolding runRound_def
      using leaderless_round_waits [where discover = "rd_discover r", OF Cons.prems(1) Inr,
          of "rd_polls r" "rd_start r" "rd_now r"] Cons.prems(3-5) by simp
  qed
  then obtain c1 where c1: "runRound c name r = Some c1" "reg c1 = reg c" "tasks c1 = tasks c"
    "cfg c1 = cfg c" "?s \<le> leaderlessStreak (deploymentState c1 name)"
    "leaderlessStreak (deploymentState c1 name) \<le> ?s + 1"
    "incumbentPod (deploymentState c1 name) = incumbentPod (deploymentState c name)"
    by blast
  have "\<exists>c'. runRounds c1 name rs = Some c' \<and> reg c' = reg c1 \<and> tasks c' = tasks c1
    \<and> incumbentPod (deploymentState c' name) = incumbentPod (deploymentState c1 name)"
    by (rule Cons.IH) (use Cons.prems c1 in simp_all)
  then show ?case using c1 by auto
qed

lemma led_round_resets:
  assumes "Namespace (reg c) name = Some ns" "discover ns = Inr pods" "pods \<noteq> []"
    and "\<not> noLiveClaim (cfg c) polls pods"
    and "reconcile c name discover polls ps now = Some c'"
  shows "leaderlessStreak (deploymentState c' name) = 0
    \<and> promoteAttempts (deploymentState c' name) = []"
proof -
  let ?st1 = "fst (setDiscoveryDown (deploymentState c name) False)"
  obtain st2 obs where rem: "rememberTransitions (cfg c) ?st1 (pollAll polls pods) ps = (st2, obs)"
    by fastforce
  let ?dec = "decide obs (decideParamsOf (cfg c) st2 now)"
  obtain st3 streak es retain where com: "commitState (cfg c) st2 ?dec False now = (st3, streak, es, retain)"
    by (metis prod_cases4)
  have count: "liveLeaderCount ?dec > 0"
    using decide_count_polls [OF rememberTransitions_obs(1) [OF rem]] assms(4) by (metis gr0I)
  let ?c3 = "putState (putState (putState c name ?st1) name st2) name st3"
  have "act ?c3 name ?dec streak retain ps = Some c'"
    using reconcile_polls [where discover = discover, OF assms(1,2), of polls ps now] rem com
      assms(3,5) by (simp add: Let_def reconcileAct_def)
  then obtain c4 where c4: "setLeader ?c3 name (dec_leaderPod ?dec) (dec_leaderURL ?dec) = Some c4"
    and c': "c' = (case failbackTarget ?dec of None \<Rightarrow> demoteAll c4 name (demotes ?dec)
        | Some t \<Rightarrow> actFailback (demoteAll c4 name (demotes ?dec)) name t ps)"
    using count by (auto simp: act_def Let_def split: option.splits)
  have "leaderlessStreak (deploymentState c4 name) = 0 \<and> promoteAttempts (deploymentState c4 name) = []"
    using setLeader_effect [OF c4] commitState_led [OF com count] by simp
  then show ?thesis
    by (auto simp: c' demoteAll_def actFailback_def tryAcquireDemote_def tryAcquirePromote_def
        restartFailbackClock_def split: option.splits if_splits)
qed

section \<open>Empty and failing discovery\<close>

lemma decide_nil:
  "decide [] p = \<lparr>dec_leaderPod = '''', dec_leaderURL = '''', liveLeaderCount = 0,
     incumbentUnreachable = False, hasTransitioning = False, promoteTarget = None,
     demotes = [], failbackTarget = None, dec_failback = noFailback\<rparr>"
  using decide_leaderless [of "[]" p] bestCandidate_None [of "[]"]
  by (simp add: claimedLeaders_def incumbentDiscoveredUnreachable_def anyTransitioning_def
      retainedFailback_def)

lemma empty_round:
  assumes ns: "Namespace (reg c) name = Some ns" and empty: "discover ns = Inr []"
    and inv: "reg_inv (reg c)"
    and e: "0 \<le> emptyStreak (deploymentState c name)" "emptyStreak (deploymentState c name) < max_int64"
  shows "\<exists>c'. reconcile c name discover polls ps now = Some c'
    \<and> emptyStreak (deploymentState c' name) = emptyStreak (deploymentState c name) + 1
    \<and> tasks c' = tasks c \<and> cfg c' = cfg c \<and> reg_inv (reg c')
    \<and> (if emptyStreak (deploymentState c name) + 1 < EmptyDiscoveryDebounce (cfg c)
       then reg c' = reg c
         \<and> incumbentPod (deploymentState c' name) = incumbentPod (deploymentState c name)
       else Update (reg c) name '''' '''' = Some (reg c')
         \<and> incumbentPod (deploymentState c' name) = '''')"
proof -
  let ?st1 = "fst (setDiscoveryDown (deploymentState c name) False)"
  obtain st2 obs where rem: "rememberTransitions (cfg c) ?st1 (pollAll polls []) ps = (st2, obs)"
    by fastforce
  have obs: "obs = []" using rememberTransitions_obs(3) [OF rem] by simp
  let ?dec = "decide [] (decideParamsOf (cfg c) st2 now)"
  obtain st3 streak es retain where com: "commitState (cfg c) st2 ?dec True now = (st3, streak, es, retain)"
    by (metis prod_cases4)
  let ?c3 = "putState (putState (putState c name ?st1) name st2) name st3"
  have st2: "st2 = ?st1\<lparr>transitioningSeen := transitioningSeen st2\<rparr>"
    by (rule rememberTransitions_obs(4) [OF rem])
  have keep: "emptyStreak st2 = emptyStreak (deploymentState c name)"
    "incumbentPod st2 = incumbentPod (deploymentState c name)"
    by (subst st2, simp)+
  have es: "es = emptyStreak (deploymentState c name) + 1" "emptyStreak st3 = es"
    "incumbentPod st3 = incumbentPod (deploymentState c name)"
    using commitState_empty(1-3) [OF com] keep e by (simp_all add: wrap64_Suc)
  have run: "reconcile c name discover polls ps now = actEmptyDiscovery ?c3 name es"
    using reconcile_polls [where discover = discover, OF ns empty, of polls ps now] rem obs com
    by (simp add: Let_def reconcileAct_def)
  show ?thesis
  proof (cases "es < EmptyDiscoveryDebounce (cfg c)")
    case True
    then show ?thesis using run es inv by (simp add: actEmptyDiscovery_def)
  next
    case False
    have "reg_inv (reg ?c3)" using inv by simp
    then obtain c' where c': "setLeader ?c3 name '''' '''' = Some c'"
      using setLeader_total by blast
    have "reg_inv (reg c')" using setLeader_effect [OF c'] inv by (auto intro: reg_inv_Update)
    then show ?thesis
      using False run c' setLeader_effect [OF c'] es by (simp add: actEmptyDiscovery_def)
  qed
qed

text \<open>A concrete controller for the witnesses: one deployment led by \<open>backend-0\<close>.\<close>

definition sampleController :: Controller where
  "sampleController = \<lparr>cfg = DefaultConfig, reg = sampleUpdated,
     state = [(''dev'', newDeploymentState\<lparr>incumbentPod := ''backend-0''\<rparr>)], tasks = []\<rparr>"

definition emptyRound :: round where
  "emptyRound = \<lparr>rd_discover = (\<lambda>_. Inr []), rd_polls = (\<lambda>_. None), rd_start = 10, rd_now = 11\<rparr>"

definition failedRound :: round where
  "failedRound = \<lparr>rd_discover = (\<lambda>_. Inl ''api down''), rd_polls = (\<lambda>_. None),
     rd_start = 10, rd_now = 11\<rparr>"

definition standby :: Leadership where
  "standby = noLeadership\<lparr>TailerHealthy := True\<rparr>"

definition standbyRound :: "instant \<Rightarrow> round" where
  "standbyRound t = \<lparr>rd_discover = (\<lambda>_. Inr [sampleBackend ''backend-0'' 100, sampleBackend ''backend-1'' 0]),
     rd_polls = (\<lambda>_. Some standby), rd_start = t, rd_now = t + 1\<rparr>"

lemma sampleController_facts:
  "reg_inv (reg sampleController)" "Namespace (reg sampleController) ''dev'' = Some ''convex-dev''"
  "isKnown (reg sampleController) ''dev''"
  "deploymentState sampleController ''dev'' = newDeploymentState\<lparr>incumbentPod := ''backend-0''\<rparr>"
  "cfg sampleController = DefaultConfig" "tasks sampleController = []"
  using reachable_reg_inv [OF sample_reachable(3)]
  by (simp_all add: sampleController_def deploymentState_def Namespace_def sample_defs)

lemmas defaultConfig_simps = DefaultConfig_def newDeploymentState_def second_def zero_time_def
  max_int64_def min_int64_def

lemma empty_rounds:
  assumes "reg_inv (reg c)" "Namespace (reg c) name = Some ns"
    and "emptyStreak (deploymentState c name) = 0"
    and "0 < EmptyDiscoveryDebounce (cfg c)" "int (length rs) < max_int64"
    and "list_all (\<lambda>r. rd_discover r ns = Inr []) rs"
  shows "\<exists>c'. runRounds c name rs = Some c' \<and> frame c name c' \<and> reg_inv (reg c')
    \<and> tasks c' = tasks c
    \<and> emptyStreak (deploymentState c' name) = int (length rs)
    \<and> (if int (length rs) < EmptyDiscoveryDebounce (cfg c)
       then reg c' = reg c
         \<and> incumbentPod (deploymentState c' name) = incumbentPod (deploymentState c name)
       else incumbentPod (deploymentState c' name) = ''''
         \<and> (\<exists>r. Update r name '''' '''' = Some (reg c') \<and> isKnown r name))"
  using assms(5,6)
proof (induction rs rule: rev_induct)
  case Nil
  then show ?case using assms by simp
next
  case (snoc r rs)
  have "int (length rs) < max_int64" "list_all (\<lambda>r. rd_discover r ns = Inr []) rs"
    using snoc.prems by simp_all
  from snoc.IH [OF this] obtain c1 where c1: "runRounds c name rs = Some c1" "frame c name c1"
    "reg_inv (reg c1)" "tasks c1 = tasks c" "emptyStreak (deploymentState c1 name) = int (length rs)"
    "int (length rs) < EmptyDiscoveryDebounce (cfg c) \<Longrightarrow> reg c1 = reg c
         \<and> incumbentPod (deploymentState c1 name) = incumbentPod (deploymentState c name)"
    by (auto split: if_splits)
  have ns: "Namespace (reg c1) name = Some ns" and cf: "cfg c1 = cfg c"
    and kn: "isKnown (reg c1) name"
    using c1(2) assms(2) by (auto simp: frame_def isKnown_def Namespace_def split: option.splits)
  have em: "rd_discover r ns = Inr []" using snoc.prems by simp
  from empty_round [where discover = "rd_discover r", OF ns em c1(3), of "rd_polls r" "rd_start r" "rd_now r"]
  obtain c' where c': "runRound c1 name r = Some c'"
    "emptyStreak (deploymentState c' name) = int (length rs) + 1" "tasks c' = tasks c"
    "reg_inv (reg c')"
    "if int (length rs) + 1 < EmptyDiscoveryDebounce (cfg c)
     then reg c' = reg c1 \<and> incumbentPod (deploymentState c' name) = incumbentPod (deploymentState c1 name)
     else Update (reg c1) name '''' '''' = Some (reg c') \<and> incumbentPod (deploymentState c' name) = ''''"
    using c1 cf snoc.prems(1) unfolding runRound_def by auto
  have "frame c1 name c'"
    using reconcile_frame [OF c1(3)] c'(1) unfolding runRound_def by (metis option.inject)
  then have "frame c name c'" by (rule frame_trans [OF c1(2)])
  then show ?case
    using c1(1,6) c' kn by (auto simp: runRounds_append split: if_splits)
qed

section \<open>The memory of transitions\<close>

lemma rememberLoop_other:
  "p \<notin> obPod ` set obs \<Longrightarrow> map_of (snd (rememberLoop ps obs seen)) p = map_of seen p"
  by (induction obs arbitrary: seen) (auto simp: rememberOne_other)

lemma rememberOne_self:
  "map_of (snd (rememberOne ps ob seen)) (obPod ob) =
     (if \<not> reach ob then map_of seen (obPod ob)
      else if isTransitioning ob
      then Some (case map_of seen (obPod ob) of None \<Rightarrow> ps | Some t \<Rightarrow> max t ps)
      else (case map_of seen (obPod ob) of None \<Rightarrow> None
            | Some t \<Rightarrow> if t < ps then None else Some t))"
  by (auto simp: rememberOne_def Let_def split: option.splits)

lemma rememberLoop_self:
  "distinct (map obPod obs) \<Longrightarrow> ob \<in> set obs \<Longrightarrow>
     map_of (snd (rememberLoop ps obs seen)) (obPod ob) =
       map_of (snd (rememberOne ps ob seen)) (obPod ob)"
proof (induction obs arbitrary: seen)
  case (Cons x obs)
  show ?case
  proof (cases "ob = x")
    case True
    then show ?thesis using Cons.prems(1) by (simp add: rememberLoop_other)
  next
    case False
    then have ob: "ob \<in> set obs" using Cons.prems(2) by simp
    then have "obPod ob \<in> set (map obPod obs)" by simp
    then have "obPod ob \<noteq> obPod x" using Cons.prems(1) by (auto simp del: set_map)
    then have "map_of (snd (rememberOne ps x seen)) (obPod ob) = map_of seen (obPod ob)"
      by (rule rememberOne_other)
    then show ?thesis
      using Cons.IH [OF _ ob] Cons.prems(1) by (simp add: rememberOne_self)
  qed
qed simp

text \<open>What one round leaves in the memory for a discovered pod.\<close>

definition unexpired :: "Config \<Rightarrow> instant \<Rightarrow> (string, instant) gomap \<Rightarrow> string \<Rightarrow> instant option" where
  "unexpired cf ps seen pod =
     (case map_of seen pod of None \<Rightarrow> None
      | Some t \<Rightarrow> if time_sub ps t \<ge> UnreachableLeaderGrace cf then None else Some t)"

lemma unexpired_filter:
  "gwf seen \<Longrightarrow> map_of (filter (\<lambda>(pod, t). \<not> time_sub ps t \<ge> UnreachableLeaderGrace cf) seen) pod
     = unexpired cf ps seen pod"
  by (simp add: map_of_filter_gwf unexpired_def split: option.splits)

lemma gwf_rememberOne: "gwf seen \<Longrightarrow> gwf (snd (rememberOne ps ob seen))"
  by (auto simp: rememberOne_def Let_def split: option.splits)

lemma gwf_rememberLoop: "gwf seen \<Longrightarrow> gwf (snd (rememberLoop ps obs seen))"
  by (induction obs arbitrary: seen) (simp_all add: gwf_rememberOne)

lemma rememberTransitions_split:
  "rememberTransitions cf st obs ps = (st', obs') \<Longrightarrow>
     transitioningSeen st' = snd (rememberLoop ps obs
       (filter (\<lambda>(pod, t). \<not> time_sub ps t \<ge> UnreachableLeaderGrace cf) (transitioningSeen st)))
   \<and> obs' = fst (rememberLoop ps obs
       (filter (\<lambda>(pod, t). \<not> time_sub ps t \<ge> UnreachableLeaderGrace cf) (transitioningSeen st)))"
  by (auto simp: rememberTransitions_def Let_def split: prod.splits)

lemma rememberTransitions_memory:
  assumes "rememberTransitions cf st obs ps = (st', obs')" "gwf (transitioningSeen st)"
    and "distinct (map obPod obs)" "ob \<in> set obs"
  shows "map_of (transitioningSeen st') (obPod ob) =
     (if \<not> reach ob then unexpired cf ps (transitioningSeen st) (obPod ob)
      else if isTransitioning ob
      then Some (case unexpired cf ps (transitioningSeen st) (obPod ob) of
                   None \<Rightarrow> ps | Some t \<Rightarrow> max t ps)
      else (case unexpired cf ps (transitioningSeen st) (obPod ob) of None \<Rightarrow> None
            | Some t \<Rightarrow> if t < ps then None else Some t))"
  using rememberTransitions_split [OF assms(1)] rememberLoop_self [OF assms(3,4)] assms(2)
  by (simp add: rememberOne_self unexpired_filter)

text \<open>A remembered pod that is discovered but unreachable counts as mid-transition.\<close>

lemma remembered_unreached_transitioning:
  assumes rem: "rememberTransitions cf st obs ps = (st', obs')" and wf: "gwf (transitioningSeen st)"
    and d: "distinct (map obPod obs)" and ob: "ob \<in> set obs" "\<not> reach ob"
    and t: "unexpired cf ps (transitioningSeen st) (obPod ob) \<noteq> None"
  shows "anyTransitioning obs'"
proof -
  let ?kept = "filter (\<lambda>(pod, t). \<not> time_sub ps t \<ge> UnreachableLeaderGrace cf) (transitioningSeen st)"
  have "ob\<lparr>wasTransitioning := map_of ?kept (obPod ob) \<noteq> None\<rparr> \<in> set (fst (rememberLoop ps obs ?kept))"
    by (rule rememberLoop_unreached [OF d ob])
  then have "ob\<lparr>wasTransitioning := True\<rparr> \<in> set obs'"
    using rememberTransitions_split [OF rem] t unexpired_filter [OF wf] by simp
  moreover have "isTransitioning (ob\<lparr>wasTransitioning := True\<rparr>)"
    using ob(2) by (simp add: isTransitioning_def)
  ultimately show ?thesis by (auto simp: anyTransitioning_def list_ex_iff)
qed

lemma transitioning_freezes:
  assumes "anyTransitioning obs"
  shows "promoteTarget (decide obs p) = None \<and> failbackTarget (decide obs p) = None"
proof (cases obs p rule: decide_cases)
  case leaderless
  then show ?thesis using assms by (simp add: decide_leaderless)
next
  case (led l)
  then show ?thesis using assms by (simp add: decide_led [OF refl led(1)])
qed

section \<open>Properties of undisturbed rounds\<close>

text \<open>
  Rounds of one deployment never panic, whatever discovery and the pods answer; they keep
  the registry well-formed, and leave the state and the published leader of every other
  deployment untouched.
\<close>

theorem rounds_total_and_isolated:
  assumes "reg_inv (reg c)"
  shows "\<exists>c'. runRounds c name rs = Some c' \<and> reg_inv (reg c')
    \<and> (\<forall>m. m \<noteq> name \<longrightarrow> deploymentState c' m = deploymentState c m
          \<and> Leader (reg c') m = Leader (reg c) m)"
  using runRounds_frame [OF assms, of name rs] by (auto simp: frame_def)

theorem rounds_total_and_isolated_witness:
  "\<exists>c'. runRounds sampleController ''dev'' [emptyRound, failedRound, standbyRound 20] = Some c'
    \<and> Leader (reg c') ''prod'' = Leader (reg sampleController) ''prod''"
  using rounds_total_and_isolated [OF sampleController_facts(1), of "''dev''"
      "[emptyRound, failedRound, standbyRound 20]"] by auto

text \<open>
  Hysteresis: after a round that saw a live leader, fewer than \<open>PromoteDebounce\<close> further
  rounds without any live claim (including rounds whose discovery fails) leave the published
  leader as it is and start no actuation.
\<close>

theorem leader_kept_during_hysteresis:
  assumes "reg_inv (reg c0)" and "Namespace (reg c0) name = Some ns"
    and "rd_discover r0 ns = Inr pods" and "pods \<noteq> []"
    and "\<not> noLiveClaim (cfg c0) (rd_polls r0) pods"
    and "runRound c0 name r0 = Some c"
    and "list_all (quietRound (cfg c0) ns) rs"
    and "int (length rs) < PromoteDebounce (cfg c0)" and "PromoteDebounce (cfg c0) \<le> max_int64"
  shows "\<exists>c'. runRounds c name rs = Some c' \<and> reg c' = reg c \<and> tasks c' = tasks c"
proof -
  have "frame c0 name c"
    using reconcile_frame [OF assms(1)] assms(6) unfolding runRound_def by (metis option.inject)
  then have "Namespace (reg c) name = Some ns" "cfg c = cfg c0"
    using assms(2) by (auto simp: frame_def)
  moreover have "leaderlessStreak (deploymentState c name) = 0"
    using led_round_resets [where discover = "rd_discover r0", OF assms(2-5) assms(6) [unfolded runRound_def]]
    by blast
  ultimately show ?thesis using quiet_rounds_wait [of c name ns rs] assms(7-9) by auto
qed

definition ledRound :: round where
  "ledRound = \<lparr>rd_discover = (\<lambda>_. Inr [sampleBackend ''backend-0'' 100]),
     rd_polls = (\<lambda>_. Some (noLeadership\<lparr>IsLeader := True\<rparr>)), rd_start = 5, rd_now = 6\<rparr>"

theorem leader_kept_during_hysteresis_witness:
  "\<exists>c c'. runRound sampleController ''dev'' ledRound = Some c
    \<and> runRounds c ''dev'' [standbyRound 20, failedRound] = Some c' \<and> reg c' = reg c"
proof -
  obtain c where c: "runRound sampleController ''dev'' ledRound = Some c"
    using reconcile_frame [OF sampleController_facts(1)] unfolding runRound_def by metis
  have nl: "\<not> noLiveClaim (cfg sampleController) (rd_polls ledRound) [sampleBackend ''backend-0'' 100]"
    and q: "list_all (quietRound (cfg sampleController) ''convex-dev'') [standbyRound 20, failedRound]"
    by (simp_all add: noLiveClaim_def ledRound_def pollOne_def isLiveLeaderClaim_def noLeadership_def
        quietRound_def standbyRound_def failedRound_def standby_def)
  have "\<exists>c'. runRounds c ''dev'' [standbyRound 20, failedRound] = Some c' \<and> reg c' = reg c
      \<and> tasks c' = tasks c"
    by (rule leader_kept_during_hysteresis [OF sampleController_facts(1,2) _ _ nl c q])
      (simp_all add: ledRound_def sampleController_facts defaultConfig_simps)
  then show ?thesis using c by blast
qed

text \<open>
  While discovery keeps returning no pods, the published leader is retained for fewer than
  \<open>EmptyDiscoveryDebounce\<close> rounds; from that round on an explicit leaderless state is published
  and the incumbent is cleared. No actuation is started.
\<close>

theorem empty_discovery_debounce:
  assumes "reg_inv (reg c)" and "Namespace (reg c) name = Some ns"
    and "emptyStreak (deploymentState c name) = 0"
    and "0 < EmptyDiscoveryDebounce (cfg c)" and "int (length rs) < max_int64"
    and "list_all (\<lambda>r. rd_discover r ns = Inr []) rs"
  shows "\<exists>c'. runRounds c name rs = Some c' \<and> tasks c' = tasks c
    \<and> (int (length rs) < EmptyDiscoveryDebounce (cfg c) \<longrightarrow> reg c' = reg c)
    \<and> (EmptyDiscoveryDebounce (cfg c) \<le> int (length rs) \<longrightarrow>
        Published (reg c') name \<and> LeaderPod (fst (Leader (reg c') name)) = ''''
        \<and> \<not> snd (Leader (reg c') name) \<and> incumbentPod (deploymentState c' name) = '''')"
proof -
  obtain c' where c': "runRounds c name rs = Some c'" "tasks c' = tasks c"
    "if int (length rs) < EmptyDiscoveryDebounce (cfg c)
       then reg c' = reg c
         \<and> incumbentPod (deploymentState c' name) = incumbentPod (deploymentState c name)
       else incumbentPod (deploymentState c' name) = ''''
         \<and> (\<exists>r. Update r name '''' '''' = Some (reg c') \<and> isKnown r name)"
    using empty_rounds [OF assms] by blast
  have "Published (reg c') name \<and> LeaderPod (fst (Leader (reg c') name)) = ''''
        \<and> \<not> snd (Leader (reg c') name)"
    if "Update r name '''' '''' = Some (reg c')" "isKnown r name" for r
    using that Leader_Update_self [OF _ that(1)] by (auto simp: isKnown_def)
  then show ?thesis using c' by (auto split: if_splits)
qed

theorem empty_discovery_debounce_witness:
  "\<exists>c'. runRounds sampleController ''dev'' (replicate 5 emptyRound) = Some c'
    \<and> Published (reg c') ''dev'' \<and> \<not> snd (Leader (reg c') ''dev'')"
proof -
  have "list_all (\<lambda>r. rd_discover r ''convex-dev'' = Inr []) (replicate 5 emptyRound)"
    by (simp add: emptyRound_def list_all_iff)
  from empty_discovery_debounce [OF sampleController_facts(1,2) _ _ _ this]
  show ?thesis by (auto simp: sampleController_facts defaultConfig_simps)
qed

lemma failing_rounds:
  assumes "Namespace (reg c) name = Some ns" "list_all (\<lambda>r. \<exists>err. rd_discover r ns = Inl err) rs"
  shows "\<exists>c'. runRounds c name rs = Some c' \<and> reg c' = reg c \<and> tasks c' = tasks c
    \<and> deploymentState c' name = (if rs = [] then deploymentState c name
        else (deploymentState c name)\<lparr>failback := noFailback, discoveryDown := True\<rparr>)"
  using assms
proof (induction rs arbitrary: c)
  case Nil
  then show ?case by simp
next
  case (Cons r rs)
  obtain err where err: "rd_discover r ns = Inl err" using Cons.prems(2) by auto
  let ?c1 = "putState c name (fst (setDiscoveryDown (deploymentState c name) True))"
  have run: "runRound c name r = Some ?c1"
    unfolding runRound_def
    by (rule reconcile_discovery_error [where discover = "rd_discover r", OF Cons.prems(1) err])
  have down: "fst (setDiscoveryDown st True) = st\<lparr>failback := noFailback, discoveryDown := True\<rparr>" for st
    by (cases st) (auto simp: setDiscoveryDown_def Let_def)
  have "\<exists>c'. runRounds ?c1 name rs = Some c' \<and> reg c' = reg ?c1 \<and> tasks c' = tasks ?c1
    \<and> deploymentState c' name = (if rs = [] then deploymentState ?c1 name
        else (deploymentState ?c1 name)\<lparr>failback := noFailback, discoveryDown := True\<rparr>)"
    by (rule Cons.IH) (use Cons.prems in simp_all)
  then show ?case using run down by auto
qed

text \<open>
  Failing discovery, for however many rounds, publishes nothing, starts nothing and
  advances no streak: the only memory of it is the down flag and a cleared failback clock.
\<close>

theorem discovery_errors_change_nothing:
  assumes "Namespace (reg c) name = Some ns" and "rs \<noteq> []"
    and "list_all (\<lambda>r. \<exists>err. rd_discover r ns = Inl err) rs"
  shows "\<exists>c'. runRounds c name rs = Some c' \<and> reg c' = reg c \<and> tasks c' = tasks c
    \<and> deploymentState c' name =
        (deploymentState c name)\<lparr>failback := noFailback, discoveryDown := True\<rparr>"
  using failing_rounds [OF assms(1,3)] assms(2) by simp

theorem discovery_errors_change_nothing_witness:
  "\<exists>c'. runRounds sampleController ''dev'' (replicate 20 failedRound) = Some c'
    \<and> reg c' = reg sampleController \<and> incumbentPod (deploymentState c' ''dev'') = ''backend-0''"
proof -
  have "list_all (\<lambda>r. \<exists>err. rd_discover r ''convex-dev'' = Inl err) (replicate 20 failedRound)"
    by (simp add: failedRound_def list_all_iff)
  from discovery_errors_change_nothing [OF sampleController_facts(2) _ this]
  show ?thesis by (auto simp: sampleController_facts)
qed

definition isPromoteTask :: "string \<times> task \<Rightarrow> bool" where
  "isPromoteTask nt = (case snd nt of PromoteTask _ \<Rightarrow> True | _ \<Rightarrow> False)"

lemma demoteAll_promotes [simp]:
  "filter isPromoteTask (tasks (demoteAll c name ts)) = filter isPromoteTask (tasks c)"
  by (auto simp: demoteAll_def isPromoteTask_def split: option.splits)

lemma setLeader_tasks: "setLeader c name pod url = Some c' \<Longrightarrow> tasks c' = tasks c"
  by (simp add: setLeader_effect)

lemma act_without_targets:
  assumes "act c name d s rt ps = Some c'" "promoteTarget d = None" "failbackTarget d = None"
  shows "filter isPromoteTask (tasks c') = filter isPromoteTask (tasks c)"
  using assms
  by (auto simp: act_def actLeaderless_def Let_def setLeader_tasks split: if_splits option.splits)

text \<open>
  C29: a pod remembered as mid-transition (a promotion was accepted, or may have reached it)
  that is discovered but does not answer freezes promotion: while the memory is younger than
  the grace, a round starts no promotion and no failback, and the memory is kept.
\<close>

theorem unanswered_promotion_freezes:
  assumes "reg_inv (reg c)" and "Namespace (reg c) name = Some ns" and "discover ns = Inr pods"
    and "distinct (map Pod pods)" and "b \<in> set pods" and "polls b = None"
    and "gwf (transitioningSeen (deploymentState c name))"
    and "map_of (transitioningSeen (deploymentState c name)) (Pod b) = Some t"
    and "time_sub ps t < UnreachableLeaderGrace (cfg c)"
  shows "\<exists>c'. reconcile c name discover polls ps now = Some c'
    \<and> filter isPromoteTask (tasks c') = filter isPromoteTask (tasks c)
    \<and> promoting (deploymentState c' name) = promoting (deploymentState c name)
    \<and> map_of (transitioningSeen (deploymentState c' name)) (Pod b) = Some t"
proof -
  let ?st1 = "fst (setDiscoveryDown (deploymentState c name) False)"
  obtain st2 obs where rem: "rememberTransitions (cfg c) ?st1 (pollAll polls pods) ps = (st2, obs)"
    by fastforce
  let ?dec = "decide obs (decideParamsOf (cfg c) st2 now)"
  have ne: "pods \<noteq> []" using assms(5) by auto
  obtain st3 streak es retain where com: "commitState (cfg c) st2 ?dec False now = (st3, streak, es, retain)"
    by (metis prod_cases4)
  have "pollOne b None \<in> set (pollAll polls pods)"
    using assms(5,6) by (force simp: pollAll_def)
  then have "anyTransitioning obs"
    using remembered_unreached_transitioning [OF rem, of "pollOne b None"] assms(4,7-9)
    by (simp add: pollOne_def unexpired_def)
  then have none: "promoteTarget ?dec = None" "failbackTarget ?dec = None"
    using transitioning_freezes by simp_all
  have mem: "map_of (transitioningSeen st2) (Pod b) = Some t"
    using rememberTransitions_memory [OF rem, of "pollOne b None"] assms(4,7-9) \<open>pollOne b None \<in> _\<close>
    by (simp add: pollOne_def unexpired_def)
  let ?c3 = "putState (putState (putState c name ?st1) name st2) name st3"
  have run: "reconcile c name discover polls ps now = act ?c3 name ?dec streak retain ps"
    using reconcile_polls [where discover = discover, OF assms(2,3), of polls ps now] rem com ne
    by (simp add: Let_def reconcileAct_def)
  obtain c' where c': "act ?c3 name ?dec streak retain ps = Some c'"
    using reconcile_frame [OF assms(1)] run by (metis option.inject)
  have st2: "st2 = ?st1\<lparr>transitioningSeen := transitioningSeen st2\<rparr>"
    by (rule rememberTransitions_obs(4) [OF rem])
  have "promoting st2 = promoting ?st1" by (subst st2) simp
  then have "promoting st3 = promoting (deploymentState c name)"
    "map_of (transitioningSeen st3) (Pod b) = Some t"
    using commitState_split [OF com] mem by simp_all
  moreover have "promoting (deploymentState c' name) = promoting (deploymentState ?c3 name)
    \<and> transitioningSeen (deploymentState c' name) = transitioningSeen (deploymentState ?c3 name)"
    using c' none
    by (auto simp: act_def actLeaderless_def Let_def demoteAll_def tryAcquireDemote_def
        dest!: setLeader_effect split: if_splits option.splits)
  ultimately show ?thesis
    using run c' act_without_targets [OF c' none] by simp
qed

theorem unanswered_promotion_freezes_witness:
  "\<exists>c'. reconcile (putState sampleController ''dev''
        (markTransitioning (deploymentState sampleController ''dev'') ''backend-1'' 15))
      ''dev'' (rd_discover (standbyRound 20))
      (\<lambda>b. if Pod b = ''backend-1'' then None else Some standby) 20 21 = Some c'
    \<and> filter isPromoteTask (tasks c') = []"
proof -
  let ?c = "putState sampleController ''dev''
    (markTransitioning (deploymentState sampleController ''dev'') ''backend-1'' 15)"
  let ?pods = "[sampleBackend ''backend-0'' 100, sampleBackend ''backend-1'' 0]"
  have "\<exists>c'. reconcile ?c ''dev'' (rd_discover (standbyRound 20))
      (\<lambda>b. if Pod b = ''backend-1'' then None else Some standby) 20 21 = Some c'
    \<and> filter isPromoteTask (tasks c') = filter isPromoteTask (tasks ?c)
    \<and> promoting (deploymentState c' ''dev'') = promoting (deploymentState ?c ''dev'')
    \<and> map_of (transitioningSeen (deploymentState c' ''dev'')) (Pod (sampleBackend ''backend-1'' 0)) = Some 15"
    by (rule unanswered_promotion_freezes [where pods = ?pods and b = "sampleBackend ''backend-1'' 0"
          and t = 15 and ns = "''convex-dev''"])
      (simp_all add: sampleController_facts standbyRound_def sampleBackend_def markTransitioning_def
        defaultConfig_simps)
  then show ?thesis by (auto simp: sampleController_facts)
qed

section \<open>Failover happens\<close>

text \<open>A round in which every pod answers, none leads or is mid-transition, and one is promotable.\<close>

definition failoverRound :: "string \<Rightarrow> round \<Rightarrow> bool" where
  "failoverRound ns r =
     (case rd_discover r ns of Inl _ \<Rightarrow> False
      | Inr pods \<Rightarrow>
          list_all (\<lambda>ob. reach ob \<and> \<not> IsLeader (status ob) \<and> \<not> isTransitioning ob)
            (pollAll (rd_polls r) pods)
          \<and> list_ex isPromotable (pollAll (rd_polls r) pods))"

definition marksBefore :: "deploymentRecord \<Rightarrow> instant \<Rightarrow> bool" where
  "marksBefore st t = list_all (\<lambda>(_, seen). seen \<le> t) (transitioningSeen st)"

lemma set_snd_delete: "snd ` set (AList.delete k m) \<subseteq> snd ` set m"
  by (auto simp: AList.delete_eq)

lemma rememberLoop_settled:
  "list_all (\<lambda>ob. reach ob \<and> \<not> isTransitioning ob) obs \<Longrightarrow>
     fst (rememberLoop ps obs seen) = obs
     \<and> snd ` set (snd (rememberLoop ps obs seen)) \<subseteq> snd ` set seen"
proof (induction obs arbitrary: seen)
  case (Cons ob obs)
  have "snd (rememberOne ps ob seen) = seen \<or> snd (rememberOne ps ob seen) = AList.delete (obPod ob) seen"
    using Cons.prems by (simp add: rememberOne_def Let_def split: option.splits)
  then have "snd ` set (snd (rememberOne ps ob seen)) \<subseteq> snd ` set seen"
    using set_snd_delete [of "obPod ob" seen] by (metis order_refl)
  note one = this
  have "fst (rememberLoop ps obs (snd (rememberOne ps ob seen))) = obs
     \<and> snd ` set (snd (rememberLoop ps obs (snd (rememberOne ps ob seen))))
        \<subseteq> snd ` set (snd (rememberOne ps ob seen))"
    by (rule Cons.IH) (use Cons.prems in simp)
  note rest = this
  have "fst (rememberOne ps ob seen) = ob" using Cons.prems by simp
  then have "fst (rememberLoop ps (ob # obs) seen) = ob # obs" using rest by simp
  moreover have "snd ` set (snd (rememberLoop ps (ob # obs) seen)) \<subseteq> snd ` set seen"
    unfolding rememberLoop_Cons by (rule subset_trans [OF conjunct2 [OF rest] one])
  ultimately show ?case by blast
qed simp

lemma rememberTransitions_settled:
  assumes "rememberTransitions cf st obs ps = (st', obs')"
    and "list_all (\<lambda>ob. reach ob \<and> \<not> isTransitioning ob) obs"
  shows "obs' = obs" "marksBefore st t \<Longrightarrow> marksBefore st' t"
proof -
  note S = rememberTransitions_split [OF assms(1)] rememberLoop_settled [OF assms(2)]
  show "obs' = obs" using S by simp
  have sub: "snd ` set (transitioningSeen st') \<subseteq> snd ` set (transitioningSeen st)"
    using S(1) S(2) [of ps "filter (\<lambda>(pod, t). \<not> time_sub ps t \<ge> UnreachableLeaderGrace cf) (transitioningSeen st)"]
    by auto
  show "marksBefore st t \<Longrightarrow> marksBefore st' t"
    unfolding marksBefore_def list_all_iff using sub by fastforce
qed

lemma firstUnreach_all: "list_all reach obs \<Longrightarrow> \<not> firstUnreach obs p"
  by (induction obs) auto

lemma marksBefore_acquire:
  "marksBefore st ps \<Longrightarrow> \<not> promoting st \<Longrightarrow> tryAcquirePromote st ps = Some (st\<lparr>promoting := True\<rparr>)"
  by (auto simp: tryAcquirePromote_def marksBefore_def list_ex_iff list_all_iff)

lemma failover_round:
  assumes inv: "reg_inv (reg c)" and ns: "Namespace (reg c) name = Some ns"
    and fo: "failoverRound ns r"
    and s: "0 \<le> leaderlessStreak (deploymentState c name)"
      "leaderlessStreak (deploymentState c name) < max_int64"
    and free: "\<not> promoting (deploymentState c name)"
    and marks: "marksBefore (deploymentState c name) (rd_start r)"
  shows "\<exists>c'. runRound c name r = Some c' \<and> cfg c' = cfg c
    \<and> (if leaderlessStreak (deploymentState c name) + 1 < PromoteDebounce (cfg c)
       then reg c' = reg c \<and> tasks c' = tasks c
         \<and> leaderlessStreak (deploymentState c' name) = leaderlessStreak (deploymentState c name) + 1
         \<and> \<not> promoting (deploymentState c' name)
         \<and> (\<forall>t. marksBefore (deploymentState c name) t \<longrightarrow> marksBefore (deploymentState c' name) t)
       else Update (reg c) name '''' '''' = Some (reg c')
         \<and> promoting (deploymentState c' name)
         \<and> leaderlessStreak (deploymentState c' name) = leaderlessStreak (deploymentState c name) + 1
         \<and> (\<forall>t. marksBefore (deploymentState c name) t \<longrightarrow> marksBefore (deploymentState c' name) t)
         \<and> (\<exists>pods t. rd_discover r ns = Inr pods \<and> t \<in> set (pollAll (rd_polls r) pods)
              \<and> isPromotable t \<and> tasks c' = tasks c @ [(name, PromoteTask t)]
              \<and> bestCandidate (pollAll (rd_polls r) pods) (promoteAttempts (deploymentState c name)) = Some t
              \<and> promoteAttempts (deploymentState c' name) =
                  AList.update (obPod t) (rd_start r) (promoteAttempts (deploymentState c name))))"
proof -
  obtain pods where pods: "rd_discover r ns = Inr pods"
    and all: "list_all (\<lambda>ob. reach ob \<and> \<not> IsLeader (status ob) \<and> \<not> isTransitioning ob)
            (pollAll (rd_polls r) pods)"
    and ex: "list_ex isPromotable (pollAll (rd_polls r) pods)"
    using fo by (auto simp: failoverRound_def split: sum.splits)
  let ?obs = "pollAll (rd_polls r) pods" and ?st1 = "fst (setDiscoveryDown (deploymentState c name) False)"
  obtain st2 obs where rem: "rememberTransitions (cfg c) ?st1 ?obs (rd_start r) = (st2, obs)"
    by fastforce
  have settled: "list_all (\<lambda>ob. reach ob \<and> \<not> isTransitioning ob) ?obs"
    using all by (simp add: list_all_iff)
  have obs: "obs = ?obs" by (rule rememberTransitions_settled(1) [OF rem settled])
  let ?p = "decideParamsOf (cfg c) st2 (rd_now r)"
  have claims: "claimedLeaders ?obs (dp_leaseUnverifiedGrace ?p) = []"
    using all by (auto simp: claimedLeaders_def filter_empty_conv isLiveLeaderClaim_def list_all_iff)
  have notrans: "\<not> anyTransitioning ?obs"
    using all by (auto simp: anyTransitioning_def list_all_iff list_ex_iff)
  have unre: "\<not> incumbentDiscoveredUnreachable ?obs i" for i
    using firstUnreach_all [of ?obs i] all by (simp add: incumbentDiscoveredUnreachable_def list_all_iff)
  note dec = decide_leaderless [OF claims]
  obtain t where t: "bestCandidate ?obs (attempted ?p) = Some t" "t \<in> set ?obs" "isPromotable t"
    using ex bestCandidate_None [of ?obs "attempted ?p"] bestCandidate_mem [of ?obs "attempted ?p"]
    by (auto simp: list_ex_iff)
  obtain st3 streak es retain where
    com: "commitState (cfg c) st2 (decide ?obs ?p) False (rd_now r) = (st3, streak, es, retain)"
    by (metis prod_cases4)
  have zero: "liveLeaderCount (decide ?obs ?p) = 0" using claims by (simp add: decide_count_0)
  note C = commitState_leaderless [OF com zero]
  have st2: "st2 = ?st1\<lparr>transitioningSeen := transitioningSeen st2\<rparr>"
    by (rule rememberTransitions_obs(4) [OF rem])
  have st2f: "leaderlessStreak st2 = leaderlessStreak (deploymentState c name)"
      "promoting st2 = promoting (deploymentState c name)"
      "promoteAttempts st2 = promoteAttempts (deploymentState c name)"
    by (subst st2, simp)+
  have att: "attempted ?p = promoteAttempts (deploymentState c name)"
    using st2f by (simp add: decideParamsOf_def)
  have streak: "streak = leaderlessStreak (deploymentState c name) + 1" "\<not> retain"
    using C(1,8) dec notrans unre s st2f by (simp_all add: wrap64_Suc)
  have mk1: "marksBefore (deploymentState c name) u \<Longrightarrow> marksBefore ?st1 u" for u
    by (simp add: marksBefore_def)
  have mk: "marksBefore (deploymentState c name) u \<Longrightarrow> marksBefore st3 u" for u
    using rememberTransitions_settled(2) [OF rem settled] mk1 C(6) by (simp add: marksBefore_def)
  have acq: "tryAcquirePromote st3 (rd_start r) = Some (st3\<lparr>promoting := True\<rparr>)"
    using marksBefore_acquire [OF mk [OF marks]] C(5) st2f free by simp
  let ?c3 = "putState (putState (putState c name ?st1) name st2) name st3"
  have ne: "pods \<noteq> []" using ex by (auto simp: pollAll_def)
  have run: "runRound c name r = actLeaderless ?c3 name (decide ?obs ?p) streak False (rd_start r)"
    using reconcile_polls [where discover = "rd_discover r", OF ns pods, of "rd_polls r" "rd_start r" "rd_now r"]
      rem com ne obs zero streak unfolding runRound_def
    by (simp add: Let_def reconcileAct_def act_def)
  show ?thesis
  proof (cases "streak < PromoteDebounce (cfg c)")
    case True
    then show ?thesis using run streak C(2,5) st2f free mk by (simp add: actLeaderless_def)
  next
    case False
    have "reg_inv (reg (putState ?c3 name (st3\<lparr>promoting := True\<rparr>)))" using inv by simp
    then obtain c1 where c1: "setLeader (putState ?c3 name (st3\<lparr>promoting := True\<rparr>)) name '''' '''' = Some c1"
      using setLeader_total by blast
    note E = setLeader_effect [OF c1]
    have "promoteTarget (decide ?obs ?p) = Some t" using t(1) notrans by (simp add: dec)
    then show ?thesis
      using run False streak acq c1 E t pods att C(2,4) st2f mk
      by (auto simp: actLeaderless_def recordPromoteAttempt_def marksBefore_def)
  qed
qed

lemma failover_rounds_wait:
  assumes "reg_inv (reg c)" "Namespace (reg c) name = Some ns"
    and "0 \<le> leaderlessStreak (deploymentState c name)" "PromoteDebounce (cfg c) \<le> max_int64"
    and "leaderlessStreak (deploymentState c name) + int (length rs) < PromoteDebounce (cfg c)"
    and "\<not> promoting (deploymentState c name)"
    and "list_all (failoverRound ns) rs"
    and "list_all (\<lambda>r. marksBefore (deploymentState c name) (rd_start r)) (rs @ qs)"
  shows "\<exists>c'. runRounds c name rs = Some c' \<and> cfg c' = cfg c \<and> reg c' = reg c \<and> tasks c' = tasks c
    \<and> leaderlessStreak (deploymentState c' name) =
        leaderlessStreak (deploymentState c name) + int (length rs)
    \<and> \<not> promoting (deploymentState c' name)
    \<and> list_all (\<lambda>r. marksBefore (deploymentState c' name) (rd_start r)) qs"
  using assms
proof (induction rs arbitrary: c)
  case Nil
  then show ?case by simp
next
  case (Cons r rs)
  have "failoverRound ns r" "marksBefore (deploymentState c name) (rd_start r)"
    "leaderlessStreak (deploymentState c name) < max_int64"
    using Cons.prems by simp_all
  from failover_round [OF Cons.prems(1,2) this(1) Cons.prems(3) this(3) Cons.prems(6) this(2)]
  obtain c1 where c1: "runRound c name r = Some c1" "cfg c1 = cfg c" "reg c1 = reg c" "tasks c1 = tasks c"
    "leaderlessStreak (deploymentState c1 name) = leaderlessStreak (deploymentState c name) + 1"
    "\<not> promoting (deploymentState c1 name)"
    "\<And>t. marksBefore (deploymentState c name) t \<Longrightarrow> marksBefore (deploymentState c1 name) t"
    using Cons.prems(5) by (auto split: if_splits)
  have "list_all (\<lambda>r. marksBefore (deploymentState c1 name) (rd_start r)) (rs @ qs)"
    using Cons.prems(8) c1(7) by (simp add: list_all_iff)
  then have "\<exists>c'. runRounds c1 name rs = Some c' \<and> cfg c' = cfg c1 \<and> reg c' = reg c1 \<and> tasks c' = tasks c1
    \<and> leaderlessStreak (deploymentState c' name) =
        leaderlessStreak (deploymentState c1 name) + int (length rs)
    \<and> \<not> promoting (deploymentState c' name)
    \<and> list_all (\<lambda>r. marksBefore (deploymentState c' name) (rd_start r)) qs"
    by (intro Cons.IH) (use Cons.prems c1 in simp_all)
  then show ?case using c1 by auto
qed

text \<open>
  Failover happens on time: if for \<open>PromoteDebounce\<close> consecutive rounds every discovered
  pod answers, none leads or is mid-transition and some pod is promotable, no promotion is in
  flight and the remembered transitions are not newer than the polls, then the last of these
  rounds (and no earlier one) publishes leaderless and starts exactly one promotion, of a
  promotable pod it polled.
\<close>

theorem failover_on_time:
  assumes "reg_inv (reg c)" and "Namespace (reg c) name = Some ns"
    and "leaderlessStreak (deploymentState c name) = 0" and "\<not> promoting (deploymentState c name)"
    and "int (length (rs @ [r])) = PromoteDebounce (cfg c)" and "PromoteDebounce (cfg c) \<le> max_int64"
    and "list_all (failoverRound ns) (rs @ [r])"
    and "list_all (\<lambda>q. marksBefore (deploymentState c name) (rd_start q)) (rs @ [r])"
  shows "\<exists>c1 c' pods t. runRounds c name rs = Some c1 \<and> tasks c1 = tasks c \<and> reg c1 = reg c
    \<and> runRounds c name (rs @ [r]) = Some c'
    \<and> tasks c' = tasks c @ [(name, PromoteTask t)] \<and> isPromotable t
    \<and> rd_discover r ns = Inr pods \<and> t \<in> set (pollAll (rd_polls r) pods)
    \<and> promoting (deploymentState c' name)
    \<and> \<not> snd (Leader (reg c') name) \<and> Published (reg c') name"
proof -
  obtain c1 where c1: "runRounds c name rs = Some c1" "cfg c1 = cfg c" "reg c1 = reg c"
    "tasks c1 = tasks c" "leaderlessStreak (deploymentState c1 name) = int (length rs)"
    "\<not> promoting (deploymentState c1 name)" "marksBefore (deploymentState c1 name) (rd_start r)"
    using failover_rounds_wait [OF assms(1,2) _ assms(6), of rs "[r]"] assms by auto
  have "reg_inv (reg c1)" "Namespace (reg c1) name = Some ns" using c1 assms by simp_all
  from failover_round [OF this, of r] c1 assms(5-7) obtain c' pods t where
    c': "runRound c1 name r = Some c'" "Update (reg c) name '''' '''' = Some (reg c')"
      "promoting (deploymentState c' name)" "rd_discover r ns = Inr pods"
      "t \<in> set (pollAll (rd_polls r) pods)" "isPromotable t"
      "tasks c' = tasks c @ [(name, PromoteTask t)]"
    by (auto simp: max_int64_def)
  obtain d where "map_of (deps (reg c)) name = Some d"
    using assms(2) by (auto simp: Namespace_def split: option.splits)
  from Leader_Update_self [OF this c'(2)] show ?thesis
    using c1 c' by (auto simp: runRounds_append)
qed

theorem failover_on_time_witness:
  "\<exists>c' t. runRounds sampleController ''dev'' [standbyRound 10, standbyRound 20, standbyRound 30] = Some c'
    \<and> tasks c' = [(''dev'', PromoteTask t)] \<and> isPromotable t"
proof -
  have f: "list_all (failoverRound ''convex-dev'') ([standbyRound 10, standbyRound 20] @ [standbyRound 30])"
    by (simp add: failoverRound_def standbyRound_def pollAll_def pollOne_def standby_def
        noLeadership_def isTransitioning_def isPromotable_def)
  have m: "list_all (\<lambda>q. marksBefore (deploymentState sampleController ''dev'') (rd_start q))
      ([standbyRound 10, standbyRound 20] @ [standbyRound 30])"
    by (simp add: sampleController_facts marksBefore_def newDeploymentState_def)
  from failover_on_time [OF sampleController_facts(1,2) _ _ _ _ f m]
  show ?thesis by (auto simp: sampleController_facts defaultConfig_simps)
qed

end
