(* ===== verification/ElectionSafety.thy ===== *)
theory ElectionSafety
  imports ElectionFacts
begin

text \<open>
  The election controller as an interleaving system: the reconcile goroutine of every
  deployment, cut at its critical sections and clock readings, next to the actuation
  goroutines it has started (\<open>election.go\<close> and \<open>act.go\<close> together).

  The clock never runs backwards (Go's monotonic clock); two readings may coincide. The
  answers of the API server, of the polls and of the actuation calls are arbitrary, and any
  deployment or goroutine may move next. Every step carries an event, so that the history of
  a run says when a promotion was started, when one was recorded and when one ended.
\<close>

section \<open>States and events\<close>

text \<open>
  Where the reconcile goroutine of a deployment stands; the first argument is \<open>pollStart\<close>.
  \<open>Committed\<close> holds what \<open>commitState\<close> returned, the later phases are inside \<open>act\<close>.
\<close>

datatype phase =
    Idle
  | Discovered "Backend list"
  | Polling instant "Backend list"
  | Polled instant bool "observation list" instant
  | Remembered instant bool "observation list" instant
  | Committed instant bool decision int int bool
  | LeaderSet instant decision
  | DemotesDone instant decision
  | FailbackAcquired instant observation
  | PromoteAcquired instant observation
  | LeaderCleared instant observation
  | PromoteReady instant observation

record sys =
  ctl :: Controller
  clock :: instant
  phases :: "string \<Rightarrow> phase"

datatype event =
    Silent
  | PollBegan string instant
  | Started string string instant
  | Recorded string string instant
  | Released string

text \<open>\<open>promoteAndLog\<close> remembers the pod exactly when the call may have reached it.\<close>

definition mayHaveReached :: "promoteAnswer \<Rightarrow> bool" where
  "mayHaveReached answer =
     (case answer of
        None \<Rightarrow> False
      | Some (code, sent, failed) \<Rightarrow> if failed then sent else code = 200 \<or> code = 202)"

definition at :: "sys \<Rightarrow> string \<Rightarrow> phase \<Rightarrow> Controller \<Rightarrow> sys" where
  "at s n p c = s\<lparr>ctl := c, phases := (phases s)(n := p)\<rparr>"

definition tick :: "sys \<Rightarrow> instant \<Rightarrow> sys" where
  "tick s t = s\<lparr>clock := t\<rparr>"

section \<open>Steps\<close>

inductive estep :: "sys \<Rightarrow> event \<Rightarrow> sys \<Rightarrow> bool" where
  discovery_failed:
    "phases s n = Idle \<Longrightarrow> reconcileDiscover (ctl s) n (d :: string \<Rightarrow> string + Backend list) = (c, None) \<Longrightarrow>
     estep s Silent (at s n Idle c)"
| discovered:
    "phases s n = Idle \<Longrightarrow> reconcileDiscover (ctl s) n (d :: string \<Rightarrow> string + Backend list) = (c, Some pods) \<Longrightarrow>
     estep s Silent (at s n (Discovered pods) c)"
| poll_begin:
    "phases s n = Discovered pods \<Longrightarrow> clock s \<le> t \<Longrightarrow>
     estep s (PollBegan n t) (tick (at s n (Polling t pods) (ctl s)) t)"
| poll_end:
    "phases s n = Polling ps pods \<Longrightarrow> clock s \<le> t \<Longrightarrow>
     estep s Silent (tick (at s n (Polled ps (pods = []) (pollAll polls pods) t) (ctl s)) t)"
| remember:
    "phases s n = Polled ps e obs now \<Longrightarrow>
     rememberTransitions (cfg (ctl s)) (deploymentState (ctl s) n) obs ps = (st, obs') \<Longrightarrow>
     estep s Silent (at s n (Remembered ps e obs' now) (putState (ctl s) n st))"
| commit:
    "phases s n = Remembered ps e obs now \<Longrightarrow>
     reconcileDecide (ctl s) n obs now = (c, dec, streak, es, retain) \<Longrightarrow>
     estep s Silent (at s n (Committed ps e dec streak es retain) c)"
| empty_discovery:
    "phases s n = Committed ps True dec streak es retain \<Longrightarrow>
     actEmptyDiscovery (ctl s) n es = Some c \<Longrightarrow>
     estep s Silent (at s n Idle c)"
| leaderless_done:
    "phases s n = Committed ps False dec streak es retain \<Longrightarrow> liveLeaderCount dec = 0 \<Longrightarrow>
     streak < PromoteDebounce (cfg (ctl s)) \<or> retain \<or> promoteTarget dec = None
       \<or> tryAcquirePromote (deploymentState (ctl s) n) ps = None \<Longrightarrow>
     actLeaderless (ctl s) n dec streak retain ps = Some c \<Longrightarrow>
     estep s Silent (at s n Idle c)"
| leaderless_acquire:
    "phases s n = Committed ps False dec streak es retain \<Longrightarrow> liveLeaderCount dec = 0 \<Longrightarrow>
     \<not> streak < PromoteDebounce (cfg (ctl s)) \<Longrightarrow> \<not> retain \<Longrightarrow> promoteTarget dec = Some target \<Longrightarrow>
     tryAcquirePromote (deploymentState (ctl s) n) ps = Some st \<Longrightarrow>
     estep s Silent (at s n (PromoteAcquired ps target) (putState (ctl s) n st))"
| clear_leader:
    "phases s n = PromoteAcquired ps target \<Longrightarrow> setLeader (ctl s) n '''' '''' = Some c \<Longrightarrow>
     estep s Silent (at s n (LeaderCleared ps target) c)"
| record_attempt:
    "phases s n = LeaderCleared ps target \<Longrightarrow>
     estep s Silent (at s n (PromoteReady ps target)
       (putState (ctl s) n (recordPromoteAttempt (deploymentState (ctl s) n) (obPod target) ps)))"
| set_leader:
    "phases s n = Committed ps False dec streak es retain \<Longrightarrow> liveLeaderCount dec \<noteq> 0 \<Longrightarrow>
     setLeader (ctl s) n (dec_leaderPod dec) (dec_leaderURL dec) = Some c \<Longrightarrow>
     estep s Silent (at s n (LeaderSet ps dec) c)"
| demote_extra:
    "phases s n = LeaderSet ps dec \<Longrightarrow>
     estep s Silent (at s n (DemotesDone ps dec) (demoteAll (ctl s) n (demotes dec)))"
| no_failback:
    "phases s n = DemotesDone ps dec \<Longrightarrow>
     failbackTarget dec = None \<or> tryAcquirePromote (deploymentState (ctl s) n) ps = None \<Longrightarrow>
     estep s Silent (at s n Idle (ctl s))"
| failback_acquire:
    "phases s n = DemotesDone ps dec \<Longrightarrow> failbackTarget dec = Some target \<Longrightarrow>
     tryAcquirePromote (deploymentState (ctl s) n) ps = Some st \<Longrightarrow>
     estep s Silent (at s n (FailbackAcquired ps target) (putState (ctl s) n st))"
| failback_clock:
    "phases s n = FailbackAcquired ps target \<Longrightarrow>
     estep s Silent (at s n (PromoteReady ps target)
       (putState (ctl s) n (restartFailbackClock (deploymentState (ctl s) n) ps)))"
| start_promotion:
    "phases s n = PromoteReady ps target \<Longrightarrow>
     estep s (Started n (obPod target) ps) (at s n Idle (spawn (ctl s) n (PromoteTask target)))"
| promotion_answered:
    "tasks (ctl s) = xs @ (n, PromoteTask target) # ys \<Longrightarrow> clock s \<le> t \<Longrightarrow>
     estep s (if mayHaveReached answer then Recorded n (obPod target) t else Silent)
       (tick (s\<lparr>ctl := (putState (ctl s) n (promoteAndLog (deploymentState (ctl s) n) target answer t))
                 \<lparr>tasks := xs @ (n, PromoteRelease) # ys\<rparr>\<rparr>) t)"
| promotion_released:
    "tasks (ctl s) = xs @ (n, PromoteRelease) # ys \<Longrightarrow>
     estep s (Released n)
       (s\<lparr>ctl := (putState (ctl s) n (releasePromote (deploymentState (ctl s) n)))
          \<lparr>tasks := xs @ ys\<rparr>\<rparr>)"
| demotions_answered:
    "tasks (ctl s) = xs @ (n, DemoteTask targets) # ys \<Longrightarrow>
     estep s Silent (s\<lparr>ctl := (ctl s)\<lparr>tasks := xs @ (n, DemoteRelease) # ys\<rparr>\<rparr>)"
| demotions_released:
    "tasks (ctl s) = xs @ (n, DemoteRelease) # ys \<Longrightarrow>
     estep s Silent
       (s\<lparr>ctl := (putState (ctl s) n (releaseDemote (deploymentState (ctl s) n)))
          \<lparr>tasks := xs @ ys\<rparr>\<rparr>)"
| subscribe:
    "Subscribe (reg (ctl s)) n = Some (r, k) \<Longrightarrow> estep s Silent (s\<lparr>ctl := (ctl s)\<lparr>reg := r\<rparr>\<rparr>)"
| cancel:
    "cancelSub (reg (ctl s)) n k = Some r \<Longrightarrow> estep s Silent (s\<lparr>ctl := (ctl s)\<lparr>reg := r\<rparr>\<rparr>)"
| receive:
    "recv (reg (ctl s)) k = Some (ev, r) \<Longrightarrow> estep s Silent (s\<lparr>ctl := (ctl s)\<lparr>reg := r\<rparr>\<rparr>)"

text \<open>
  The process starts with the deployments registered and every reconcile loop idle
  (\<open>buildRegistry\<close> of \<open>main.go\<close>, then \<open>Run\<close>).
\<close>

fun registerAll :: "Registry \<Rightarrow> (string \<times> string) list \<Rightarrow> Registry" where
  "registerAll r [] = r"
| "registerAll r ((n, ns) # ds) = registerAll (EnsureDeployment r n ns) ds"

definition startSystem :: "Config \<Rightarrow> 8 word list \<Rightarrow> (string \<times> string) list \<Rightarrow> instant \<Rightarrow> sys" where
  "startSystem cf bs ds t =
     \<lparr>ctl = NewController cf (registerAll (NewRegistry bs) ds), clock = t, phases = (\<lambda>_. Idle)\<rparr>"

inductive run :: "sys \<Rightarrow> event list \<Rightarrow> sys \<Rightarrow> bool" for s0 where
  start: "run s0 [] s0"
| step: "run s0 tr s \<Longrightarrow> estep s e s' \<Longrightarrow> run s0 (tr @ [e]) s'"

section \<open>What the critical sections leave alone\<close>

lemma at_fields [simp]:
  "ctl (at s n p c) = c" "clock (at s n p c) = clock s"
  "phases (at s n p c) m = (if m = n then p else phases s m)"
  by (simp_all add: at_def)

lemma tick_fields [simp]:
  "ctl (tick s t) = ctl s" "clock (tick s t) = t" "phases (tick s t) = phases s"
  by (simp_all add: tick_def)

lemma deploymentState_tasks [simp]: "deploymentState (c\<lparr>tasks := ts\<rparr>) m = deploymentState c m"
  by (simp add: deploymentState_def)

text \<open>\<open>keeps c c'\<close>: the locks, the incumbents and the remembered transitions are untouched.\<close>

definition keeps :: "Controller \<Rightarrow> Controller \<Rightarrow> bool" where
  "keeps c c' = (reg c' = reg c \<and> tasks c' = tasks c \<and> cfg c' = cfg c
     \<and> (\<forall>m. promoting (deploymentState c' m) = promoting (deploymentState c m)
          \<and> demoting (deploymentState c' m) = demoting (deploymentState c m)
          \<and> incumbentPod (deploymentState c' m) = incumbentPod (deploymentState c m)
          \<and> transitioningSeen (deploymentState c' m) = transitioningSeen (deploymentState c m)))"

lemma keepsD:
  "keeps c c' \<Longrightarrow> reg c' = reg c" "keeps c c' \<Longrightarrow> tasks c' = tasks c" "keeps c c' \<Longrightarrow> cfg c' = cfg c"
  "keeps c c' \<Longrightarrow> promoting (deploymentState c' m) = promoting (deploymentState c m)"
  "keeps c c' \<Longrightarrow> demoting (deploymentState c' m) = demoting (deploymentState c m)"
  "keeps c c' \<Longrightarrow> incumbentPod (deploymentState c' m) = incumbentPod (deploymentState c m)"
  "keeps c c' \<Longrightarrow> transitioningSeen (deploymentState c' m) = transitioningSeen (deploymentState c m)"
  by (simp_all add: keeps_def)

lemma keeps_refl [simp]: "keeps c c"
  by (simp add: keeps_def)

lemma keeps_discover: "reconcileDiscover c n d = (c', r) \<Longrightarrow> keeps c c'"
  by (auto simp: reconcileDiscover_def Let_def keeps_def split: option.splits sum.splits if_splits)

lemma keeps_decide: "reconcileDecide c n obs now = (c', r) \<Longrightarrow> keeps c c'"
  by (auto simp: reconcileDecide_def Let_def keeps_def dest!: commitState_split
      split: prod.splits if_splits)

lemma keeps_attempt [simp]:
  "keeps c (putState c n (recordPromoteAttempt (deploymentState c n) pod ps))"
  "keeps c (putState c n (restartFailbackClock (deploymentState c n) ps))"
  by (simp_all add: keeps_def recordPromoteAttempt_def restartFailbackClock_def)

lemma remember_keeps:
  "rememberTransitions cf st obs ps = (st', obs') \<Longrightarrow>
     promoting st' = promoting st \<and> demoting st' = demoting st \<and> incumbentPod st' = incumbentPod st"
  by (drule rememberTransitions_obs(4)) (metis deploymentRecord.select_convs(3,5,6)
      deploymentRecord.surjective deploymentRecord.update_convs(9))

lemma acquire_Some:
  "tryAcquirePromote st ps = Some st' \<Longrightarrow>
     \<not> promoting st \<and> st' = st\<lparr>promoting := True\<rparr> \<and> (\<forall>(p, t) \<in> set (transitioningSeen st). t \<le> ps)"
  by (auto simp: tryAcquirePromote_def list_ex_iff split: if_splits)

lemma setLeader_keeps:
  assumes "setLeader c n pod url = Some c'"
  shows "tasks c' = tasks c \<and> cfg c' = cfg c
    \<and> promoting (deploymentState c' m) = promoting (deploymentState c m)
    \<and> demoting (deploymentState c' m) = demoting (deploymentState c m)
    \<and> transitioningSeen (deploymentState c' m) = transitioningSeen (deploymentState c m)
    \<and> incumbentPod (deploymentState c' m) = (if m = n then pod else incumbentPod (deploymentState c m))"
  using setLeader_effect [OF assms] frame_setLeader [OF assms] by (cases "m = n") (auto simp: frame_def)

lemma leaderless_quiet:
  "actLeaderless c n dec streak retain ps = Some c' \<Longrightarrow>
   streak < PromoteDebounce (cfg c) \<or> retain \<or> promoteTarget dec = None
     \<or> tryAcquirePromote (deploymentState c n) ps = None \<Longrightarrow>
   c' = c \<or> setLeader c n '''' '''' = Some c'"
  by (auto simp: actLeaderless_def split: if_splits option.splits)

lemma empty_quiet:
  "actEmptyDiscovery c n es = Some c' \<Longrightarrow> c' = c \<or> setLeader c n '''' '''' = Some c'"
  by (auto simp: actEmptyDiscovery_def split: if_splits)

lemma demoteAll_cases:
  "demoteAll c n ts = c \<or>
   \<not> demoting (deploymentState c n) \<and>
   demoteAll c n ts =
     spawn (putState c n ((deploymentState c n)\<lparr>demoting := True\<rparr>)) n (DemoteTask ts)"
  by (auto simp: demoteAll_def tryAcquireDemote_def)

lemma promoteAndLog_keeps [simp]:
  "promoting (promoteAndLog st target answer t) = promoting st"
  "demoting (promoteAndLog st target answer t) = demoting st"
  "incumbentPod (promoteAndLog st target answer t) = incumbentPod st"
  by (simp_all add: promoteAndLog_def markTransitioning_def split: option.splits prod.splits)

lemma promoteAndLog_memory:
  "transitioningSeen (promoteAndLog st target answer t) =
     (if mayHaveReached answer then AList.update (obPod target) t (transitioningSeen st)
      else transitioningSeen st)"
  by (auto simp: promoteAndLog_def markTransitioning_def mayHaveReached_def
      split: option.splits prod.splits)

section \<open>The actuation locks\<close>

fun holdsPromote :: "phase \<Rightarrow> bool" where
  "holdsPromote (FailbackAcquired _ _) = True"
| "holdsPromote (PromoteAcquired _ _) = True"
| "holdsPromote (LeaderCleared _ _) = True"
| "holdsPromote (PromoteReady _ _) = True"
| "holdsPromote _ = False"

definition promotes :: "string \<Rightarrow> string \<times> task \<Rightarrow> bool" where
  "promotes n nt = (fst nt = n \<and>
     (case snd nt of PromoteTask _ \<Rightarrow> True | PromoteRelease \<Rightarrow> True | _ \<Rightarrow> False))"

definition demoteTask :: "string \<Rightarrow> string \<times> task \<Rightarrow> bool" where
  "demoteTask n nt = (fst nt = n \<and>
     (case snd nt of DemoteTask _ \<Rightarrow> True | DemoteRelease \<Rightarrow> True | _ \<Rightarrow> False))"

text \<open>Counting the holders of a lock.\<close>

definition held :: "bool \<Rightarrow> nat" where
  "held b = (if b then 1 else 0)"

fun tally :: "('a \<Rightarrow> bool) \<Rightarrow> 'a list \<Rightarrow> nat" where
  "tally P [] = 0"
| "tally P (x # xs) = held (P x) + tally P xs"

lemma held_simps [simp]: "held True = 1" "held False = 0" "held b = 0 \<longleftrightarrow> \<not> b" "Suc n = held b \<longleftrightarrow> b \<and> n = 0"
  by (auto simp: held_def)

lemma held_inject [simp]: "held a = held b \<longleftrightarrow> a = b"
  by (simp add: held_def)

lemma tally_append [simp]: "tally P (xs @ ys) = tally P xs + tally P ys"
  by (induction xs) auto

lemma tally_none: "\<forall>x \<in> set xs. \<not> P x \<Longrightarrow> tally P xs = 0"
  by (induction xs) auto

text \<open>Everyone who may release or use a lock is a holder of it.\<close>

definition promoteHolders :: "sys \<Rightarrow> string \<Rightarrow> nat" where
  "promoteHolders s n = tally (promotes n) (tasks (ctl s))
     + held (holdsPromote (phases s n))"

definition demoteHolders :: "sys \<Rightarrow> string \<Rightarrow> nat" where
  "demoteHolders s n = tally (demoteTask n) (tasks (ctl s))"

definition locks_ok :: "sys \<Rightarrow> bool" where
  "locks_ok s = (\<forall>n. promoteHolders s n = held (promoting (deploymentState (ctl s) n))
     \<and> demoteHolders s n = held (demoting (deploymentState (ctl s) n)))"

lemmas lock_simps = promoteHolders_def demoteHolders_def promotes_def demoteTask_def
  releasePromote_def releaseDemote_def

text \<open>The invariant at one deployment.\<close>

lemma locksI:
  "(\<And>m. tally (promotes m) (tasks (ctl s)) + held (holdsPromote (phases s m))
        = held (promoting (deploymentState (ctl s) m))
      \<and> tally (demoteTask m) (tasks (ctl s))
        = held (demoting (deploymentState (ctl s) m))) \<Longrightarrow> locks_ok s"
  by (simp add: locks_ok_def promoteHolders_def demoteHolders_def)

lemma locksD:
  "locks_ok s \<Longrightarrow>
      tally (promotes m) (tasks (ctl s)) + held (holdsPromote (phases s m))
        = held (promoting (deploymentState (ctl s) m))"
  "locks_ok s \<Longrightarrow> tally (demoteTask m) (tasks (ctl s))
        = held (demoting (deploymentState (ctl s) m))"
  by (simp_all add: locks_ok_def promoteHolders_def demoteHolders_def)

text \<open>A step that moves no lock only has to leave the tasks and the flags alone.\<close>

lemma locks_at:
  assumes "locks_ok s" "tasks c = tasks (ctl s)" "holdsPromote p = holdsPromote (phases s n)"
    and "\<And>m. promoting (deploymentState c m) = promoting (deploymentState (ctl s) m)
          \<and> demoting (deploymentState c m) = demoting (deploymentState (ctl s) m)"
  shows "locks_ok (at s n p c)"
proof (rule locksI)
  fix m
  show "tally (promotes m) (tasks (ctl (at s n p c)))
      + held (holdsPromote (phases (at s n p c) m)) =
      held (promoting (deploymentState (ctl (at s n p c)) m))
    \<and> tally (demoteTask m) (tasks (ctl (at s n p c))) =
      held (demoting (deploymentState (ctl (at s n p c)) m))"
    using locksD [OF assms(1), of m] assms(2-4) by (cases "m = n") simp_all
qed

lemma locks_keeps:
  "locks_ok s \<Longrightarrow> keeps (ctl s) c \<Longrightarrow> holdsPromote p = holdsPromote (phases s n) \<Longrightarrow>
     locks_ok (at s n p c)"
  by (rule locks_at) (auto dest: keepsD)

lemma locks_setLeader:
  "locks_ok s \<Longrightarrow> setLeader (ctl s) n pod url = Some c \<Longrightarrow>
     holdsPromote p = holdsPromote (phases s n) \<Longrightarrow> locks_ok (at s n p c)"
  by (rule locks_at) (auto simp: setLeader_keeps)

lemma locks_tick [simp]: "locks_ok (tick s t) = locks_ok s"
  by (simp add: locks_ok_def promoteHolders_def demoteHolders_def)

lemma locks_acquire:
  assumes "locks_ok s" "tryAcquirePromote (deploymentState (ctl s) n) ps = Some st"
    and "holdsPromote p" "\<not> holdsPromote (phases s n)"
  shows "locks_ok (at s n p (putState (ctl s) n st))"
proof (rule locksI)
  fix m
  show "tally (promotes m) (tasks (ctl (at s n p (putState (ctl s) n st))))
      + held (holdsPromote (phases (at s n p (putState (ctl s) n st)) m)) =
      held (promoting (deploymentState (ctl (at s n p (putState (ctl s) n st))) m))
    \<and> tally (demoteTask m) (tasks (ctl (at s n p (putState (ctl s) n st)))) =
      held (demoting (deploymentState (ctl (at s n p (putState (ctl s) n st))) m))"
    using locksD [OF assms(1), of m] assms(3,4) acquire_Some [OF assms(2)]
    by (cases "m = n") simp_all
qed

lemma locks_spawn:
  assumes "locks_ok s" "phases s n = PromoteReady ps target"
  shows "locks_ok (at s n Idle (spawn (ctl s) n (PromoteTask target)))"
proof (rule locksI)
  fix m
  let ?s = "at s n Idle (spawn (ctl s) n (PromoteTask target))"
  show "tally (promotes m) (tasks (ctl ?s)) + held (holdsPromote (phases ?s m)) =
      held (promoting (deploymentState (ctl ?s) m))
    \<and> tally (demoteTask m) (tasks (ctl ?s)) =
      held (demoting (deploymentState (ctl ?s) m))"
    using locksD [OF assms(1), of m] assms(2)
    by (cases "m = n") (simp_all add: promotes_def demoteTask_def)
qed

lemma locks_demoteAll:
  assumes "locks_ok s" "phases s n = LeaderSet ps dec"
  shows "locks_ok (at s n (DemotesDone ps dec) (demoteAll (ctl s) n ts))"
proof (rule locksI)
  fix m
  let ?s = "at s n (DemotesDone ps dec) (demoteAll (ctl s) n ts)"
  show "tally (promotes m) (tasks (ctl ?s)) + held (holdsPromote (phases ?s m)) =
      held (promoting (deploymentState (ctl ?s) m))
    \<and> tally (demoteTask m) (tasks (ctl ?s)) =
      held (demoting (deploymentState (ctl ?s) m))"
    using locksD [OF assms(1), of m] assms(2) demoteAll_cases [of "ctl s" n ts]
    by (elim disjE conjE; cases "m = n") (simp_all add: promotes_def demoteTask_def)
qed

text \<open>Replacing a task of \<open>n\<close> by others, with the state of \<open>n\<close>.\<close>

lemma locks_task:
  assumes "locks_ok s" "tasks (ctl s) = xs @ (n, t) # ys"
    and "tally (promotes n) ts + held (promoting (deploymentState (ctl s) n))
      = tally (promotes n) [(n, t)] + held (promoting st)"
    and "tally (demoteTask n) ts + held (demoting (deploymentState (ctl s) n))
      = tally (demoteTask n) [(n, t)] + held (demoting st)"
    and "\<forall>nt \<in> set ts. fst nt = n"
  shows "locks_ok (s\<lparr>ctl := (putState (ctl s) n st)\<lparr>tasks := xs @ ts @ ys\<rparr>\<rparr>)"
proof (rule locksI)
  fix m
  let ?s = "s\<lparr>ctl := (putState (ctl s) n st)\<lparr>tasks := xs @ ts @ ys\<rparr>\<rparr>"
  have "tally (promotes m) ts = 0" "tally (demoteTask m) ts = 0"
    "\<not> promotes m (n, t)" "\<not> demoteTask m (n, t)" if "m \<noteq> n"
    using that assms(5) by (auto intro!: tally_none simp: promotes_def demoteTask_def)
  then show "tally (promotes m) (tasks (ctl ?s)) + held (holdsPromote (phases ?s m)) =
      held (promoting (deploymentState (ctl ?s) m))
    \<and> tally (demoteTask m) (tasks (ctl ?s)) =
      held (demoting (deploymentState (ctl ?s) m))"
    using locksD [OF assms(1), of m] assms(2-4) by (cases "m = n") simp_all
qed

lemma locks_client [simp]: "locks_ok (s\<lparr>ctl := (ctl s)\<lparr>reg := r\<rparr>\<rparr>) = locks_ok s"
  by (simp add: locks_ok_def promoteHolders_def demoteHolders_def)

lemma locks_retask:
  assumes "locks_ok s" "tasks (ctl s) = xs @ (n, t) # ys"
    and "\<And>m. promotes m (n, t') = promotes m (n, t) \<and> demoteTask m (n, t') = demoteTask m (n, t)"
  shows "locks_ok (s\<lparr>ctl := (ctl s)\<lparr>tasks := xs @ (n, t') # ys\<rparr>\<rparr>)"
proof (rule locksI)
  fix m
  let ?s = "s\<lparr>ctl := (ctl s)\<lparr>tasks := xs @ (n, t') # ys\<rparr>\<rparr>"
  show "tally (promotes m) (tasks (ctl ?s)) + held (holdsPromote (phases ?s m)) =
      held (promoting (deploymentState (ctl ?s) m))
    \<and> tally (demoteTask m) (tasks (ctl ?s)) =
      held (demoting (deploymentState (ctl ?s) m))"
    using locksD [OF assms(1), of m] assms(2,3) by simp
qed

lemma locks_step:
  assumes "estep s e s'" "locks_ok s"
  shows "locks_ok s'"
  using assms(1)
proof cases
  case (leaderless_done n ps dec streak es retain c)
  then show ?thesis
    using leaderless_quiet [OF leaderless_done(6,5)] locks_setLeader [OF assms(2)]
      locks_keeps [OF assms(2) keeps_refl] by auto
next
  case (empty_discovery n ps dec streak es retain c)
  then show ?thesis
    using empty_quiet [OF empty_discovery(4)] locks_setLeader [OF assms(2)]
      locks_keeps [OF assms(2) keeps_refl] by auto
next
  case (remember n ps e obs now st obs')
  then show ?thesis
    using remember_keeps [OF remember(4)] locks_at [OF assms(2), of "putState (ctl s) n st"] by simp
next
  case (demote_extra n ps dec)
  then show ?thesis
    using locks_demoteAll [OF assms(2)] by simp
next
  case (start_promotion n ps target)
  then show ?thesis using locks_spawn [OF assms(2)] by simp
next
  case (promotion_answered xs n target ys t answer)
  then show ?thesis
    using locks_task [OF assms(2) promotion_answered(3), where ts = "[(n, PromoteRelease)]"]
    by (simp add: lock_simps)
next
  case (promotion_released xs n ys)
  have "promoting (deploymentState (ctl s) n)"
    using locksD(1) [OF assms(2), of n] promotion_released(3) by (simp add: promotes_def split: if_splits)
  then show ?thesis
    using promotion_released locks_task [OF assms(2) promotion_released(3), where ts = "[]"]
    by (simp add: lock_simps)
next
  case (demotions_answered xs n targets ys)
  then show ?thesis using locks_retask [OF assms(2) demotions_answered(3)] by (simp add: lock_simps)
next
  case (demotions_released xs n ys)
  have "demoting (deploymentState (ctl s) n)"
    using locksD(2) [OF assms(2), of n] demotions_released(3) by (simp add: demoteTask_def split: if_splits)
  then show ?thesis
    using demotions_released locks_task [OF assms(2) demotions_released(3), where ts = "[]"]
    by (simp add: lock_simps)
qed (use assms(2) in \<open>auto simp: locks_client intro: locks_setLeader locks_acquire
      locks_keeps locks_keeps [OF _ keeps_discover] locks_keeps [OF _ keeps_decide]\<close>)

section \<open>The registry agrees with the controller\<close>

definition registry_ok :: "sys \<Rightarrow> bool" where
  "registry_ok s = (reg_inv (reg (ctl s))
     \<and> (\<forall>n. phases s n \<noteq> Idle \<longrightarrow> isKnown (reg (ctl s)) n)
     \<and> (\<forall>n. LeaderPod (fst (Leader (reg (ctl s)) n)) = incumbentPod (deploymentState (ctl s) n)))"

lemma discover_known:
  "reconcileDiscover c n d = (c', Some pods) \<Longrightarrow> isKnown (reg c) n"
  by (auto simp: reconcileDiscover_def Let_def isKnown_def Namespace_def split: option.splits sum.splits)

lemma setLeader_registry:
  assumes "setLeader c n pod url = Some c'" "reg_inv (reg c)"
  shows "reg_inv (reg c') \<and> isKnown (reg c') m = isKnown (reg c) m
    \<and> (isKnown (reg c) n \<longrightarrow> LeaderPod (fst (Leader (reg c') n)) = pod)
    \<and> (m \<noteq> n \<longrightarrow> Leader (reg c') m = Leader (reg c) m)"
proof -
  have "frame c n c'" by (rule frame_setLeader [OF assms(1)])
  moreover have "Update (reg c) n pod url = Some (reg c')" using setLeader_effect [OF assms(1)] by blast
  ultimately show ?thesis using assms(2) store.upd_leader by (auto simp: frame_def)
qed

lemma registry_clients:
  "Subscribe r n = Some (r', k) \<Longrightarrow> Leader r' m = Leader r m \<and> isKnown r' m = isKnown r m"
  "cancelSub r n k = Some r' \<Longrightarrow> Leader r' m = Leader r m \<and> isKnown r' m = isKnown r m"
  "recv r k = Some (e, r') \<Longrightarrow> Leader r' m = Leader r m \<and> isKnown r' m = isKnown r m"
  by (auto simp: Subscribe_def cancelSub_def recv_def Let_def Leader_def isKnown_def
      split: if_splits option.splits list.splits)

lemma setLeader_step:
  assumes "registry_ok s" "setLeader (ctl s) n pod url = Some c" "isKnown (reg (ctl s)) n"
  shows "registry_ok (at s n p c)"
proof -
  have old: "reg_inv (reg (ctl s))" "\<And>m. phases s m \<noteq> Idle \<Longrightarrow> isKnown (reg (ctl s)) m"
    "\<And>m. LeaderPod (fst (Leader (reg (ctl s)) m)) = incumbentPod (deploymentState (ctl s) m)"
    using assms(1) by (simp_all add: registry_ok_def)
  note R = setLeader_registry [OF assms(2) old(1)]
  have "LeaderPod (fst (Leader (reg c) m)) = incumbentPod (deploymentState c m)" for m
    using R [of m] setLeader_keeps [OF assms(2), of m] old(3) [of m] assms(3) by (cases "m = n") auto
  moreover have "isKnown (reg c) m = isKnown (reg (ctl s)) m" for m using R [of m] by blast
  ultimately show ?thesis using R old assms(3) by (simp add: registry_ok_def)
qed

lemma keeps_step:
  assumes "registry_ok s" "keeps (ctl s) c" "p = Idle \<or> isKnown (reg (ctl s)) n"
  shows "registry_ok (at s n p c)"
  using assms by (auto simp: registry_ok_def keepsD)

lemma registry_step_ok:
  assumes "estep s e s'" "registry_ok s"
  shows "registry_ok s'"
proof -
  have kn: "phases s n = p \<Longrightarrow> p \<noteq> Idle \<Longrightarrow> isKnown (reg (ctl s)) n" for n p
    using assms(2) by (auto simp: registry_ok_def)
  have client: "registry_ok (s\<lparr>ctl := (ctl s)\<lparr>reg := r\<rparr>\<rparr>)"
    if "reg_inv r" "\<And>m. Leader r m = Leader (reg (ctl s)) m \<and> isKnown r m = isKnown (reg (ctl s)) m" for r
    using assms(2) that by (simp add: registry_ok_def)
  have inv: "reg_inv (reg (ctl s))" using assms(2) by (simp add: registry_ok_def)
  show ?thesis
    using assms(1)
  proof cases
    case (empty_discovery n ps dec streak es retain c)
    then show ?thesis
      using empty_quiet [OF empty_discovery(4)] kn setLeader_step [OF assms(2)]
        keeps_step [OF assms(2) keeps_refl] by blast
  next
    case (leaderless_done n ps dec streak es retain c)
    then show ?thesis
      using leaderless_quiet [OF leaderless_done(6,5)] kn setLeader_step [OF assms(2)]
        keeps_step [OF assms(2) keeps_refl] by blast
  next
    case (demote_extra n ps dec)
    then show ?thesis
      using demoteAll_cases [of "ctl s" n "demotes dec"] assms(2) by (auto simp: registry_ok_def)
  next
    case (clear_leader n ps target c)
    then show ?thesis using kn [OF clear_leader(3)] setLeader_step [OF assms(2)] by auto
  next
    case (set_leader n ps dec streak es retain c)
    then show ?thesis using kn [OF set_leader(3)] setLeader_step [OF assms(2)] by auto
  next
    case (discovered n d c pods)
    then show ?thesis
      using keeps_step [OF assms(2) keeps_discover] discover_known by blast
  next
    case (subscribe n r k)
    then show ?thesis
      using client registry_clients(1) registry_step_inv [OF registry_step.subscribe inv] by blast
  next
    case (cancel n k r)
    then show ?thesis
      using client registry_clients(2) registry_step_inv [OF registry_step.cancel inv] by blast
  next
    case (receive k ev r)
    then show ?thesis
      using client registry_clients(3) registry_step_inv [OF registry_step.receive inv] by blast
  next
    case (discovery_failed n d c)
    then show ?thesis using keeps_step [OF assms(2) keeps_discover] by blast
  next
    case (commit n ps e obs now c dec streak es retain)
    then show ?thesis using keeps_step [OF assms(2) keeps_decide] kn [OF commit(3)] by blast
  next
    case (record_attempt n ps target)
    then show ?thesis using keeps_step [OF assms(2) keeps_attempt(1)] kn [OF record_attempt(3)] by blast
  next
    case (failback_clock n ps target)
    then show ?thesis using keeps_step [OF assms(2) keeps_attempt(2)] kn [OF failback_clock(3)] by blast
  qed (use assms(2) kn in \<open>auto simp: registry_ok_def releasePromote_def releaseDemote_def
      dest!: remember_keeps acquire_Some\<close>)
qed

section \<open>Recorded transitions outlive the polls they overtake\<close>

fun roundStart :: "phase \<Rightarrow> instant option" where
  "roundStart Idle = None"
| "roundStart (Discovered _) = None"
| "roundStart (Polling ps _) = Some ps"
| "roundStart (Polled ps _ _ _) = Some ps"
| "roundStart (Remembered ps _ _ _) = Some ps"
| "roundStart (Committed ps _ _ _ _ _) = Some ps"
| "roundStart (LeaderSet ps _) = Some ps"
| "roundStart (DemotesDone ps _) = Some ps"
| "roundStart (FailbackAcquired ps _) = Some ps"
| "roundStart (PromoteAcquired ps _) = Some ps"
| "roundStart (LeaderCleared ps _) = Some ps"
| "roundStart (PromoteReady ps _) = Some ps"

text \<open>A transition recorded after \<open>ps\<close> is still remembered.\<close>

definition newer :: "(string, instant) gomap \<Rightarrow> instant \<Rightarrow> bool" where
  "newer seen ps = (\<exists>p t. map_of seen p = Some t \<and> ps < t)"

text \<open>
  The instants recorded for \<open>n\<close> in the history \<open>tr\<close> lie in the past; those later than the
  poll of the current round are still remembered, and then no promotion lock is held by it.
\<close>

definition memory_ok :: "event list \<Rightarrow> sys \<Rightarrow> bool" where
  "memory_ok tr s = (0 \<le> UnreachableLeaderGrace (cfg (ctl s)) \<and>
     (\<forall>n. gwf (transitioningSeen (deploymentState (ctl s) n))
       \<and> (\<forall>p t. Recorded n p t \<in> set tr \<longrightarrow> t \<le> clock s)
       \<and> (\<forall>ps. roundStart (phases s n) = Some ps \<longrightarrow> ps \<le> clock s \<and>
            (\<forall>p t. Recorded n p t \<in> set tr \<longrightarrow> ps < t \<longrightarrow>
               \<not> holdsPromote (phases s n) \<and> newer (transitioningSeen (deploymentState (ctl s) n)) ps))))"

lemma memoryI:
  assumes "0 \<le> UnreachableLeaderGrace (cfg (ctl s))"
    and "\<And>n. gwf (transitioningSeen (deploymentState (ctl s) n))"
    and "\<And>n p t. Recorded n p t \<in> set tr \<Longrightarrow> t \<le> clock s"
    and "\<And>n ps. roundStart (phases s n) = Some ps \<Longrightarrow> ps \<le> clock s"
    and "\<And>n ps p t. roundStart (phases s n) = Some ps \<Longrightarrow> Recorded n p t \<in> set tr \<Longrightarrow> ps < t \<Longrightarrow>
      \<not> holdsPromote (phases s n) \<and> newer (transitioningSeen (deploymentState (ctl s) n)) ps"
  shows "memory_ok tr s"
  using assms unfolding memory_ok_def by blast

lemma memoryD:
  assumes "memory_ok tr s"
  shows "0 \<le> UnreachableLeaderGrace (cfg (ctl s))"
    and "gwf (transitioningSeen (deploymentState (ctl s) n))"
    and "Recorded n p t \<in> set tr \<Longrightarrow> t \<le> clock s"
    and "roundStart (phases s n) = Some ps \<Longrightarrow> ps \<le> clock s"
    and "roundStart (phases s n) = Some ps \<Longrightarrow> Recorded n p t \<in> set tr \<Longrightarrow> ps < t \<Longrightarrow>
      \<not> holdsPromote (phases s n) \<and> newer (transitioningSeen (deploymentState (ctl s) n)) ps"
  using assms unfolding memory_ok_def by blast+

definition recorded :: "event \<Rightarrow> bool" where
  "recorded e = (case e of Recorded _ _ _ \<Rightarrow> True | _ \<Rightarrow> False)"

lemma recorded_append: "\<not> recorded e \<Longrightarrow> Recorded n p t \<in> set (tr @ [e]) \<longleftrightarrow> Recorded n p t \<in> set tr"
  by (auto simp: recorded_def)

text \<open>A step that records nothing and keeps the memory: the round goes on, or it ends.\<close>

lemma memory_at:
  assumes m: "memory_ok tr s" and e: "\<not> recorded e" and "clock s \<le> t" and "cfg c = cfg (ctl s)"
    and seen: "\<And>m. transitioningSeen (deploymentState c m) = transitioningSeen (deploymentState (ctl s) m)"
    and p: "roundStart p = None \<or> roundStart p = roundStart (phases s n)
        \<and> (holdsPromote p \<longrightarrow> holdsPromote (phases s n))"
  shows "memory_ok (tr @ [e]) (tick (at s n p c) t)"
proof (rule memoryI)
  fix m ps q u
  assume r: "roundStart (phases (tick (at s n p c) t) m) = Some ps"
    "Recorded m q u \<in> set (tr @ [e])" "ps < u"
  have "roundStart (phases s m) = Some ps" using r(1) p by (auto split: if_splits)
  moreover have "Recorded m q u \<in> set tr" using r(2) recorded_append [OF e] by blast
  ultimately have "\<not> holdsPromote (phases s m) \<and> newer (transitioningSeen (deploymentState (ctl s) m)) ps"
    using memoryD(5) [OF m] r(3) by blast
  then show "\<not> holdsPromote (phases (tick (at s n p c) t) m)
      \<and> newer (transitioningSeen (deploymentState (ctl (tick (at s n p c) t)) m)) ps"
    using r(1) p seen by (auto split: if_splits)
next
  fix m ps assume "roundStart (phases (tick (at s n p c) t) m) = Some ps"
  then have "roundStart (phases s m) = Some ps" using p by (auto split: if_splits)
  then show "ps \<le> clock (tick (at s n p c) t)" using memoryD(4) [OF m] assms(3) by fastforce
next
  fix m q u assume "Recorded m q u \<in> set (tr @ [e])"
  then have "Recorded m q u \<in> set tr" using recorded_append [OF e] by blast
  then show "u \<le> clock (tick (at s n p c) t)" using memoryD(3) [OF m] assms(3) by fastforce
qed (use assms(4) seen memoryD(1,2) [OF m] in simp_all)

lemma tick_at [simp]: "tick (at s n p c) (clock s) = at s n p c"
  by (simp add: tick_def at_def)

lemmas memory_here = memory_at [where t = "clock s" and s = s for s, OF _ _ order_refl, unfolded tick_at]

lemma memory_keeps:
  "memory_ok tr s \<Longrightarrow> keeps (ctl s) c \<Longrightarrow> roundStart p = None \<or> roundStart p = roundStart (phases s n)
        \<and> (holdsPromote p \<longrightarrow> holdsPromote (phases s n)) \<Longrightarrow> memory_ok (tr @ [Silent]) (at s n p c)"
  by (rule memory_here) (auto simp: recorded_def dest: keepsD)

lemma memory_setLeader:
  "memory_ok tr s \<Longrightarrow> setLeader (ctl s) n pod url = Some c \<Longrightarrow>
     roundStart p = None \<or> roundStart p = roundStart (phases s n)
        \<and> (holdsPromote p \<longrightarrow> holdsPromote (phases s n)) \<Longrightarrow> memory_ok (tr @ [Silent]) (at s n p c)"
  by (rule memory_here) (auto simp: recorded_def setLeader_keeps)

lemma newer_rememberOne: "newer seen ps \<Longrightarrow> newer (snd (rememberOne ps ob seen)) ps"
  unfolding newer_def
  by (elim exE, rename_tac p t, rule_tac x = p in exI, rule_tac x = t in exI)
    (auto simp: rememberOne_def Let_def split: option.splits)

lemma newer_rememberLoop: "newer seen ps \<Longrightarrow> newer (snd (rememberLoop ps obs seen)) ps"
  by (induction obs arbitrary: seen) (simp_all add: newer_rememberOne)

lemma newer_remember:
  assumes "rememberTransitions cf st obs ps = (st', obs')" "newer (transitioningSeen st) ps"
    and "gwf (transitioningSeen st)" "0 \<le> UnreachableLeaderGrace cf"
  shows "newer (transitioningSeen st') ps"
proof -
  obtain p t where t: "map_of (transitioningSeen st) p = Some t" "ps < t"
    using assms(2) by (auto simp: newer_def)
  have "time_sub ps t < 0" using t(2) by (auto simp: time_sub_def max_int64_def min_int64_def)
  then have "map_of (filter (\<lambda>(pod, t). \<not> time_sub ps t \<ge> UnreachableLeaderGrace cf) (transitioningSeen st)) p
      = Some t"
    using unexpired_filter [OF assms(3)] t(1) assms(4) by (simp add: unexpired_def)
  then have "newer (filter (\<lambda>(pod, t). \<not> time_sub ps t \<ge> UnreachableLeaderGrace cf)
      (transitioningSeen st)) ps"
    using t(2) unfolding newer_def by blast
  then show ?thesis using rememberTransitions_split [OF assms(1)] newer_rememberLoop by simp
qed

lemma gwf_remember:
  "rememberTransitions cf st obs ps = (st', obs') \<Longrightarrow> gwf (transitioningSeen st) \<Longrightarrow>
     gwf (transitioningSeen st')"
  by (simp add: rememberTransitions_split gwf_rememberLoop)

lemma memory_acquire:
  assumes m: "memory_ok tr s"
    and st: "tryAcquirePromote (deploymentState (ctl s) n) ps = Some st"
    and p: "roundStart p = Some ps" "roundStart (phases s n) = Some ps"
  shows "memory_ok (tr @ [Silent]) (at s n p (putState (ctl s) n st))"
proof (rule memoryI)
  note A = acquire_Some [OF st]
  have old: "\<not> newer (transitioningSeen (deploymentState (ctl s) n)) ps"
    using A unfolding newer_def by (auto dest!: map_of_SomeD)
  fix m qs q u
  assume r: "roundStart (phases (at s n p (putState (ctl s) n st)) m) = Some qs"
    "Recorded m q u \<in> set (tr @ [Silent])" "qs < u"
  then have "Recorded m q u \<in> set tr" "roundStart (phases s m) = Some qs"
    using p by (auto split: if_splits)
  then have "\<not> holdsPromote (phases s m) \<and> newer (transitioningSeen (deploymentState (ctl s) m)) qs"
    using memoryD(5) [OF m] r(3) by blast
  then show "\<not> holdsPromote (phases (at s n p (putState (ctl s) n st)) m)
      \<and> newer (transitioningSeen (deploymentState (ctl (at s n p (putState (ctl s) n st))) m)) qs"
    using old \<open>roundStart (phases s m) = Some qs\<close> p(2) by (cases "m = n") auto
next
  fix m qs assume "roundStart (phases (at s n p (putState (ctl s) n st)) m) = Some qs"
  then have "roundStart (phases s m) = Some qs" using p by (auto split: if_splits)
  then show "qs \<le> clock (at s n p (putState (ctl s) n st))" using memoryD(4) [OF m] by simp
qed (use memoryD(1-3) [OF m] acquire_Some [OF st] in auto)

lemma memory_poll:
  assumes m: "memory_ok tr s" and "clock s \<le> t"
  shows "memory_ok (tr @ [PollBegan n t]) (tick (at s n (Polling t pods) (ctl s)) t)"
proof (rule memoryI)
  let ?s = "tick (at s n (Polling t pods) (ctl s)) t"
  have rec: "Recorded k q u \<in> set (tr @ [PollBegan n t]) \<longleftrightarrow> Recorded k q u \<in> set tr" for k q u
    by auto
  show "u \<le> clock ?s" if "Recorded k q u \<in> set (tr @ [PollBegan n t])" for k q u
    using memoryD(3) [OF m] that assms(2) unfolding rec by fastforce
  show "qs \<le> clock ?s" if "roundStart (phases ?s k) = Some qs" for k qs
    using memoryD(4) [OF m, of k qs] that assms(2) by (cases "k = n") auto
  show "\<not> holdsPromote (phases ?s k) \<and> newer (transitioningSeen (deploymentState (ctl ?s) k)) qs"
    if "roundStart (phases ?s k) = Some qs" "Recorded k q u \<in> set (tr @ [PollBegan n t])" "qs < u" for k qs q u
  proof (cases "k = n")
    case True
    then have "t < u" "Recorded k q u \<in> set tr" using that by auto
    then show ?thesis using memoryD(3) [OF m] assms(2) by fastforce
  next
    case False
    then show ?thesis using that memoryD(5) [OF m, of k qs q u] by auto
  qed
qed (use memoryD(1,2) [OF m] in simp_all)

lemma memory_remember:
  assumes m: "memory_ok tr s" and p: "phases s n = Polled ps e obs now"
    and st: "rememberTransitions (cfg (ctl s)) (deploymentState (ctl s) n) obs ps = (st, obs')"
  shows "memory_ok (tr @ [Silent]) (at s n (Remembered ps e obs' now) (putState (ctl s) n st))"
proof (rule memoryI)
  let ?s = "at s n (Remembered ps e obs' now) (putState (ctl s) n st)"
  have rs: "roundStart (phases ?s k) = roundStart (phases s k)" for k using p by simp
  show "gwf (transitioningSeen (deploymentState (ctl ?s) k))" for k
    using gwf_remember [OF st] memoryD(2) [OF m] by simp
  show "qs \<le> clock ?s" if "roundStart (phases ?s k) = Some qs" for k qs
    using memoryD(4) [OF m, of k qs] that rs by simp
  show "\<not> holdsPromote (phases ?s k) \<and> newer (transitioningSeen (deploymentState (ctl ?s) k)) qs"
    if "roundStart (phases ?s k) = Some qs" "Recorded k q u \<in> set (tr @ [Silent])" "qs < u" for k qs q u
  proof -
    have old: "newer (transitioningSeen (deploymentState (ctl s) k)) qs \<and> \<not> holdsPromote (phases s k)"
      using memoryD(5) [OF m, of k qs q u] that rs by auto
    show ?thesis
    proof (cases "k = n")
      case True
      then have "qs = ps" using that(1) by simp
      then show ?thesis
        using True old newer_remember [OF st] memoryD(1,2) [OF m] by simp
    next
      case False
      then show ?thesis using old by simp
    qed
  qed
qed (use memoryD(1,3) [OF m] in auto)

lemma memory_answer:
  assumes m: "memory_ok tr s" and l: "locks_ok s"
    and ts: "tasks (ctl s) = xs @ (n, PromoteTask target) # ys" and "clock s \<le> t"
  shows "memory_ok (tr @ [if mayHaveReached answer then Recorded n (obPod target) t else Silent])
    (tick (s\<lparr>ctl := (putState (ctl s) n (promoteAndLog (deploymentState (ctl s) n) target answer t))
                 \<lparr>tasks := xs @ (n, PromoteRelease) # ys\<rparr>\<rparr>) t)" (is "memory_ok (tr @ [?e]) ?s")
proof (rule memoryI)
  have free: "\<not> holdsPromote (phases s n)"
    using locksD(1) [OF l, of n] ts
    by (cases "promoting (deploymentState (ctl s) n)"; cases "holdsPromote (phases s n)")
      (simp_all add: promotes_def)
  have rec: "Recorded k q u \<in> set tr \<or> mayHaveReached answer \<and> k = n \<and> q = obPod target \<and> u = t"
    if "Recorded k q u \<in> set (tr @ [?e])" for k q u
    using that by (auto split: if_splits)
  show "u \<le> clock ?s" if "Recorded k q u \<in> set (tr @ [?e])" for k q u
    using rec [OF that] memoryD(3) [OF m] assms(4) by fastforce
  show "qs \<le> clock ?s" if "roundStart (phases ?s k) = Some qs" for k qs
    using memoryD(4) [OF m, of k qs] that assms(4) by simp
  show "\<not> holdsPromote (phases ?s k) \<and> newer (transitioningSeen (deploymentState (ctl ?s) k)) qs"
    if r: "roundStart (phases ?s k) = Some qs" "Recorded k q u \<in> set (tr @ [?e])" "qs < u" for k qs q u
  proof (cases "k = n")
    case False
    then show ?thesis using r rec [OF r(2)] memoryD(5) [OF m, of k qs q u] by simp
  next
    case True
    have "qs < t" using rec [OF r(2)] memoryD(3) [OF m, of k q u] r(3) assms(4) by auto
    moreover have "newer (transitioningSeen (deploymentState (ctl s) n)) qs" if "\<not> mayHaveReached answer"
      using that rec [OF r(2)] r(1,3) memoryD(5) [OF m, of k qs q u] True by auto
    ultimately have "newer (transitioningSeen (promoteAndLog (deploymentState (ctl s) n) target answer t)) qs"
      by (auto simp: promoteAndLog_memory newer_def)
    then show ?thesis using True free by simp
  qed
qed (use memoryD(1,2) [OF m] in \<open>simp_all add: promoteAndLog_memory\<close>)

text \<open>A step of a goroutine or of a client of the registry keeps the memory of every round.\<close>

lemma memory_aside:
  assumes m: "memory_ok tr s" and "\<not> recorded e" and "cfg c = cfg (ctl s)"
    and "\<And>k. transitioningSeen (deploymentState c k) = transitioningSeen (deploymentState (ctl s) k)"
  shows "memory_ok (tr @ [e]) (s\<lparr>ctl := c\<rparr>)"
proof (rule memoryI)
  have rec: "Recorded k q u \<in> set (tr @ [e]) \<longleftrightarrow> Recorded k q u \<in> set tr" for k q u
    by (rule recorded_append [OF assms(2)])
  show "u \<le> clock (s\<lparr>ctl := c\<rparr>)" if "Recorded k q u \<in> set (tr @ [e])" for k q u
    using memoryD(3) [OF m] that rec by simp
  show "\<not> holdsPromote (phases (s\<lparr>ctl := c\<rparr>) k)
      \<and> newer (transitioningSeen (deploymentState (ctl (s\<lparr>ctl := c\<rparr>)) k)) qs"
    if "roundStart (phases (s\<lparr>ctl := c\<rparr>) k) = Some qs" "Recorded k q u \<in> set (tr @ [e])" "qs < u" for k qs q u
    using memoryD(5) [OF m, of k qs q u] that rec assms(4) by simp
qed (use memoryD(1,2,4) [OF m] assms(3,4) in simp_all)

lemma memory_step:
  assumes "estep s e s'" "locks_ok s" "memory_ok tr s"
  shows "memory_ok (tr @ [e]) s'"
  using assms(1)
proof cases
  case (poll_begin n pods t)
  then show ?thesis using memory_poll [OF assms(3)] by simp
next
  case (poll_end n ps pods t polls)
  then show ?thesis
    by (auto simp: recorded_def intro!: memory_at [OF assms(3)])
next
  case (remember n ps e obs now st obs')
  then show ?thesis using memory_remember [OF assms(3)] by simp
next
  case (leaderless_done n ps dec streak es retain c)
  then show ?thesis
    using leaderless_quiet [OF leaderless_done(6,5)] memory_setLeader [OF assms(3)]
      memory_keeps [OF assms(3) keeps_refl] by auto
next
  case (empty_discovery n ps dec streak es retain c)
  then show ?thesis
    using empty_quiet [OF empty_discovery(4)] memory_setLeader [OF assms(3)]
      memory_keeps [OF assms(3) keeps_refl] by auto
next
  case (demote_extra n ps dec)
  have "transitioningSeen (deploymentState (demoteAll (ctl s) n ts) m)
      = transitioningSeen (deploymentState (ctl s) m)" for ts m
    using demoteAll_cases [of "ctl s" n ts] by (elim disjE conjE) simp_all
  moreover have "cfg (demoteAll (ctl s) n ts) = cfg (ctl s)" for ts
    using frame_demoteAll [of "ctl s" n ts] by (simp add: frame_def)
  ultimately show ?thesis
    using demote_extra by (auto simp: recorded_def intro!: memory_here [OF assms(3)])
next
  case (start_promotion n ps target)
  then show ?thesis by (auto simp: recorded_def intro!: memory_here [OF assms(3)])
next
  case (promotion_answered xs n target ys t answer)
  then show ?thesis using memory_answer [OF assms(3,2)] by simp
next
  case (leaderless_acquire n ps dec streak es retain target st)
  then show ?thesis using memory_acquire [OF assms(3) leaderless_acquire(8)] by simp
next
  case (failback_acquire n ps dec target st)
  then show ?thesis using memory_acquire [OF assms(3) failback_acquire(5)] by simp
qed (use assms(3) in \<open>auto simp: recorded_def releasePromote_def releaseDemote_def
      intro: memory_setLeader memory_keeps memory_keeps [OF _ keeps_discover]
        memory_keeps [OF _ keeps_decide] intro!: memory_aside\<close>)

section \<open>Runs\<close>

lemma registerAll_facts:
  "reg_inv r \<Longrightarrow> \<forall>n. LeaderPod (fst (Leader r n)) = '''' \<Longrightarrow>
     reg_inv (registerAll r ds) \<and> (\<forall>n. LeaderPod (fst (Leader (registerAll r ds) n)) = '''')"
proof (induction ds arbitrary: r)
  case (Cons d ds)
  obtain n ns where d: "d = (n, ns)" by (cases d)
  have "\<forall>m. LeaderPod (fst (Leader (EnsureDeployment r n ns) m)) = ''''"
    using Cons.prems(2) by (auto simp: EnsureDeployment_def Leader_def split: option.splits)
  then show ?case using Cons.IH [OF reg_inv_Ensure [OF Cons.prems(1)]] d by simp
qed simp

lemma start_ok:
  assumes "0 \<le> UnreachableLeaderGrace cf"
  shows "locks_ok (startSystem cf bs ds t) \<and> registry_ok (startSystem cf bs ds t)
    \<and> memory_ok [] (startSystem cf bs ds t)"
proof -
  have "\<forall>n. LeaderPod (fst (Leader (NewRegistry bs) n)) = ''''"
    by (simp add: NewRegistry_def Leader_def)
  note R = registerAll_facts [OF reg_inv_New this, of ds]
  show ?thesis
    using R assms
    by (simp add: startSystem_def NewController_def locks_ok_def promoteHolders_def demoteHolders_def
        registry_ok_def memory_ok_def deploymentState_def newDeploymentState_def)
qed

lemma run_ok:
  assumes "run (startSystem cf bs ds t) tr s" "0 \<le> UnreachableLeaderGrace cf"
  shows "locks_ok s \<and> registry_ok s \<and> memory_ok tr s"
  using assms(1)
proof induction
  case start
  then show ?case using start_ok [OF assms(2)] by blast
next
  case (step tr s e s')
  then show ?case using locks_step registry_step_ok memory_step by blast
qed

lemma run_split:
  assumes "run s0 (tr @ tr') s"
  shows "\<exists>s1. run s0 tr s1 \<and> run s1 tr' s"
  using assms
proof (induction tr' arbitrary: s rule: rev_induct)
  case Nil
  then show ?case using run.start by auto
next
  case (snoc e tr')
  have "run s0 ((tr @ tr') @ [e]) s" using snoc.prems by simp
  then obtain s2 where "run s0 (tr @ tr') s2" "estep s2 e s"
    by (cases rule: run.cases) auto
  then show ?case using snoc.IH run.step by blast
qed

lemma run_one: "run s0 [e] s \<Longrightarrow> estep s0 e s"
  by (cases rule: run.cases) (auto elim: run.cases)

lemma run_append: "run s1 tr' s \<Longrightarrow> run s0 tr s1 \<Longrightarrow> run s0 (tr @ tr') s"
  by (induction rule: run.induct) (auto simp: append_assoc [symmetric] simp del: append_assoc intro: run.step)

inductive_cases estep_startedE: "estep s (Started n p ps) s'"

lemma setLeader_same_tasks: "setLeader c n pod url = Some c' \<Longrightarrow> tasks c' = tasks c"
  by (simp add: setLeader_effect)

lemma demoteAll_tally [simp]: "tally (promotes m) (tasks (demoteAll c n ts)) = tally (promotes m) (tasks c)"
  using demoteAll_cases [of c n ts] by (elim disjE conjE) (simp_all add: promotes_def)

lemma step_tally:
  assumes "estep s e s'" "e \<noteq> Released n"
  shows "tally (promotes n) (tasks (ctl s)) \<le> tally (promotes n) (tasks (ctl s'))"
  using assms(1)
proof cases
  case (leaderless_done m ps dec streak es retain c)
  then show ?thesis using leaderless_quiet [OF leaderless_done(6,5)] setLeader_same_tasks by auto
next
  case (empty_discovery m ps dec streak es retain c)
  then show ?thesis using empty_quiet [OF empty_discovery(4)] setLeader_same_tasks by auto
next
  case (promotion_answered xs m target ys t answer)
  then show ?thesis by (simp add: promotes_def)
next
  case (promotion_released xs m ys)
  then have "m \<noteq> n" using assms(2) by simp
  then show ?thesis using promotion_released by (simp add: promotes_def)
qed (simp_all add: promotes_def setLeader_same_tasks keepsD(2) [OF keeps_discover]
      keepsD(2) [OF keeps_decide])

lemma run_tally:
  "run s tr s' \<Longrightarrow> Released n \<notin> set tr \<Longrightarrow>
     tally (promotes n) (tasks (ctl s)) \<le> tally (promotes n) (tasks (ctl s'))"
proof (induction rule: run.induct)
  case (step tr s1 e s2)
  then show ?case using step_tally [OF step(2), of n] by fastforce
qed simp

lemma round_step:
  "estep s e s' \<Longrightarrow> roundStart (phases s' n) = Some ps \<Longrightarrow>
     roundStart (phases s n) = Some ps \<or> e = PollBegan n ps"
  by (cases rule: estep.cases, assumption) (auto split: if_splits)

lemma run_round:
  "run s tr s' \<Longrightarrow> roundStart (phases s n) = None \<Longrightarrow> roundStart (phases s' n) = Some ps \<Longrightarrow>
     PollBegan n ps \<in> set tr"
proof (induction rule: run.induct)
  case (step tr s1 e s2)
  then show ?case using round_step [OF step(2), of n ps] by auto
qed simp

lemma started_phase:
  "estep s (Started n p ps) s' \<Longrightarrow>
     \<exists>target. phases s n = PromoteReady ps target \<and> p = obPod target
       \<and> s' = at s n Idle (spawn (ctl s) n (PromoteTask target))"
  by (erule estep_startedE) (auto split: if_splits)

section \<open>An undisturbed round is a run\<close>

lemma at_at [simp]: "at (at s n p c) n p' c' = at s n p' c'"
  by (simp add: at_def)

lemma at_tick: "at (tick s t) n p c = tick (at s n p c) t"
  by (simp add: at_def tick_def)

lemma tick_tick [simp]: "tick (tick s t) u = tick s u"
  by (simp add: tick_def)

lemma at_id: "phases s n = p \<Longrightarrow> at s n p (ctl s) = s"
  by (simp add: at_def fun_upd_idem)

lemma run_Cons: "estep s e s1 \<Longrightarrow> run s1 tr s2 \<Longrightarrow> run s (e # tr) s2"
  using run_append [of s1 tr s2 s "[e]"] run.step [OF run.start] by fastforce

text \<open>The last event of a round: the start of the promotion it spawned, if it spawned one.\<close>

definition roundEnd :: "string \<Rightarrow> instant \<Rightarrow> Controller \<Rightarrow> Controller \<Rightarrow> event list \<Rightarrow> bool" where
  "roundEnd n ps c0 c fin =
     (fin = [] \<and> filter isPromoteTask (tasks c) = filter isPromoteTask (tasks c0)
      \<or> (\<exists>t. fin = [Started n (obPod t) ps]
           \<and> filter isPromoteTask (tasks c) = filter isPromoteTask (tasks c0) @ [(n, PromoteTask t)]))"

lemma ready_as_run:
  assumes "phases s n = PromoteReady ps t"
  shows "run s [Started n (obPod t) ps] (at s n Idle (spawn (ctl s) n (PromoteTask t)))"
  by (rule run_Cons [OF start_promotion [OF assms] run.start])

lemma leaderless_as_run:
  assumes p: "phases s n = Committed ps False dec streak es retain" and d: "liveLeaderCount dec = 0"
    and act: "actLeaderless (ctl s) n dec streak retain ps = Some c"
  shows "\<exists>tr fin. run s (tr @ fin) (at s n Idle c) \<and> set tr \<subseteq> {Silent} \<and> roundEnd n ps (ctl s) c fin"
proof (cases "streak < PromoteDebounce (cfg (ctl s)) \<or> retain \<or> promoteTarget dec = None
       \<or> tryAcquirePromote (deploymentState (ctl s) n) ps = None")
  case True
  have "filter isPromoteTask (tasks c) = filter isPromoteTask (tasks (ctl s))"
    using leaderless_quiet [OF act True] setLeader_same_tasks by auto
  moreover have "run s [Silent] (at s n Idle c)"
    by (rule run_Cons [OF leaderless_done [OF p d True act] run.start])
  ultimately have "run s ([Silent] @ []) (at s n Idle c) \<and> set [Silent] \<subseteq> {Silent}
      \<and> roundEnd n ps (ctl s) c []"
    by (simp add: roundEnd_def)
  then show ?thesis by blast
next
  case False
  then obtain t st where t: "promoteTarget dec = Some t"
    and st: "tryAcquirePromote (deploymentState (ctl s) n) ps = Some st" by auto
  let ?c1 = "putState (ctl s) n st"
  obtain c2 where c2: "setLeader ?c1 n '''' '''' = Some c2"
    and c: "c = spawn (putState c2 n (recordPromoteAttempt (deploymentState c2 n) (obPod t) ps)) n (PromoteTask t)"
    using act False t st by (auto simp: actLeaderless_def split: option.splits)
  let ?c3 = "putState c2 n (recordPromoteAttempt (deploymentState c2 n) (obPod t) ps)"
  have 1: "estep s Silent (at s n (PromoteAcquired ps t) ?c1)"
    using False t by (intro leaderless_acquire [OF p d _ _ _ st]) auto
  have 2: "estep (at s n (PromoteAcquired ps t) ?c1) Silent (at s n (LeaderCleared ps t) c2)"
    using clear_leader [of "at s n (PromoteAcquired ps t) ?c1" n ps t c2] c2 by simp
  have 3: "estep (at s n (LeaderCleared ps t) c2) Silent (at s n (PromoteReady ps t) ?c3)"
    using record_attempt [of "at s n (LeaderCleared ps t) c2" n ps t] by simp
  have 4: "run (at s n (PromoteReady ps t) ?c3) [Started n (obPod t) ps] (at s n Idle c)"
    using ready_as_run [of "at s n (PromoteReady ps t) ?c3" n ps t] c by simp
  have "run s ([Silent, Silent, Silent] @ [Started n (obPod t) ps]) (at s n Idle c)"
    using run_Cons [OF 1 run_Cons [OF 2 run_Cons [OF 3 4]]] by simp
  moreover have "roundEnd n ps (ctl s) c [Started n (obPod t) ps]"
    using c setLeader_same_tasks [OF c2] by (simp add: roundEnd_def isPromoteTask_def)
  ultimately show ?thesis
    by (intro exI [of _ "[Silent, Silent, Silent]"] exI [of _ "[Started n (obPod t) ps]"]) simp
qed

lemma led_as_run:
  assumes p: "phases s n = Committed ps False dec streak es retain" and d: "liveLeaderCount dec \<noteq> 0"
    and act: "act (ctl s) n dec streak retain ps = Some c"
  shows "\<exists>tr fin. run s (tr @ fin) (at s n Idle c) \<and> set tr \<subseteq> {Silent} \<and> roundEnd n ps (ctl s) c fin"
proof -
  obtain c1 where c1: "setLeader (ctl s) n (dec_leaderPod dec) (dec_leaderURL dec) = Some c1"
    and c: "c = (case failbackTarget dec of None \<Rightarrow> demoteAll c1 n (demotes dec)
        | Some t \<Rightarrow> actFailback (demoteAll c1 n (demotes dec)) n t ps)"
    using act d by (auto simp: act_def Let_def split: option.splits)
  let ?c2 = "demoteAll c1 n (demotes dec)"
  have 1: "estep s Silent (at s n (LeaderSet ps dec) c1)" by (rule set_leader [OF p d c1])
  have 2: "estep (at s n (LeaderSet ps dec) c1) Silent (at s n (DemotesDone ps dec) ?c2)"
    using demote_extra [of "at s n (LeaderSet ps dec) c1" n ps dec] by simp
  have ts: "filter isPromoteTask (tasks ?c2) = filter isPromoteTask (tasks (ctl s))"
    using setLeader_same_tasks [OF c1] by simp
  show ?thesis
  proof (cases "failbackTarget dec = None \<or> tryAcquirePromote (deploymentState ?c2 n) ps = None")
    case True
    then have c: "c = ?c2" using c by (auto simp: actFailback_def split: option.splits)
    have "estep (at s n (DemotesDone ps dec) ?c2) Silent (at s n Idle c)"
      using no_failback [of "at s n (DemotesDone ps dec) ?c2" n ps dec] True c by simp
    from run_Cons [OF 1 run_Cons [OF 2 run_Cons [OF this run.start]]]
    have "run s ([Silent, Silent, Silent] @ []) (at s n Idle c) \<and> set [Silent, Silent, Silent] \<subseteq> {Silent}
        \<and> roundEnd n ps (ctl s) c []"
      using ts c by (simp add: roundEnd_def)
    then show ?thesis by blast
  next
    case False
    then obtain t st where t: "failbackTarget dec = Some t"
      and st: "tryAcquirePromote (deploymentState ?c2 n) ps = Some st" by auto
    let ?c3 = "putState ?c2 n st" and ?c4 = "putState ?c2 n (restartFailbackClock st ps)"
    have put: "putState ?c3 n (restartFailbackClock st ps) = ?c4"
      by (simp add: putState_def update_Some_unfold)
    have c: "c = spawn ?c4 n (PromoteTask t)" using c t st by (simp add: actFailback_def)
    have 3: "estep (at s n (DemotesDone ps dec) ?c2) Silent (at s n (FailbackAcquired ps t) ?c3)"
      using failback_acquire [of "at s n (DemotesDone ps dec) ?c2" n ps dec t st] t st by simp
    have 4: "estep (at s n (FailbackAcquired ps t) ?c3) Silent (at s n (PromoteReady ps t) ?c4)"
      using failback_clock [of "at s n (FailbackAcquired ps t) ?c3" n ps t] put by simp
    have 5: "run (at s n (PromoteReady ps t) ?c4) [Started n (obPod t) ps] (at s n Idle c)"
      using ready_as_run [of "at s n (PromoteReady ps t) ?c4" n ps t] c by simp
    have "run s ([Silent, Silent, Silent, Silent] @ [Started n (obPod t) ps]) (at s n Idle c)"
      using run_Cons [OF 1 run_Cons [OF 2 run_Cons [OF 3 run_Cons [OF 4 5]]]] by simp
    moreover have "roundEnd n ps (ctl s) c [Started n (obPod t) ps]"
      using c ts by (simp add: roundEnd_def isPromoteTask_def)
    ultimately show ?thesis
      by (intro exI [of _ "[Silent, Silent, Silent, Silent]"] exI [of _ "[Started n (obPod t) ps]"]) simp
  qed
qed

lemma act_as_run:
  assumes p: "phases s n = Committed ps e dec streak es retain"
    and act: "reconcileAct (ctl s) n e dec streak es retain ps = Some c"
  shows "\<exists>tr fin. run s (tr @ fin) (at s n Idle c) \<and> set tr \<subseteq> {Silent} \<and> roundEnd n ps (ctl s) c fin"
proof (cases e)
  case True
  have a: "actEmptyDiscovery (ctl s) n es = Some c" using act True by (simp add: reconcileAct_def)
  have "estep s Silent (at s n Idle c)" using empty_discovery [OF _ a] p True by simp
  from run_Cons [OF this run.start] have "run s ([Silent] @ []) (at s n Idle c)" by simp
  moreover have "roundEnd n ps (ctl s) c []"
    using empty_quiet [OF a] setLeader_same_tasks by (auto simp: roundEnd_def)
  ultimately show ?thesis by (intro exI [of _ "[Silent]"] exI [of _ "[]"]) simp
next
  case False
  have a: "act (ctl s) n dec streak retain ps = Some c" using act False by (simp add: reconcileAct_def)
  show ?thesis
    using leaderless_as_run [of s n ps dec streak es retain c] led_as_run [of s n ps dec streak es retain c]
      p a False by (cases "liveLeaderCount dec = 0") (simp_all add: act_def)
qed

lemma round_as_run:
  assumes idle: "phases s n = Idle"
    and rec: "reconcile (ctl s) n (d :: string \<Rightarrow> string + Backend list) polls ps now = Some c"
    and t: "clock s \<le> ps" "ps \<le> now"
  shows "\<exists>tr fin s'. run s (tr @ fin) s' \<and> ctl s' = c \<and> phases s' = phases s
    \<and> clock s' \<le> now \<and> set tr \<subseteq> {Silent, PollBegan n ps} \<and> roundEnd n ps (ctl s) c fin"
proof -
  obtain c1 r where disc: "reconcileDiscover (ctl s) n d = (c1, r)"
    by (cases "reconcileDiscover (ctl s) n d")
  have tasks1: "tasks c1 = tasks (ctl s)" by (rule keepsD(2) [OF keeps_discover [OF disc]])
  have same: "(phases s)(n := Idle) = phases s" using idle by auto
  show ?thesis
  proof (cases r)
    case None
    have c: "c = c1" using rec disc None by (simp add: reconcile_def)
    have "estep s Silent (at s n Idle c1)" by (rule discovery_failed [OF idle disc [unfolded None]])
    from run_Cons [OF this run.start] have "run s ([Silent] @ []) (at s n Idle c)" using c by simp
    moreover have "roundEnd n ps (ctl s) c []" using tasks1 c by (simp add: roundEnd_def)
    ultimately show ?thesis
      using t same
      by (intro exI [of _ "[Silent]"] exI [of _ "[]"] exI [of _ "at s n Idle c"]) (simp add: at_def)
  next
    case (Some pods)
    obtain st obs where rem: "rememberTransitions (cfg c1) (deploymentState c1 n) (pollAll polls pods) ps = (st, obs)"
      by fastforce
    let ?c2 = "putState c1 n st"
    obtain c3 dec streak es retain where dec: "reconcileDecide ?c2 n obs now = (c3, dec, streak, es, retain)"
      by (metis prod_cases5)
    have act: "reconcileAct c3 n (pods = []) dec streak es retain ps = Some c"
      using rec disc Some rem dec by (simp add: reconcile_def reconcilePoll_def Let_def)
    let ?s1 = "at s n (Discovered pods) c1"
    let ?s2 = "tick (at s n (Polling ps pods) c1) ps"
    let ?s3 = "tick (at s n (Polled ps (pods = []) (pollAll polls pods) now) c1) now"
    let ?s4 = "tick (at s n (Remembered ps (pods = []) obs now) ?c2) now"
    let ?s5 = "tick (at s n (Committed ps (pods = []) dec streak es retain) c3) now"
    have 1: "estep s Silent ?s1" by (rule discovered [OF idle disc [unfolded Some]])
    have 2: "estep ?s1 (PollBegan n ps) ?s2"
      using poll_begin [of ?s1 n pods ps] t by simp
    have 3: "estep ?s2 Silent ?s3"
      using poll_end [of ?s2 n ps pods now polls] t by (simp add: at_tick)
    have 4: "estep ?s3 Silent ?s4"
      using remember [of ?s3 n ps "pods = []" "pollAll polls pods" now st obs] rem by (simp add: at_tick)
    have 5: "estep ?s4 Silent ?s5"
      using commit [of ?s4 n ps "pods = []" obs now c3 dec streak es retain] dec by (simp add: at_tick)
    obtain tr fin where 6: "run ?s5 (tr @ fin) (at ?s5 n Idle c)" "set tr \<subseteq> {Silent}" "roundEnd n ps c3 c fin"
      using act_as_run [of ?s5 n ps "pods = []" dec streak es retain c] act by auto
    have "run s (([Silent, PollBegan n ps, Silent, Silent, Silent] @ tr) @ fin) (at ?s5 n Idle c)"
      using run_Cons [OF 1 run_Cons [OF 2 run_Cons [OF 3 run_Cons [OF 4 run_Cons [OF 5 6(1)]]]]] by simp
    moreover have "tasks c3 = tasks (ctl s)"
      using keepsD(2) [OF keeps_decide [OF dec]] tasks1 by simp
    then have "roundEnd n ps (ctl s) c fin" using 6(3) by (simp add: roundEnd_def)
    moreover have "phases (at ?s5 n Idle c) = phases s" using same by (simp add: at_def)
    ultimately show ?thesis
      using 6(2)
      by (intro exI [of _ "[Silent, PollBegan n ps, Silent, Silent, Silent] @ tr"] exI [of _ fin]
          exI [of _ "at ?s5 n Idle c"]) auto
  qed
qed

section \<open>A concrete run with two promotions\<close>

fun timed :: "instant \<Rightarrow> round list \<Rightarrow> bool" where
  "timed t [] = True"
| "timed t (r # rs) = (t \<le> rd_start r \<and> rd_start r \<le> rd_now r \<and> timed (rd_now r) rs)"

lemma timed_mono: "timed t rs \<Longrightarrow> u \<le> t \<Longrightarrow> timed u rs"
  by (cases rs) auto

lemma rounds_as_run:
  "phases s n = Idle \<Longrightarrow> runRounds (ctl s) n rs = Some c \<Longrightarrow> timed (clock s) (rs @ [r]) \<Longrightarrow>
     \<exists>tr s'. run s tr s' \<and> ctl s' = c \<and> phases s' = phases s \<and> clock s' \<le> rd_start r"
proof (induction rs arbitrary: s)
  case Nil
  then show ?case using run.start by auto
next
  case (Cons q rs)
  obtain c1 where c1: "runRound (ctl s) n q = Some c1" "runRounds c1 n rs = Some c"
    using Cons.prems(2) by (auto split: option.splits)
  obtain tr s1 where s1: "run s tr s1" "ctl s1 = c1" "phases s1 = phases s" "clock s1 \<le> rd_now q"
    using round_as_run [OF Cons.prems(1) c1(1) [unfolded runRound_def]] Cons.prems(3) by auto
  have "timed (clock s1) (rs @ [r])" using Cons.prems(3) s1(4) timed_mono by auto
  then obtain tr' s' where "run s1 tr' s'" "ctl s' = c" "phases s' = phases s1" "clock s' \<le> rd_start r"
    using Cons.IH [of s1] Cons.prems(1) c1(2) s1 by auto
  then show ?case using run_append s1 by metis
qed

text \<open>A round that started a promotion, with the goroutine answered (declined) and released.\<close>

lemma declined_as_run:
  assumes "phases s n = Idle" "tasks (ctl s) = []" "runRound (ctl s) n r = Some c"
    and "tasks c = [(n, PromoteTask target)]" "clock s \<le> rd_start r" "rd_start r \<le> rd_now r"
  shows "\<exists>tr s'. run s (tr @ [Started n (obPod target) (rd_start r)] @ [Silent, Released n]) s'
    \<and> ctl s' = (putState c n (releasePromote (deploymentState c n)))\<lparr>tasks := []\<rparr>
    \<and> phases s' = phases s \<and> clock s' = rd_now r"
proof -
  obtain tr fin s1 where s1: "run s (tr @ fin) s1" "ctl s1 = c" "phases s1 = phases s" "clock s1 \<le> rd_now r"
    "roundEnd n (rd_start r) (ctl s) c fin"
    using round_as_run [OF assms(1) assms(3) [unfolded runRound_def] assms(5,6)] by auto
  have fin: "fin = [Started n (obPod target) (rd_start r)]"
    using s1(5) assms(2,4) by (auto simp: roundEnd_def isPromoteTask_def)
  let ?c1 = "(putState c n (deploymentState c n))\<lparr>tasks := [(n, PromoteRelease)]\<rparr>"
  let ?c2 = "(putState ?c1 n (releasePromote (deploymentState ?c1 n)))\<lparr>tasks := []\<rparr>"
  let ?s2 = "tick (s1\<lparr>ctl := ?c1\<rparr>) (rd_now r)"
  let ?s3 = "?s2\<lparr>ctl := ?c2\<rparr>"
  have A: "estep s1 Silent ?s2"
    using promotion_answered [of s1 "[]" n target "[]" "rd_now r" "Some (409, True, False)"] s1 assms(4)
    by (simp add: mayHaveReached_def promoteAndLog_def)
  have B: "estep ?s2 (Released n) ?s3"
    using promotion_released [of ?s2 "[]" n "[]"] by simp
  have "run s (((tr @ fin) @ [Silent]) @ [Released n]) ?s3"
    by (rule run.step [OF run.step [OF s1(1) A] B])
  moreover have "?c2 = (putState c n (releasePromote (deploymentState c n)))\<lparr>tasks := []\<rparr>"
    by (simp add: putState_def deploymentState_def)
  ultimately show ?thesis
    using fin s1(3) by (intro exI [of _ tr] exI [of _ ?s3]) simp
qed

definition sampleSystem :: sys where
  "sampleSystem = startSystem DefaultConfig [1, 0, 0, 0, 0, 0, 0, 0] [(''dev'', ''convex-dev'')] 0"

lemma sampleSystem_facts:
  "reg (ctl sampleSystem) = sampleRegistry" "reg_inv sampleRegistry"
  "Namespace sampleRegistry ''dev'' = Some ''convex-dev''"
  "deploymentState (ctl sampleSystem) ''dev'' = newDeploymentState"
  "cfg (ctl sampleSystem) = DefaultConfig" "tasks (ctl sampleSystem) = []"
  "phases sampleSystem ''dev'' = Idle" "clock sampleSystem = 0"
  using reachable_reg_inv [OF sample_reachable(1)]
  by (simp_all add: sampleSystem_def startSystem_def NewController_def deploymentState_def
      sampleRegistry_def EnsureDeployment_def NewRegistry_def Namespace_def)

lemma standby_failover: "failoverRound ''convex-dev'' (standbyRound t)"
  by (simp add: failoverRound_def standbyRound_def pollAll_def pollOne_def standby_def
      noLeadership_def isTransitioning_def isPromotable_def)

lemma sample_two_promotions:
  "\<exists>tr1 tr2 p q s. run sampleSystem
     (tr1 @ [Started ''dev'' p 30] @ tr2 @ [Started ''dev'' q 40] @ [Silent, Released ''dev'']) s"
proof -
  let ?c0 = "ctl sampleSystem"
  note F = sampleSystem_facts
  have start: "rd_start (standbyRound t) = t" "rd_now (standbyRound t) = t + 1" for t
    by (simp_all add: standbyRound_def)
  have deb: "PromoteDebounce DefaultConfig = 3" "3 \<le> max_int64" "3 < max_int64"
    by (simp_all add: defaultConfig_simps)
  have zero: "leaderlessStreak newDeploymentState = 0" "\<not> promoting newDeploymentState"
    "\<And>t. marksBefore newDeploymentState t"
    by (simp_all add: newDeploymentState_def marksBefore_def)
  have "\<exists>c'. runRounds ?c0 ''dev'' [standbyRound 10, standbyRound 20] = Some c' \<and> cfg c' = cfg ?c0
    \<and> reg c' = reg ?c0 \<and> tasks c' = tasks ?c0
    \<and> leaderlessStreak (deploymentState c' ''dev'') = leaderlessStreak (deploymentState ?c0 ''dev'')
        + int (length [standbyRound 10, standbyRound 20])
    \<and> \<not> promoting (deploymentState c' ''dev'')
    \<and> list_all (\<lambda>r. marksBefore (deploymentState c' ''dev'') (rd_start r)) [standbyRound 30, standbyRound 40]"
    by (rule failover_rounds_wait [where ns = "''convex-dev''"])
      (use F standby_failover deb zero in \<open>simp_all del: runRounds.simps\<close>)
  then obtain c2 where c2: "runRounds ?c0 ''dev'' [standbyRound 10, standbyRound 20] = Some c2" "cfg c2 = DefaultConfig"
    "reg c2 = sampleRegistry" "tasks c2 = []" "leaderlessStreak (deploymentState c2 ''dev'') = 2"
    "\<not> promoting (deploymentState c2 ''dev'')"
    "marksBefore (deploymentState c2 ''dev'') 30" "marksBefore (deploymentState c2 ''dev'') 40"
    using F zero start by (auto simp del: runRounds.simps)
  obtain tr1 s1 where s1: "run sampleSystem tr1 s1" "ctl s1 = c2" "phases s1 = phases sampleSystem" "clock s1 \<le> 30"
    using rounds_as_run [of sampleSystem "''dev''" "[standbyRound 10, standbyRound 20]" c2 "standbyRound 30"]
      F c2(1) start by (auto simp del: runRounds.simps)
  obtain c3 t where c3: "runRound c2 ''dev'' (standbyRound 30) = Some c3" "cfg c3 = DefaultConfig"
    "reg_inv (reg c3)" "Namespace (reg c3) ''dev'' = Some ''convex-dev''"
    "tasks c3 = [(''dev'', PromoteTask t)]" "leaderlessStreak (deploymentState c3 ''dev'') = 3"
    "marksBefore (deploymentState c3 ''dev'') 40"
    using failover_round [of c2 "''dev''" "''convex-dev''" "standbyRound 30"] c2 F standby_failover start
      Namespace_Update reg_inv_Update deb by auto
  obtain tr2 s2 where s2: "run s1 (tr2 @ [Started ''dev'' (obPod t) 30] @ [Silent, Released ''dev'']) s2"
    "ctl s2 = (putState c3 ''dev'' (releasePromote (deploymentState c3 ''dev'')))\<lparr>tasks := []\<rparr>"
    "phases s2 = phases s1" "clock s2 = 31"
    using declined_as_run [of s1 "''dev''" "standbyRound 30" c3 t] c2(4) c3 s1 F start by auto
  obtain c4 u where c4: "runRound (ctl s2) ''dev'' (standbyRound 40) = Some c4"
    "tasks c4 = [(''dev'', PromoteTask u)]"
    using failover_round [of "ctl s2" "''dev''" "''convex-dev''" "standbyRound 40"] c3 s2(2) standby_failover start deb
    by (auto simp: releasePromote_def marksBefore_def)
  obtain tr3 s3 where s3: "run s2 (tr3 @ [Started ''dev'' (obPod u) 40] @ [Silent, Released ''dev'']) s3"
    using declined_as_run [of s2 "''dev''" "standbyRound 40" c4 u] c4 s2 s1 F start by auto
  have "run sampleSystem (tr1 @ tr2 @ [Started ''dev'' (obPod t) 30] @ [Silent, Released ''dev'']
      @ tr3 @ [Started ''dev'' (obPod u) 40] @ [Silent, Released ''dev'']) s3"
    using run_append [OF s3 run_append [OF s2(1) s1(1)]] by simp
  then have "run sampleSystem ((tr1 @ tr2) @ [Started ''dev'' (obPod t) 30] @ ([Silent, Released ''dev'']
      @ tr3) @ [Started ''dev'' (obPod u) 40] @ [Silent, Released ''dev'']) s3"
    by simp
  then show ?thesis by blast
qed

section \<open>Properties of all interleavings\<close>

text \<open>
  C1: promotions of one deployment never overlap: whatever the interleaving and the answers,
  between the start of one promotion and the start of the next, the first one has ended and
  released the lock.
\<close>

theorem promotions_do_not_overlap:
  assumes "run (startSystem cf bs ds t0) (tr1 @ [Started n p ps] @ tr2 @ [Started n q qs] @ tr3) s"
    and "0 \<le> UnreachableLeaderGrace cf"
  shows "Released n \<in> set tr2"
proof (rule ccontr)
  assume no: "Released n \<notin> set tr2"
  let ?s0 = "startSystem cf bs ds t0"
  obtain s1 where r1: "run ?s0 tr1 s1" "run s1 ([Started n p ps] @ tr2 @ [Started n q qs] @ tr3) s"
    using run_split [OF assms(1)] by blast
  obtain s2 where r2: "run s1 [Started n p ps] s2" "run s2 (tr2 @ [Started n q qs] @ tr3) s"
    using run_split [OF r1(2)] by blast
  obtain s3 where r3: "run s2 tr2 s3" "run s3 ([Started n q qs] @ tr3) s"
    using run_split [OF r2(2)] by blast
  obtain s4 where r4: "run s3 [Started n q qs] s4" using run_split [OF r3(2)] by blast
  obtain t1 t2 where s2: "s2 = at s1 n Idle (spawn (ctl s1) n (PromoteTask t1))"
    and ready: "phases s3 n = PromoteReady qs t2"
    using started_phase [OF run_one [OF r2(1)]] started_phase [OF run_one [OF r4]] by blast
  have "locks_ok s3"
    using run_ok [OF run_append [OF r3(1) run_append [OF r2(1) r1(1)]] assms(2)] by blast
  then have "tally (promotes n) (tasks (ctl s3)) = 0"
    using locksD(1) [of s3 n] ready by (cases "promoting (deploymentState (ctl s3) n)") simp_all
  moreover have "1 \<le> tally (promotes n) (tasks (ctl s2))" by (simp add: s2 promotes_def)
  ultimately show False using run_tally [OF r3(1) no] by simp
qed

theorem promotions_do_not_overlap_witness:
  "\<exists>tr1 tr2 tr3 p q s.
     run sampleSystem (tr1 @ [Started ''dev'' p 30] @ tr2 @ [Started ''dev'' q 40] @ tr3) s
     \<and> Released ''dev'' \<in> set tr2"
proof -
  obtain tr1 tr2 p q s where r: "run sampleSystem
     (tr1 @ [Started ''dev'' p 30] @ tr2 @ [Started ''dev'' q 40] @ [Silent, Released ''dev'']) s"
    using sample_two_promotions by blast
  have "0 \<le> UnreachableLeaderGrace DefaultConfig" by (simp add: defaultConfig_simps)
  then have "Released ''dev'' \<in> set tr2"
    using promotions_do_not_overlap [OF r [unfolded sampleSystem_def]] by blast
  then show ?thesis using r by blast
qed

text \<open>
  C5: a promotion is only ever started on fresh observations: the poll it was decided on
  belongs to this deployment, and no earlier promotion that may have reached its pod was
  recorded after that poll began. So a pod that is on its way to leadership because of an
  earlier promotion has been asked again before another pod is promoted.
\<close>

theorem promotion_on_fresh_polls:
  assumes "run (startSystem cf bs ds t0) (tr1 @ [Started n p ps] @ tr2) s"
    and "0 \<le> UnreachableLeaderGrace cf"
  shows "PollBegan n ps \<in> set tr1 \<and> (\<forall>q t. Recorded n q t \<in> set tr1 \<longrightarrow> t \<le> ps)"
proof -
  let ?s0 = "startSystem cf bs ds t0"
  obtain s1 where r1: "run ?s0 tr1 s1" "run s1 ([Started n p ps] @ tr2) s"
    using run_split [OF assms(1)] by blast
  obtain s2 where r2: "run s1 [Started n p ps] s2" using run_split [OF r1(2)] by blast
  obtain target where ready: "phases s1 n = PromoteReady ps target"
    using started_phase [OF run_one [OF r2]] by blast
  have "memory_ok tr1 s1" using run_ok [OF r1(1) assms(2)] by blast
  then have "\<forall>q t. Recorded n q t \<in> set tr1 \<longrightarrow> t \<le> ps"
    using memoryD(5) [of tr1 s1 n ps] ready by (metis holdsPromote.simps(4) not_less roundStart.simps(12))
  moreover have "PollBegan n ps \<in> set tr1"
    using run_round [OF r1(1), of n ps] ready by (simp add: startSystem_def)
  ultimately show ?thesis by blast
qed

theorem promotion_on_fresh_polls_witness:
  "\<exists>tr1 tr2 q s. run sampleSystem (tr1 @ [Started ''dev'' q 40] @ tr2) s
     \<and> PollBegan ''dev'' 40 \<in> set tr1 \<and> (\<forall>p t. Recorded ''dev'' p t \<in> set tr1 \<longrightarrow> t \<le> 40)"
proof -
  obtain tr1 tr2 p q s where "run sampleSystem
     (tr1 @ [Started ''dev'' p 30] @ tr2 @ [Started ''dev'' q 40] @ [Silent, Released ''dev'']) s"
    using sample_two_promotions by blast
  then have r: "run sampleSystem
     ((tr1 @ [Started ''dev'' p 30] @ tr2) @ [Started ''dev'' q 40] @ [Silent, Released ''dev'']) s"
    by simp
  have "0 \<le> UnreachableLeaderGrace DefaultConfig" by (simp add: defaultConfig_simps)
  then show ?thesis
    using promotion_on_fresh_polls [OF r [unfolded sampleSystem_def]] r by blast
qed

text \<open>
  C15: in every reachable state, what the registry publishes for a deployment is the leader the
  controller takes for its incumbent, the registry is well-formed, and each actuation lock is
  taken exactly when one goroutine (or the round about to start one) owns it.
\<close>

theorem controller_consistent:
  assumes "run (startSystem cf bs ds t0) tr s" and "0 \<le> UnreachableLeaderGrace cf"
  shows "reg_inv (reg (ctl s))
    \<and> LeaderPod (fst (Leader (reg (ctl s)) n)) = incumbentPod (deploymentState (ctl s) n)
    \<and> promoteHolders s n = (if promoting (deploymentState (ctl s) n) then 1 else 0)
    \<and> demoteHolders s n = (if demoting (deploymentState (ctl s) n) then 1 else 0)"
  using run_ok [OF assms] by (auto simp: registry_ok_def locks_ok_def held_def)

theorem controller_consistent_witness:
  "\<exists>tr s. run sampleSystem tr s \<and> tr \<noteq> []
     \<and> LeaderPod (fst (Leader (reg (ctl s)) ''dev'')) = incumbentPod (deploymentState (ctl s) ''dev'')"
proof -
  obtain tr s where r: "run sampleSystem tr s" "tr \<noteq> []" using sample_two_promotions by fastforce
  have "0 \<le> UnreachableLeaderGrace DefaultConfig" by (simp add: defaultConfig_simps)
  then show ?thesis
    using controller_consistent [OF r(1) [unfolded sampleSystem_def]] r by blast
qed

text \<open>
  The composed round function \<open>reconcile\<close> is what the interleaving system does when
  nothing else runs: its result is reached by a run of steps that consists of this round
  only, and which starts a promotion (as its last event) exactly when it spawns one.
\<close>

theorem reconcile_refines_steps:
  assumes "phases s n = Idle"
    and "reconcile (ctl s) n (d :: string \<Rightarrow> string + Backend list) polls ps now = Some c"
    and "clock s \<le> ps" and "ps \<le> now"
  shows "\<exists>tr fin s'. run s (tr @ fin) s' \<and> ctl s' = c \<and> phases s' = phases s
    \<and> set tr \<subseteq> {Silent, PollBegan n ps} \<and> roundEnd n ps (ctl s) c fin"
  using round_as_run [OF assms] by blast

theorem reconcile_refines_steps_witness:
  "\<exists>c tr s'. reconcile (ctl sampleSystem) ''dev'' (rd_discover (standbyRound 10))
       (rd_polls (standbyRound 10)) 10 11 = Some c
     \<and> run sampleSystem tr s' \<and> ctl s' = c"
proof -
  have "reg_inv (reg (ctl sampleSystem))" using sampleSystem_facts(1,2) by simp
  then obtain c where c: "reconcile (ctl sampleSystem) ''dev'' (rd_discover (standbyRound 10))
      (rd_polls (standbyRound 10)) 10 11 = Some c"
    using reconcile_frame by blast
  have "clock sampleSystem \<le> 10" by (simp add: sampleSystem_facts)
  from reconcile_refines_steps [OF sampleSystem_facts(7) c this] c show ?thesis by auto
qed

section \<open>No lock is ever stuck\<close>

text \<open>The round of \<open>n\<close> can be brought to its end, from whichever phase it is in.\<close>

definition finishes :: "sys \<Rightarrow> string \<Rightarrow> bool" where
  "finishes s n = (\<exists>tr s'. run s tr s' \<and> phases s' n = Idle)"

lemma finishes_step: "estep s e s1 \<Longrightarrow> finishes s1 n \<Longrightarrow> finishes s n"
  unfolding finishes_def using run_Cons by blast

lemma finishes_idle [simp]: "phases s n = Idle \<Longrightarrow> finishes s n"
  unfolding finishes_def using run.start by blast

lemma finishes_promotion [simp]:
  "phases s n = PromoteReady ps t \<Longrightarrow> finishes s n"
  "phases s n = LeaderCleared ps t \<Longrightarrow> finishes s n"
  "phases s n = FailbackAcquired ps t \<Longrightarrow> finishes s n"
  "phases s n = PromoteAcquired ps t \<Longrightarrow> reg_inv (reg (ctl s)) \<Longrightarrow> finishes s n"
proof -
  show ready: "phases s n = PromoteReady ps t \<Longrightarrow> finishes s n" for s
    by (rule finishes_step [OF start_promotion], assumption) simp
  show cleared: "phases s n = LeaderCleared ps t \<Longrightarrow> finishes s n" for s
    by (rule finishes_step [OF record_attempt], assumption, rule ready) simp
  show "phases s n = FailbackAcquired ps t \<Longrightarrow> finishes s n" for s
    by (rule finishes_step [OF failback_clock], assumption, rule ready) simp
  assume p: "phases s n = PromoteAcquired ps t" and inv: "reg_inv (reg (ctl s))"
  obtain c where c: "setLeader (ctl s) n '''' '''' = Some c" using setLeader_total [OF inv] by blast
  show "finishes s n" by (rule finishes_step [OF clear_leader [OF p c]], rule cleared) simp
qed

lemma finishes_led [simp]:
  "phases s n = DemotesDone ps d \<Longrightarrow> finishes s n"
  "phases s n = LeaderSet ps d \<Longrightarrow> finishes s n"
proof -
  show demoted: "phases s n = DemotesDone ps d \<Longrightarrow> finishes s n" for s
  proof (cases "failbackTarget d = None \<or> tryAcquirePromote (deploymentState (ctl s) n) ps = None")
    case True
    show "phases s n = DemotesDone ps d \<Longrightarrow> finishes s n"
      by (rule finishes_step [OF no_failback [OF _ True]], assumption) simp
  next
    case False
    then obtain t st where t: "failbackTarget d = Some t"
      "tryAcquirePromote (deploymentState (ctl s) n) ps = Some st" by auto
    show "phases s n = DemotesDone ps d \<Longrightarrow> finishes s n"
      by (rule finishes_step [OF failback_acquire [OF _ t]], assumption, rule finishes_promotion(3)) simp
  qed
  show "phases s n = LeaderSet ps d \<Longrightarrow> finishes s n"
    by (rule finishes_step [OF demote_extra], assumption, rule demoted) simp
qed

lemma finishes_round:
  assumes "reg_inv (reg (ctl s))"
  shows "phases s n = Committed ps e d streak es retain \<Longrightarrow> finishes s n"
    and "phases s n = Remembered ps e obs now \<Longrightarrow> finishes s n"
    and "phases s n = Polled ps e obs now \<Longrightarrow> finishes s n"
    and "phases s n = Polling ps pods \<Longrightarrow> finishes s n"
    and "phases s n = Discovered pods \<Longrightarrow> finishes s n"
proof -
  have committed: "finishes s n"
    if inv: "reg_inv (reg (ctl s))" and p: "phases s n = Committed ps e d streak es retain"
    for s ps e d streak es retain
  proof -
    obtain c where "reconcileAct (ctl s) n e d streak es retain ps = Some c"
      using reconcileAct_frame [OF inv] by blast
    then show ?thesis using act_as_run [OF p] unfolding finishes_def by fastforce
  qed
  have remembered: "finishes s n"
    if inv: "reg_inv (reg (ctl s))" and p: "phases s n = Remembered ps e obs now" for s ps e obs now
  proof -
    obtain c d st es rt where dec: "reconcileDecide (ctl s) n obs now = (c, d, st, es, rt)"
      by (metis prod_cases5)
    show ?thesis
      by (rule finishes_step [OF commit [OF p dec]], rule committed)
        (simp_all add: keepsD(1) [OF keeps_decide [OF dec]] inv)
  qed
  have polled: "finishes s n"
    if inv: "reg_inv (reg (ctl s))" and p: "phases s n = Polled ps e obs now" for s ps e obs now
  proof -
    obtain st obs' where r: "rememberTransitions (cfg (ctl s)) (deploymentState (ctl s) n) obs ps = (st, obs')"
      by fastforce
    show ?thesis
      by (rule finishes_step [OF remember [OF p r]], rule remembered) (simp_all add: inv)
  qed
  have polling: "finishes s n"
    if inv: "reg_inv (reg (ctl s))" and p: "phases s n = Polling ps pods" for s ps pods
    by (rule finishes_step [OF poll_end [OF p order_refl, of "\<lambda>_. None"]], rule polled)
      (simp_all add: inv)
  show "phases s n = Discovered pods \<Longrightarrow> finishes s n"
    by (rule finishes_step [OF poll_begin [OF _ order_refl]], assumption, rule polling)
      (simp_all add: assms)
  show "phases s n = Committed ps e d streak es retain \<Longrightarrow> finishes s n"
    "phases s n = Remembered ps e obs now \<Longrightarrow> finishes s n"
    "phases s n = Polled ps e obs now \<Longrightarrow> finishes s n"
    "phases s n = Polling ps pods \<Longrightarrow> finishes s n"
    using assms committed remembered polled polling by simp_all
qed

lemma finish_round: "reg_inv (reg (ctl s)) \<Longrightarrow> finishes s n"
  by (cases "phases s n") (simp_all add: finishes_round)

text \<open>An idle deployment with tasks: each goroutine can be answered and released.\<close>

definition ownTasks :: "sys \<Rightarrow> string \<Rightarrow> nat" where
  "ownTasks s n = (\<Sum>(m, t) \<leftarrow> tasks (ctl s). if m \<noteq> n then 0 else case t of
     PromoteTask _ \<Rightarrow> 2 | DemoteTask _ \<Rightarrow> 2 | PromoteRelease \<Rightarrow> 1 | DemoteRelease \<Rightarrow> 1)"

lemma task_step:
  assumes "(n, t) \<in> set (tasks (ctl s))"
  shows "\<exists>e s'. estep s e s' \<and> phases s' = phases s \<and> ownTasks s' n < ownTasks s n"
proof -
  obtain xs ys where ts: "tasks (ctl s) = xs @ (n, t) # ys" using assms by (meson split_list)
  show ?thesis
  proof (cases t)
    case (PromoteTask target)
    from promotion_answered [OF ts [unfolded PromoteTask] order_refl, of None] show ?thesis
      by (intro exI conjI) (assumption, simp_all add: ownTasks_def ts PromoteTask)
  next
    case PromoteRelease
    from promotion_released [OF ts [unfolded PromoteRelease]] show ?thesis
      by (intro exI conjI) (assumption, simp_all add: ownTasks_def ts PromoteRelease)
  next
    case (DemoteTask targets)
    from demotions_answered [OF ts [unfolded DemoteTask]] show ?thesis
      by (intro exI conjI) (assumption, simp_all add: ownTasks_def ts DemoteTask)
  next
    case DemoteRelease
    from demotions_released [OF ts [unfolded DemoteRelease]] show ?thesis
      by (intro exI conjI) (assumption, simp_all add: ownTasks_def ts DemoteRelease)
  qed
qed

lemma drain_tasks:
  "phases s n = Idle \<Longrightarrow>
     \<exists>tr s'. run s tr s' \<and> phases s' n = Idle \<and> (\<forall>t. (n, t) \<notin> set (tasks (ctl s')))"
proof (induction "ownTasks s n" arbitrary: s rule: less_induct)
  case less
  show ?case
  proof (cases "\<exists>t. (n, t) \<in> set (tasks (ctl s))")
    case False
    then show ?thesis using less.prems run.start by blast
  next
    case True
    then obtain e s1 where s1: "estep s e s1" "phases s1 = phases s" "ownTasks s1 n < ownTasks s n"
      using task_step by blast
    then obtain tr s' where "run s1 tr s'" "phases s' n = Idle" "\<forall>t. (n, t) \<notin> set (tasks (ctl s'))"
      using less.hyps [of s1] less.prems by auto
    then show ?thesis using run_Cons [OF s1(1)] by blast
  qed
qed

text \<open>
  C20: no actuation lock is ever lost: from every reachable state, whatever has failed or
  panicked before, the round in progress can be finished and the goroutines can end, and then
  both locks of the deployment are free again.
\<close>

theorem locks_can_be_released:
  assumes "run (startSystem cf bs ds t0) tr s" and "0 \<le> UnreachableLeaderGrace cf"
  shows "\<exists>tr' s'. run s tr' s' \<and> phases s' n = Idle
    \<and> \<not> promoting (deploymentState (ctl s') n) \<and> \<not> demoting (deploymentState (ctl s') n)"
proof -
  have "reg_inv (reg (ctl s))" using run_ok [OF assms] by (simp add: registry_ok_def)
  then obtain tr1 s1 where s1: "run s tr1 s1" "phases s1 n = Idle"
    using finish_round unfolding finishes_def by blast
  obtain tr2 s2 where s2: "run s1 tr2 s2" "phases s2 n = Idle" "\<forall>t. (n, t) \<notin> set (tasks (ctl s2))"
    using drain_tasks [OF s1(2)] by blast
  have "locks_ok s2"
    using run_ok [OF run_append [OF s2(1) run_append [OF s1(1) assms(1)]] assms(2)] by blast
  moreover have "tally (promotes n) (tasks (ctl s2)) = 0" "tally (demoteTask n) (tasks (ctl s2)) = 0"
    using s2(3) by (auto intro!: tally_none simp: promotes_def demoteTask_def)
  ultimately have "\<not> promoting (deploymentState (ctl s2) n)" "\<not> demoting (deploymentState (ctl s2) n)"
    using locksD [of s2 n] s2(2) by (simp_all add: held_def split: if_splits)
  then show ?thesis using run_append [OF s2(1) s1(1)] s2(2) by blast
qed

theorem locks_can_be_released_witness:
  "\<exists>tr s s' tr'. run sampleSystem tr s \<and> tr \<noteq> [] \<and> run s tr' s'
     \<and> \<not> promoting (deploymentState (ctl s') ''dev'')"
proof -
  obtain tr s where r: "run sampleSystem tr s" "tr \<noteq> []" using sample_two_promotions by fastforce
  have "0 \<le> UnreachableLeaderGrace DefaultConfig" by (simp add: defaultConfig_simps)
  then show ?thesis
    using locks_can_be_released [OF r(1) [unfolded sampleSystem_def]] r by blast
qed

end
