(* ===== verification/ElectionProgress.thy ===== *)
theory ElectionProgress
  imports ElectionSafety
begin

text \<open>
  What the election controller achieves over several rounds: every promotable standby gets its
  turn when promotions keep failing, a failback is preceded by a stable window, and an
  unreachable incumbent is given exactly its grace.
\<close>

section \<open>Retries rotate over the standbys\<close>

text \<open>
  A promotion that is declined by its pod: the goroutine marks nothing (\<open>promoteAndLog\<close> with
  an unexpected status) and its deferred release frees the lock.
\<close>

definition declinePromotions :: "Controller \<Rightarrow> string \<Rightarrow> Controller" where
  "declinePromotions c n =
     (putState c n (releasePromote (deploymentState c n)))
       \<lparr>tasks := filter (\<lambda>nt. \<not> promotes n nt) (tasks c)\<rparr>"

fun startedPods :: "string \<Rightarrow> (string \<times> task) list \<Rightarrow> string list" where
  "startedPods n [] = []"
| "startedPods n ((m, PromoteTask t) # ts) =
     (if m = n then obPod t # startedPods n ts else startedPods n ts)"
| "startedPods n (_ # ts) = startedPods n ts"

text \<open>Rounds whose promotions are all declined, and the pods they tried.\<close>

fun retryRounds :: "Controller \<Rightarrow> string \<Rightarrow> round list \<Rightarrow> (Controller \<times> string list) option" where
  "retryRounds c n [] = Some (c, [])"
| "retryRounds c n (r # rs) =
     (case runRound c n r of
        None \<Rightarrow> None
      | Some c1 \<Rightarrow>
          (case retryRounds (declinePromotions c1 n) n rs of
             None \<Rightarrow> None
           | Some (c2, ps) \<Rightarrow> Some (c2, startedPods n (tasks c1) @ ps)))"

definition promotablePods :: "string \<Rightarrow> round \<Rightarrow> string set" where
  "promotablePods ns r =
     (case rd_discover r ns of Inl _ \<Rightarrow> {}
      | Inr pods \<Rightarrow> set (map obPod (filter isPromotable (pollAll (rd_polls r) pods))))"

lemma startedPods_append [simp]: "startedPods n (xs @ ys) = startedPods n xs @ startedPods n ys"
  by (induction n xs rule: startedPods.induct) auto

lemma startedPods_none: "filter (promotes n) ts = [] \<Longrightarrow> startedPods n ts = []"
  by (induction n ts rule: startedPods.induct) (auto simp: promotes_def split: if_splits)

lemma least_attempted:
  assumes "bestCandidate obs att = Some t" "ob \<in> set obs" "isPromotable ob"
  shows "gget att (obPod t) zero_time \<le> gget att (obPod ob) zero_time"
  using bestCandidate_mem [OF assms(1)] assms(2,3)
  by (auto simp: lessRecentlyAttempted_def Let_def split: if_splits)

text \<open>One retry: the pod tried has not been tried before, as long as there is such a pod.\<close>

lemma retry_untried:
  assumes best: "bestCandidate (pollAll (rd_polls r) pods) att = Some t"
    and pods: "rd_discover r ns = Inr pods"
    and past: "\<And>p u. map_of att p = Some u \<Longrightarrow> zero_time < u"
    and some: "q \<in> promotablePods ns r" "map_of att q = None"
  shows "map_of att (obPod t) = None \<and> obPod t \<in> promotablePods ns r"
proof -
  obtain ob where ob: "ob \<in> set (pollAll (rd_polls r) pods)" "isPromotable ob" "obPod ob = q"
    using some(1) pods by (auto simp: promotablePods_def)
  have "gget att (obPod t) zero_time \<le> gget att q zero_time"
    using least_attempted [OF best ob(1,2)] ob(3) by simp
  then have "gget att (obPod t) zero_time \<le> zero_time" using some(2) by (simp add: gget_def)
  then have "map_of att (obPod t) = None"
    using past by (cases "map_of att (obPod t)") (force simp: gget_def)+
  then show ?thesis using bestCandidate_mem [OF best] pods by (auto simp: promotablePods_def)
qed

definition retryable :: "Controller \<Rightarrow> string \<Rightarrow> string \<Rightarrow> round list \<Rightarrow> bool" where
  "retryable c n ns rs =
     (reg_inv (reg c) \<and> Namespace (reg c) n = Some ns \<and> \<not> promoting (deploymentState c n)
      \<and> filter (promotes n) (tasks c) = []
      \<and> 0 \<le> leaderlessStreak (deploymentState c n)
      \<and> PromoteDebounce (cfg c) \<le> leaderlessStreak (deploymentState c n) + 1
      \<and> leaderlessStreak (deploymentState c n) + int (length rs) < max_int64
      \<and> list_all (failoverRound ns) rs
      \<and> list_all (\<lambda>r. marksBefore (deploymentState c n) (rd_start r)) rs)"

text \<open>What one declined retry does.\<close>

lemma retry_round:
  assumes "retryable c n ns (r # rs)"
  obtains c1 pods t where "runRound c n r = Some c1" "retryable (declinePromotions c1 n) n ns rs"
    "rd_discover r ns = Inr pods"
    "bestCandidate (pollAll (rd_polls r) pods) (promoteAttempts (deploymentState c n)) = Some t"
    "startedPods n (tasks c1) = [obPod t]"
    "promoteAttempts (deploymentState (declinePromotions c1 n) n) =
       AList.update (obPod t) (rd_start r) (promoteAttempts (deploymentState c n))"
proof -
  let ?st = "deploymentState c n"
  note R = assms [unfolded retryable_def]
  have s: "0 \<le> leaderlessStreak ?st" "leaderlessStreak ?st < max_int64" using R by simp_all
  have fo: "failoverRound ns r" "\<not> promoting ?st" "marksBefore ?st (rd_start r)"
    "reg_inv (reg c)" "Namespace (reg c) n = Some ns" using R by simp_all
  have deb: "\<not> leaderlessStreak ?st + 1 < PromoteDebounce (cfg c)" using R by simp
  obtain c1 pods t where c1: "runRound c n r = Some c1" "cfg c1 = cfg c"
    "Update (reg c) n '''' '''' = Some (reg c1)"
    "leaderlessStreak (deploymentState c1 n) = leaderlessStreak ?st + 1"
    "\<forall>u. marksBefore ?st u \<longrightarrow> marksBefore (deploymentState c1 n) u"
    "rd_discover r ns = Inr pods" "tasks c1 = tasks c @ [(n, PromoteTask t)]"
    "bestCandidate (pollAll (rd_polls r) pods) (promoteAttempts ?st) = Some t"
    "promoteAttempts (deploymentState c1 n) = AList.update (obPod t) (rd_start r) (promoteAttempts ?st)"
    using failover_round [OF fo(4,5,1) s fo(2,3)] deb by auto
  have "retryable (declinePromotions c1 n) n ns rs"
    using R c1(2,4,5) reg_inv_Update [OF fo(4) c1(3)] Namespace_Update [OF c1(3)]
    unfolding retryable_def declinePromotions_def
    by (auto simp: releasePromote_def list_all_iff marksBefore_def)
  moreover have "startedPods n (tasks c1) = [obPod t]"
    using R c1(7) startedPods_none by (simp add: promotes_def)
  ultimately show ?thesis
    using that c1 by (simp add: declinePromotions_def releasePromote_def)
qed

lemma retries_untried:
  assumes "retryable c n ns rs" "list_all (\<lambda>r. promotablePods ns r = P) rs" "finite P"
    and "sorted_wrt (\<lambda>q r. rd_start q < rd_start r) rs" "list_all (\<lambda>r. zero_time < rd_start r) rs"
    and "\<forall>p u. map_of (promoteAttempts (deploymentState c n)) p = Some u \<longrightarrow> zero_time < u"
    and "length rs + card (P \<inter> dom (map_of (promoteAttempts (deploymentState c n)))) \<le> card P"
  shows "\<exists>c' ps. retryRounds c n rs = Some (c', ps) \<and> length ps = length rs \<and> distinct ps
    \<and> set ps \<subseteq> P - dom (map_of (promoteAttempts (deploymentState c n)))"
  using assms
proof (induction rs arbitrary: c)
  case (Cons r rs)
  let ?att = "promoteAttempts (deploymentState c n)"
  obtain c1 pods t where c1: "runRound c n r = Some c1" "retryable (declinePromotions c1 n) n ns rs"
    "rd_discover r ns = Inr pods" "bestCandidate (pollAll (rd_polls r) pods) ?att = Some t"
    "startedPods n (tasks c1) = [obPod t]"
    "promoteAttempts (deploymentState (declinePromotions c1 n) n) = AList.update (obPod t) (rd_start r) ?att"
    by (rule retry_round [OF Cons.prems(1)])
  have P: "promotablePods ns r = P" using Cons.prems(2) by simp
  have "P \<inter> dom (map_of ?att) \<noteq> P" using Cons.prems(7) by auto
  then obtain q where "q \<in> promotablePods ns r" "map_of ?att q = None" using P by auto
  then have t: "map_of ?att (obPod t) = None" "obPod t \<in> P"
    using retry_untried [OF c1(4,3)] Cons.prems(6) P by blast+
  have dom: "dom (map_of (AList.update (obPod t) (rd_start r) ?att)) = insert (obPod t) (dom (map_of ?att))"
    by (simp add: map_of_cong_update)
  have "P \<inter> insert (obPod t) (dom (map_of ?att)) = insert (obPod t) (P \<inter> dom (map_of ?att))"
    using t(2) by auto
  moreover have "obPod t \<notin> P \<inter> dom (map_of ?att)" using t(1) by (simp add: domIff)
  ultimately have "card (P \<inter> insert (obPod t) (dom (map_of ?att))) = Suc (card (P \<inter> dom (map_of ?att)))"
    using Cons.prems(3) by (metis card_insert_disjoint finite_Int)
  note card = this
  let ?att' = "promoteAttempts (deploymentState (declinePromotions c1 n) n)"
  have D: "dom (map_of ?att') = insert (obPod t) (dom (map_of ?att))" unfolding c1(6) by (rule dom)
  have "\<forall>p u. map_of ?att' p = Some u \<longrightarrow> zero_time < u"
    using Cons.prems(5,6) by (simp add: c1(6))
  moreover have "length rs + card (P \<inter> dom (map_of ?att')) \<le> card P"
    unfolding D using card Cons.prems(7) by simp
  moreover have "list_all (\<lambda>r. promotablePods ns r = P) rs" "finite P"
    "sorted_wrt (\<lambda>q r. rd_start q < rd_start r) rs" "list_all (\<lambda>r. zero_time < rd_start r) rs"
    using Cons.prems(2-5) by simp_all
  ultimately obtain c' ps where ps: "retryRounds (declinePromotions c1 n) n rs = Some (c', ps)"
    "length ps = length rs" "distinct ps" "set ps \<subseteq> P - dom (map_of ?att')"
    using Cons.IH [OF c1(2)] by blast
  have "set (obPod t # ps) \<subseteq> P - dom (map_of ?att)" "obPod t \<notin> set ps"
    using ps(4) t unfolding D by (auto simp: domIff)
  then show ?case using c1(1,5) ps(1-3) by simp
qed simp

text \<open>
  C31: retries rotate: once the debounce is reached, if every pod answers and the same \<open>k\<close> pods
  stay promotable while each promotion is declined, then \<open>k\<close> consecutive rounds try every one
  of the \<open>k\<close> pods exactly once, whatever their priorities and freshness.
\<close>

theorem retries_rotate:
  assumes "retryable c n ns rs" and "promoteAttempts (deploymentState c n) = []"
    and "list_all (\<lambda>r. promotablePods ns r = P) rs" and "finite P" and "length rs = card P"
    and "sorted_wrt (\<lambda>q r. rd_start q < rd_start r) rs" and "list_all (\<lambda>r. zero_time < rd_start r) rs"
  shows "\<exists>c' ps. retryRounds c n rs = Some (c', ps) \<and> distinct ps \<and> set ps = P"
proof -
  obtain c' ps where r: "retryRounds c n rs = Some (c', ps)" "length ps = length rs" "distinct ps" "set ps \<subseteq> P"
    using retries_untried [OF assms(1,3,4,6,7)] assms(2,5) by auto
  then have "card (set ps) = card P" using assms(5) by (simp add: distinct_card)
  then have "set ps = P" using r(4) assms(4) by (simp add: card_subset_eq)
  then show ?thesis using r by blast
qed

definition retryController :: Controller where
  "retryController = putState sampleController ''dev''
     (newDeploymentState\<lparr>leaderlessStreak := 2\<rparr>)"


lemma standby_times: "rd_start (standbyRound t) = t" "rd_now (standbyRound t) = t + 1"
  by (simp_all add: standbyRound_def)

theorem retries_rotate_witness:
  "\<exists>c' ps. retryRounds retryController ''dev'' [standbyRound 10, standbyRound 20] = Some (c', ps)
    \<and> distinct ps \<and> set ps = {''backend-0'', ''backend-1''}"
proof -
  have "retryable retryController ''dev'' ''convex-dev'' [standbyRound 10, standbyRound 20]"
    using sampleController_facts standby_failover
    by (simp add: retryable_def retryController_def marksBefore_def defaultConfig_simps)
  moreover have P: "promotablePods ''convex-dev'' (standbyRound t) = {''backend-0'', ''backend-1''}" for t
    by (simp add: promotablePods_def standbyRound_def pollAll_def pollOne_def standby_def
        noLeadership_def isPromotable_def isTransitioning_def sampleBackend_def)
  moreover have "promoteAttempts (deploymentState retryController ''dev'') = []"
    by (simp add: retryController_def newDeploymentState_def)
  ultimately show ?thesis
    by (intro retries_rotate [where ns = "''convex-dev''"])
      (simp_all add: standby_times zero_time_def P)
qed

section \<open>An unreachable incumbent is given its grace\<close>

text \<open>No live claim, and the incumbent's pod is discovered but does not answer.\<close>

definition unreachableRound :: "Config \<Rightarrow> string \<Rightarrow> string \<Rightarrow> round \<Rightarrow> bool" where
  "unreachableRound cf ns inc r =
     (case rd_discover r ns of Inl _ \<Rightarrow> False
      | Inr pods \<Rightarrow> noLiveClaim cf (rd_polls r) pods
          \<and> incumbentDiscoveredUnreachable (pollAll (rd_polls r) pods) inc)"

lemma firstUnreach_remember:
  "firstUnreach (fst (rememberLoop ps obs seen)) pod = firstUnreach obs pod"
  by (induction obs arbitrary: seen) simp_all

lemma unreachable_remember:
  "rememberTransitions cf st obs ps = (st', obs') \<Longrightarrow>
     incumbentDiscoveredUnreachable obs' inc = incumbentDiscoveredUnreachable obs inc"
  using rememberTransitions_split [of cf st obs ps st' obs']
  by (simp add: incumbentDiscoveredUnreachable_def firstUnreach_remember)

lemma unreachable_round:
  assumes ns: "Namespace (reg c) n = Some ns"
    and r: "unreachableRound (cfg c) ns (incumbentPod (deploymentState c n)) r"
    and now: "rd_now r \<noteq> zero_time"
    and since: "since = (if IsZero (incumbentUnreachableSince (deploymentState c n)) then rd_now r
                         else incumbentUnreachableSince (deploymentState c n))"
    and grace: "time_sub (rd_now r) since < UnreachableLeaderGrace (cfg c)"
  shows "\<exists>c'. runRound c n r = Some c' \<and> reg c' = reg c \<and> tasks c' = tasks c \<and> cfg c' = cfg c
    \<and> incumbentPod (deploymentState c' n) = incumbentPod (deploymentState c n)
    \<and> incumbentUnreachableSince (deploymentState c' n) = since"
proof -
  let ?st = "deploymentState c n" and ?st1 = "fst (setDiscoveryDown (deploymentState c n) False)"
  obtain pods where pods: "rd_discover r ns = Inr pods" and live: "noLiveClaim (cfg c) (rd_polls r) pods"
    and unre: "incumbentDiscoveredUnreachable (pollAll (rd_polls r) pods) (incumbentPod ?st)"
    using r by (auto simp: unreachableRound_def split: sum.splits)
  obtain st2 obs where rem: "rememberTransitions (cfg c) ?st1 (pollAll (rd_polls r) pods) (rd_start r) = (st2, obs)"
    by fastforce
  let ?p = "decideParamsOf (cfg c) st2 (rd_now r)"
  have "st2 = ?st1\<lparr>transitioningSeen := transitioningSeen st2\<rparr>" by (rule rememberTransitions_obs(4) [OF rem])
  then have st2: "incumbentPod st2 = incumbentPod ?st"
      "incumbentUnreachableSince st2 = incumbentUnreachableSince ?st"
    by (metis deploymentRecord.ext_inject deploymentRecord.surjective deploymentRecord.update_convs(9)
        setDiscoveryDown_fields(3,4))+
  have zero: "liveLeaderCount (decide obs ?p) = 0"
    using decide_count_polls [OF rememberTransitions_obs(1) [OF rem]] live by simp
  then have "claimedLeaders obs (dp_leaseUnverifiedGrace ?p) = []" by (simp add: decide_count_0)
  then have inc: "incumbentUnreachable (decide obs ?p)"
    using unre unreachable_remember [OF rem] st2 by (simp add: decide_leaderless decideParamsOf_def)
  obtain st3 streak es retain where
    com: "commitState (cfg c) st2 (decide obs ?p) False (rd_now r) = (st3, streak, es, retain)"
    by (metis prod_cases4)
  have keep: "retain" "incumbentUnreachableSince st3 = since" "incumbentPod st3 = incumbentPod ?st"
    using commitState_split [OF com] inc st2 since grace now
    by (auto simp: commitRetain_def Let_def IsZero_def split: if_splits)
  have ne: "pods \<noteq> []" using unre by (auto simp: incumbentDiscoveredUnreachable_def pollAll_def split: if_splits)
  let ?c3 = "putState (putState (putState c n ?st1) n st2) n st3"
  have "runRound c n r = Some ?c3"
    using reconcile_polls [where discover = "rd_discover r", OF ns pods, of "rd_polls r" "rd_start r" "rd_now r"]
      rem com ne zero keep(1) unfolding runRound_def
    by (simp add: Let_def reconcileAct_def act_def actLeaderless_def)
  then show ?thesis using keep by simp
qed

lemma unreachable_rounds:
  assumes "Namespace (reg c) n = Some ns" "zero_time < since"
    and "list_all (unreachableRound (cfg c) ns (incumbentPod (deploymentState c n))) rs"
    and "list_all (\<lambda>r. zero_time < rd_now r
          \<and> time_sub (rd_now r) since < UnreachableLeaderGrace (cfg c)) rs"
    and "incumbentUnreachableSince (deploymentState c n) = since"
  shows "\<exists>c'. runRounds c n rs = Some c' \<and> reg c' = reg c \<and> tasks c' = tasks c
    \<and> incumbentPod (deploymentState c' n) = incumbentPod (deploymentState c n)"
  using assms
proof (induction rs arbitrary: c)
  case (Cons r rs)
  have "\<exists>c1. runRound c n r = Some c1 \<and> reg c1 = reg c \<and> tasks c1 = tasks c \<and> cfg c1 = cfg c
    \<and> incumbentPod (deploymentState c1 n) = incumbentPod (deploymentState c n)
    \<and> incumbentUnreachableSince (deploymentState c1 n) = since"
    by (rule unreachable_round [OF Cons.prems(1)]) (use Cons.prems in \<open>simp_all add: IsZero_def\<close>)
  then obtain c1 where c1: "runRound c n r = Some c1" "reg c1 = reg c" "tasks c1 = tasks c" "cfg c1 = cfg c"
    "incumbentPod (deploymentState c1 n) = incumbentPod (deploymentState c n)"
    "incumbentUnreachableSince (deploymentState c1 n) = since" by blast
  then show ?case using Cons.IH [of c1] Cons.prems by simp
qed simp

text \<open>
  C30: a leader that stops answering while its pod is still discovered, and while no other pod
  makes a live claim to lead, stays published, and no promotion is started, in every round less than
  \<open>UnreachableLeaderGrace\<close> after the first such round, however many rounds that takes. (Should
  another pod claim to lead, the round is not of this kind: the claimant is published at once.)
\<close>

theorem unreachable_leader_retained:
  assumes "Namespace (reg c) n = Some ns"
    and "incumbentUnreachableSince (deploymentState c n) = zero_time"
    and "list_all (unreachableRound (cfg c) ns (incumbentPod (deploymentState c n))) (r # rs)"
    and "list_all (\<lambda>q. zero_time < rd_now q
          \<and> time_sub (rd_now q) (rd_now r) < UnreachableLeaderGrace (cfg c)) (r # rs)"
  shows "\<exists>c'. runRounds c n (r # rs) = Some c' \<and> reg c' = reg c \<and> tasks c' = tasks c
    \<and> incumbentPod (deploymentState c' n) = incumbentPod (deploymentState c n)"
proof -
  have "\<exists>c1. runRound c n r = Some c1 \<and> reg c1 = reg c \<and> tasks c1 = tasks c \<and> cfg c1 = cfg c
    \<and> incumbentPod (deploymentState c1 n) = incumbentPod (deploymentState c n)
    \<and> incumbentUnreachableSince (deploymentState c1 n) = rd_now r"
    by (rule unreachable_round [OF assms(1)]) (use assms in \<open>simp_all add: IsZero_def\<close>)
  then obtain c1 where c1: "runRound c n r = Some c1" "reg c1 = reg c" "tasks c1 = tasks c" "cfg c1 = cfg c"
    "incumbentPod (deploymentState c1 n) = incumbentPod (deploymentState c n)"
    "incumbentUnreachableSince (deploymentState c1 n) = rd_now r" by blast
  then show ?thesis using unreachable_rounds [of c1 n ns "rd_now r" rs] assms by simp
qed

definition silentRound :: "instant \<Rightarrow> round" where
  "silentRound t = \<lparr>rd_discover = (\<lambda>_. Inr [sampleBackend ''backend-0'' 100, sampleBackend ''backend-1'' 0]),
     rd_polls = (\<lambda>b. if Pod b = ''backend-0'' then None else Some standby),
     rd_start = t, rd_now = t + second\<rparr>"

theorem unreachable_leader_retained_witness:
  "\<exists>c'. runRounds sampleController ''dev''
      [silentRound second, silentRound (30 * second), silentRound (60 * second)] = Some c'
    \<and> reg c' = reg sampleController \<and> tasks c' = []"
proof -
  let ?rs = "[silentRound (30 * second), silentRound (60 * second)]"
  have u: "list_all (unreachableRound (cfg sampleController) ''convex-dev''
      (incumbentPod (deploymentState sampleController ''dev''))) (silentRound second # ?rs)"
    by (simp add: unreachableRound_def silentRound_def sampleController_facts noLiveClaim_def pollOne_def
        isLiveLeaderClaim_def noLeadership_def incumbentDiscoveredUnreachable_def pollAll_def
        sampleBackend_def standby_def)
  have g: "list_all (\<lambda>q. zero_time < rd_now q \<and> time_sub (rd_now q) (rd_now (silentRound second))
      < UnreachableLeaderGrace (cfg sampleController)) (silentRound second # ?rs)"
    by (simp add: silentRound_def sampleController_facts defaultConfig_simps)
  show ?thesis
    using unreachable_leader_retained [OF sampleController_facts(2) _ u g]
    by (auto simp: sampleController_facts newDeploymentState_def simp del: runRounds.simps)
qed

section \<open>A failback follows a stable window\<close>

text \<open>The pod incarnation is polled in the round and is promotable there.\<close>

definition candidateIn :: "string \<Rightarrow> string \<Rightarrow> i32 \<Rightarrow> round \<Rightarrow> bool" where
  "candidateIn ns pod rc r =
     (case rd_discover r ns of Inl _ \<Rightarrow> False
      | Inr pods \<Rightarrow> list_ex (\<lambda>ob. obPod ob = pod \<and> Restarts (be ob) = rc \<and> isPromotable ob)
                      (pollAll (rd_polls r) pods))"

text \<open>\<open>tracked rs f\<close>: the candidate of \<open>f\<close> was promotable in every round since its clock started.\<close>

definition tracked :: "string \<Rightarrow> round list \<Rightarrow> failbackState \<Rightarrow> bool" where
  "tracked ns rs f = (f = noFailback \<or>
     (\<exists>pre q qs. rs = pre @ q # qs \<and> rd_start q \<le> eligibleSince f
        \<and> list_all (candidateIn ns (candidate f) (restarts f)) (q # qs)))"

lemma promotable_reached:
  assumes "filter reach obs = filter reach obs'"
  shows "ob \<in> set obs \<and> isPromotable ob \<longleftrightarrow> ob \<in> set obs' \<and> isPromotable ob"
proof -
  have "ob \<in> set xs \<and> isPromotable ob \<longleftrightarrow> ob \<in> set (filter reach xs) \<and> isPromotable ob" for xs
    by (auto simp: isPromotable_def)
  then show ?thesis using assms by metis
qed

lemma evaluateFailback_state:
  assumes "evaluateFailback obs l q = (x, f)"
  shows "f = noFailback \<and> x = None \<or>
    (\<exists>ob \<in> set obs. obPod ob = candidate f \<and> Restarts (be ob) = restarts f \<and> isPromotable ob)
    \<and> (eligibleSince f = fb_now q \<or> f = prior q)"
proof (cases "enabled q")
  case True
  show ?thesis
  proof (cases "bestFailbackCandidate obs l (warmthLagNs q)")
    case None
    then show ?thesis using assms True by (simp add: evaluateFailback_def)
  next
    case (Some cand)
    then have "cand \<in> set obs \<and> failbackEligible l (warmthLagNs q) cand"
      unfolding bestFailbackCandidate_def
      using failback_pref.scan_mem [of _ None obs cand] by blast
    then have "cand \<in> set obs" "isPromotable cand" by (simp_all add: failbackEligible_def)
    then show ?thesis
      using assms True Some by (auto simp: evaluateFailback_def Let_def split: if_splits)
  qed
qed (use assms in \<open>simp add: evaluateFailback_def\<close>)

lemma decide_failback_state:
  "dec_failback (decide obs p) = noFailback \<and> failbackTarget (decide obs p) = None \<or>
    (\<exists>ob \<in> set obs. obPod ob = candidate (dec_failback (decide obs p))
       \<and> Restarts (be ob) = restarts (dec_failback (decide obs p)) \<and> isPromotable ob)
    \<and> (eligibleSince (dec_failback (decide obs p)) = fb_now (dp_failback p)
       \<or> dec_failback (decide obs p) = prior (dp_failback p))"
proof (cases obs p rule: decide_cases)
  case leaderless
  then show ?thesis by (auto simp: decide_leaderless retainedFailback_def list_ex_iff split: if_splits)
next
  case (led l)
  obtain x f where "evaluateFailback obs l (dp_failback p) = (x, f)" by fastforce
  from evaluateFailback_state [OF this] this show ?thesis by (auto simp: decide_led [OF refl led(1)])
qed

text \<open>\<open>act\<close> at most restarts the clock, at the poll start of the round.\<close>

lemma reconcileAct_failback:
  assumes "reconcileAct c n e dec streak es retain ps = Some c'"
  shows "failback (deploymentState c' n) = failback (deploymentState c n)
    \<or> failbackTarget dec \<noteq> None
      \<and> failback (deploymentState c' n) = (failback (deploymentState c n))\<lparr>eligibleSince := ps\<rparr>"
proof -
  have set: "failback (deploymentState c2 n) = failback (deploymentState c1 n)"
    if "setLeader c1 n pod url = Some c2" for c1 c2 pod url
    using setLeader_effect [OF that] by simp
  have demote: "failback (deploymentState (demoteAll c1 n ts) n) = failback (deploymentState c1 n)" for c1 ts
    using demoteAll_cases [of c1 n ts] by (elim disjE conjE) simp_all
  show ?thesis
    using assms
    by (auto simp: reconcileAct_def actEmptyDiscovery_def act_def actLeaderless_def actFailback_def Let_def
        tryAcquirePromote_def recordPromoteAttempt_def restartFailbackClock_def demote
        dest!: set split: if_splits option.splits)
qed

lemma tracked_now:
  "rd_start r \<le> eligibleSince f \<Longrightarrow> candidateIn ns (candidate f) (restarts f) r \<Longrightarrow> tracked ns (rs @ [r]) f"
  unfolding tracked_def by (rule disjI2, rule exI [of _ rs], rule exI [of _ r], rule exI [of _ "[]"]) simp

lemma tracked_extend:
  assumes "tracked ns rs f" "candidateIn ns (candidate f) (restarts f) r"
  shows "tracked ns (rs @ [r]) f"
proof (cases "f = noFailback")
  case False
  then obtain pre q qs where "rs = pre @ q # qs" "rd_start q \<le> eligibleSince f"
    "list_all (candidateIn ns (candidate f) (restarts f)) (q # qs)"
    using assms(1) by (auto simp: tracked_def)
  then show ?thesis
    unfolding tracked_def using assms(2)
    by (intro disjI2 exI [of _ pre] exI [of _ q] exI [of _ "qs @ [r]"]) simp
qed (simp add: tracked_def)

lemma tracked_none [simp]: "tracked ns rs noFailback"
  by (simp add: tracked_def)

lemma failback_round:
  assumes ns: "Namespace (reg c) n = Some ns" and run: "runRound c n r = Some c'"
    and times: "rd_start r \<le> rd_now r" and t: "tracked ns rs (failback (deploymentState c n))"
  shows "tracked ns (rs @ [r]) (failback (deploymentState c' n))"
proof (cases "rd_discover r ns")
  case (Inl err)
  have "runRound c n r = Some (putState c n (fst (setDiscoveryDown (deploymentState c n) True)))"
    unfolding runRound_def by (rule reconcile_discovery_error [where discover = "rd_discover r", OF ns Inl])
  then show ?thesis using run by (auto simp: tracked_def setDiscoveryDown_def Let_def)
next
  case (Inr pods)
  let ?st1 = "fst (setDiscoveryDown (deploymentState c n) False)"
  obtain st2 obs where rem: "rememberTransitions (cfg c) ?st1 (pollAll (rd_polls r) pods) (rd_start r) = (st2, obs)"
    by fastforce
  let ?p = "decideParamsOf (cfg c) st2 (rd_now r)"
  let ?f0 = "failback (deploymentState c n)" and ?f1 = "dec_failback (decide obs ?p)"
  obtain st3 streak es retain where
    com: "commitState (cfg c) st2 (decide obs ?p) (pods = []) (rd_now r) = (st3, streak, es, retain)"
    by (metis prod_cases4)
  have st3: "failback st3 = ?f1" using commitState_split [OF com] by simp
  have "st2 = ?st1\<lparr>transitioningSeen := transitioningSeen st2\<rparr>" by (rule rememberTransitions_obs(4) [OF rem])
  then have "failback st2 = failback ?st1"
    by (metis deploymentRecord.ext_inject deploymentRecord.surjective deploymentRecord.update_convs(9))
  then have prior: "prior (dp_failback ?p) = ?f0" "fb_now (dp_failback ?p) = rd_now r"
    by (simp_all add: decideParamsOf_def setDiscoveryDown_def Let_def)
  let ?c3 = "putState (putState (putState c n ?st1) n st2) n st3"
  have "reconcileAct ?c3 n (pods = []) (decide obs ?p) streak es retain (rd_start r) = Some c'"
    using reconcile_polls [where discover = "rd_discover r", OF ns Inr, of "rd_polls r" "rd_start r" "rd_now r"]
      rem com run unfolding runRound_def by (simp add: Let_def)
  from reconcileAct_failback [OF this] st3
  have f: "failback (deploymentState c' n) = ?f1
      \<or> failbackTarget (decide obs ?p) \<noteq> None
        \<and> failback (deploymentState c' n) = ?f1\<lparr>eligibleSince := rd_start r\<rparr>" by simp
  have here: "candidateIn ns (candidate ?f1) (restarts ?f1) r"
    if "\<exists>ob \<in> set obs. obPod ob = candidate ?f1 \<and> Restarts (be ob) = restarts ?f1 \<and> isPromotable ob"
    using that promotable_reached [OF rememberTransitions_obs(1) [OF rem]] Inr
    by (auto simp: candidateIn_def list_ex_iff)
  show ?thesis
    using decide_failback_state [of obs ?p] f here times prior tracked_extend [OF t] tracked_now
    by (elim disjE conjE) auto
qed

lemma failback_rounds:
  assumes "reg_inv (reg c)" "Namespace (reg c) n = Some ns" "failback (deploymentState c n) = noFailback"
    and "list_all (\<lambda>r. rd_start r \<le> rd_now r) rs" "runRounds c n rs = Some c'"
  shows "tracked ns rs (failback (deploymentState c' n)) \<and> Namespace (reg c') n = Some ns
    \<and> cfg c' = cfg c"
  using assms(4,5)
proof (induction rs arbitrary: c' rule: rev_induct)
  case Nil
  then show ?case using assms by simp
next
  case (snoc r rs)
  obtain c1 where c1: "runRounds c n rs = Some c1" "runRound c1 n r = Some c'"
    using snoc.prems(2) by (auto simp: runRounds_append split: option.splits)
  have I: "tracked ns rs (failback (deploymentState c1 n))" "Namespace (reg c1) n = Some ns" "cfg c1 = cfg c"
    using snoc.IH [OF _ c1(1)] snoc.prems(1) by simp_all
  have "frame c n c'" using runRounds_frame [OF assms(1)] snoc.prems(2) by (metis option.inject)
  then have "Namespace (reg c') n = Some ns" "cfg c' = cfg c" using assms(2) by (simp_all add: frame_def)
  then show ?case using failback_round [OF I(2) c1(2) _ I(1)] snoc.prems(1) by simp
qed

lemma failback_target_prior:
  assumes "failbackTarget (decide obs p) = Some t" "0 < stabilityWindow (dp_failback p)"
  shows "t \<in> set obs \<and> isPromotable t \<and> candidate (prior (dp_failback p)) = obPod t
    \<and> restarts (prior (dp_failback p)) = Restarts (be t)
    \<and> stabilityWindow (dp_failback p) \<le> time_sub (fb_now (dp_failback p)) (eligibleSince (prior (dp_failback p)))
    \<and> \<not> IsZero (eligibleSince (prior (dp_failback p)))"
proof (cases obs p rule: decide_cases)
  case leaderless
  then show ?thesis using assms(1) by (simp add: decide_leaderless)
next
  case (led l)
  have "fst (evaluateFailback obs l (dp_failback p)) = Some t"
    using assms(1) by (auto simp: decide_led [OF refl led(1)] split: if_splits)
  then obtain st where st: "evaluateFailback obs l (dp_failback p) = (Some t, st)"
    by (cases "evaluateFailback obs l (dp_failback p)") auto
  note F = evaluateFailback_Some [OF st]
  have "eligibleSince st \<noteq> fb_now (dp_failback p)" using F assms(2) by auto
  then show ?thesis using F by (auto simp: failbackEligible_def)
qed

text \<open>A promotion started over a live leader is a failback.\<close>

lemma led_promotion:
  assumes ns: "Namespace (reg c) n = Some ns" and pods: "rd_discover r ns = Inr pods" "pods \<noteq> []"
    and live: "\<not> noLiveClaim (cfg c) (rd_polls r) pods" and run: "runRound c n r = Some c'"
    and new: "filter isPromoteTask (tasks c') \<noteq> filter isPromoteTask (tasks c)"
    and pos: "0 < FailbackStability (cfg c)"
  shows "\<exists>t. filter isPromoteTask (tasks c') = filter isPromoteTask (tasks c) @ [(n, PromoteTask t)]
    \<and> candidateIn ns (obPod t) (Restarts (be t)) r
    \<and> candidate (failback (deploymentState c n)) = obPod t
    \<and> restarts (failback (deploymentState c n)) = Restarts (be t)
    \<and> FailbackStability (cfg c)
        \<le> time_sub (rd_now r) (eligibleSince (failback (deploymentState c n)))
    \<and> failback (deploymentState c n) \<noteq> noFailback"
proof -
  let ?st1 = "fst (setDiscoveryDown (deploymentState c n) False)"
  obtain st2 obs where rem: "rememberTransitions (cfg c) ?st1 (pollAll (rd_polls r) pods) (rd_start r) = (st2, obs)"
    by fastforce
  let ?p = "decideParamsOf (cfg c) st2 (rd_now r)"
  let ?dec = "decide obs ?p"
  obtain st3 streak es retain where com: "commitState (cfg c) st2 ?dec False (rd_now r) = (st3, streak, es, retain)"
    by (metis prod_cases4)
  have "st2 = ?st1\<lparr>transitioningSeen := transitioningSeen st2\<rparr>" by (rule rememberTransitions_obs(4) [OF rem])
  then have "failback st2 = failback ?st1"
    by (metis deploymentRecord.ext_inject deploymentRecord.surjective deploymentRecord.update_convs(9))
  then have prior: "prior (dp_failback ?p) = failback (deploymentState c n)" "fb_now (dp_failback ?p) = rd_now r"
    "stabilityWindow (dp_failback ?p) = FailbackStability (cfg c)"
    by (simp_all add: decideParamsOf_def setDiscoveryDown_def Let_def)
  have count: "liveLeaderCount ?dec > 0"
    using decide_count_polls [OF rememberTransitions_obs(1) [OF rem]] live by (metis gr0I)
  let ?c3 = "putState (putState (putState c n ?st1) n st2) n st3"
  have act: "act ?c3 n ?dec streak retain (rd_start r) = Some c'"
    using reconcile_polls [where discover = "rd_discover r", OF ns pods(1), of "rd_polls r" "rd_start r" "rd_now r"]
      rem com pods(2) run unfolding runRound_def by (simp add: Let_def reconcileAct_def)
  then obtain c4 where c4: "setLeader ?c3 n (dec_leaderPod ?dec) (dec_leaderURL ?dec) = Some c4"
    and c': "c' = (case failbackTarget ?dec of None \<Rightarrow> demoteAll c4 n (demotes ?dec)
        | Some t \<Rightarrow> actFailback (demoteAll c4 n (demotes ?dec)) n t (rd_start r))"
    using count by (auto simp: act_def Let_def split: option.splits)
  have ts: "filter isPromoteTask (tasks (demoteAll c4 n ds)) = filter isPromoteTask (tasks c)" for ds
    using setLeader_tasks [OF c4] by simp
  then obtain t where t: "failbackTarget ?dec = Some t"
    using new c' by (cases "failbackTarget ?dec") auto
  have "filter isPromoteTask (tasks c') = filter isPromoteTask (tasks c) @ [(n, PromoteTask t)]"
    using new c' t ts by (auto simp: actFailback_def isPromoteTask_def split: option.splits)
  moreover have G: "t \<in> set obs \<and> isPromotable t \<and> candidate (prior (dp_failback ?p)) = obPod t
    \<and> restarts (prior (dp_failback ?p)) = Restarts (be t)
    \<and> stabilityWindow (dp_failback ?p) \<le> time_sub (fb_now (dp_failback ?p)) (eligibleSince (prior (dp_failback ?p)))
    \<and> \<not> IsZero (eligibleSince (prior (dp_failback ?p)))"
    using failback_target_prior [OF t] pos prior(3) by simp
  moreover have "candidateIn ns (obPod t) (Restarts (be t)) r"
    using G promotable_reached [OF rememberTransitions_obs(1) [OF rem], of t] pods(1)
    by (auto simp: candidateIn_def list_ex_iff)
  ultimately show ?thesis using prior by (auto simp: noFailback_def IsZero_def)
qed

text \<open>
  C28: a failback follows a stable window: when a round with a live leader starts a promotion,
  its target has been polled and promotable, without a container restart, in every round of a
  stretch of rounds that ends with this one and began at least \<open>FailbackStability\<close> ago.
\<close>

theorem failback_after_stable_window:
  assumes "reg_inv (reg c)" and "Namespace (reg c) n = Some ns"
    and "failback (deploymentState c n) = noFailback"
    and "list_all (\<lambda>q. rd_start q \<le> rd_now q) (rs @ [r])"
    and "runRounds c n rs = Some c1" and "runRound c1 n r = Some c2"
    and "rd_discover r ns = Inr pods" and "pods \<noteq> []" and "\<not> noLiveClaim (cfg c) (rd_polls r) pods"
    and "filter isPromoteTask (tasks c2) \<noteq> filter isPromoteTask (tasks c1)"
    and "0 < FailbackStability (cfg c)"
  shows "\<exists>t pre q qs. filter isPromoteTask (tasks c2) = filter isPromoteTask (tasks c1) @ [(n, PromoteTask t)]
    \<and> rs = pre @ q # qs
    \<and> list_all (candidateIn ns (obPod t) (Restarts (be t))) (q # qs @ [r])
    \<and> FailbackStability (cfg c) \<le> time_sub (rd_now r) (rd_start q)"
proof -
  have F: "tracked ns rs (failback (deploymentState c1 n))" "Namespace (reg c1) n = Some ns" "cfg c1 = cfg c"
    using failback_rounds [OF assms(1,2,3) _ assms(5)] assms(4) by simp_all
  have "\<not> noLiveClaim (cfg c1) (rd_polls r) pods" "0 < FailbackStability (cfg c1)"
    using assms(9,11) F(3) by simp_all
  from led_promotion [OF F(2) assms(7,8) this(1) assms(6,10) this(2)]
  obtain t where t: "filter isPromoteTask (tasks c2) = filter isPromoteTask (tasks c1) @ [(n, PromoteTask t)]"
    "candidateIn ns (obPod t) (Restarts (be t)) r"
    "candidate (failback (deploymentState c1 n)) = obPod t"
    "restarts (failback (deploymentState c1 n)) = Restarts (be t)"
    "FailbackStability (cfg c) \<le> time_sub (rd_now r) (eligibleSince (failback (deploymentState c1 n)))"
    "failback (deploymentState c1 n) \<noteq> noFailback"
    using F(3) by auto
  then obtain pre q qs where q: "rs = pre @ q # qs" "rd_start q \<le> eligibleSince (failback (deploymentState c1 n))"
    "list_all (candidateIn ns (obPod t) (Restarts (be t))) (q # qs)"
    using F(1) t(3,4) by (auto simp: tracked_def)
  have "time_sub (rd_now r) (eligibleSince (failback (deploymentState c1 n))) \<le> time_sub (rd_now r) (rd_start q)"
    using q(2) by (auto simp: time_sub_def)
  then show ?thesis using t q by (intro exI [of _ t] exI [of _ pre] exI [of _ q] exI [of _ qs]) auto
qed

text \<open>A live leader of low priority with a healthy standby of high priority beside it.\<close>

definition failbackRound :: "instant \<Rightarrow> round" where
  "failbackRound t = \<lparr>rd_discover = (\<lambda>_. Inr [sampleBackend ''backend-0'' 100, sampleBackend ''backend-1'' 0]),
     rd_polls = (\<lambda>b. Some (if Pod b = ''backend-0'' then standby else noLeadership\<lparr>IsLeader := True\<rparr>)),
     rd_start = t, rd_now = t + second\<rparr>"

lemma failbackRound_facts:
  "rd_start (failbackRound t) \<le> rd_now (failbackRound t)"
  "rd_discover (failbackRound t) ns = Inr [sampleBackend ''backend-0'' 100, sampleBackend ''backend-1'' 0]"
  "\<not> noLiveClaim cf (rd_polls (failbackRound t)) [sampleBackend ''backend-0'' 100, sampleBackend ''backend-1'' 0]"
  by (simp_all add: failbackRound_def second_def noLiveClaim_def sampleBackend_def pollOne_def
      isLiveLeaderClaim_def noLeadership_def)

theorem failback_after_stable_window_witness:
  "\<exists>c1 c2 t. runRounds sampleController ''dev'' [failbackRound second] = Some c1
    \<and> runRound c1 ''dev'' (failbackRound (20 * second)) = Some c2
    \<and> filter isPromoteTask (tasks c2) = [(''dev'', PromoteTask t)]
    \<and> candidateIn ''convex-dev'' (obPod t) (Restarts (be t)) (failbackRound second)"
proof -
  have "case runRounds sampleController ''dev'' [failbackRound second] of None \<Rightarrow> False
   | Some c1 \<Rightarrow> tasks c1 = [] \<and>
      (case runRound c1 ''dev'' (failbackRound (20 * second)) of None \<Rightarrow> False
       | Some c2 \<Rightarrow> map fst (filter isPromoteTask (tasks c2)) = [''dev''])"
    by code_simp
  then obtain c1 c2 where run: "runRounds sampleController ''dev'' [failbackRound second] = Some c1"
    "tasks c1 = []" "runRound c1 ''dev'' (failbackRound (20 * second)) = Some c2"
    "map fst (filter isPromoteTask (tasks c2)) = [''dev'']"
    by (auto split: option.splits simp del: runRounds.simps)
  have new: "filter isPromoteTask (tasks c2) \<noteq> filter isPromoteTask (tasks c1)" using run(2,4) by auto
  have fb: "failback (deploymentState sampleController ''dev'') = noFailback"
    "0 < FailbackStability (cfg sampleController)"
    by (simp_all add: sampleController_facts defaultConfig_simps)
  have times: "list_all (\<lambda>q. rd_start q \<le> rd_now q) ([failbackRound second] @ [failbackRound (20 * second)])"
    by (simp add: failbackRound_facts)
  obtain t pre q qs where "filter isPromoteTask (tasks c2) = filter isPromoteTask (tasks c1) @ [(''dev'', PromoteTask t)]"
    "[failbackRound second] = pre @ q # qs"
    "list_all (candidateIn ''convex-dev'' (obPod t) (Restarts (be t))) (q # qs @ [failbackRound (20 * second)])"
    using failback_after_stable_window [OF sampleController_facts(1,2) fb(1) times run(1,3)
        failbackRound_facts(2) _ failbackRound_facts(3) new fb(2)] by auto
  then show ?thesis using run by (auto simp: Cons_eq_append_conv simp del: runRounds.simps)
qed

end
