(* ===== verification/Cluster.thy ===== *)
theory Cluster
  imports RouterLoop ElectionProgress
begin

text \<open>
  bigbrain and usher together: the interleaved election controller, whose registry changes while
  it runs, and the loops of a router that follow this registry (\<open>ElectionSafety\<close> and
  \<open>RouterLoop\<close>). What the router needs of a registry that evolves is discharged here by the
  controller, and every leader is traced back to the pod that claimed it.
\<close>

section \<open>Where a leader comes from\<close>

text \<open>In this state the polls of a round have just returned, and this pod claims to lead.\<close>

definition claimsIn :: "sys \<Rightarrow> string \<Rightarrow> string \<Rightarrow> string \<Rightarrow> bool" where
  "claimsIn s n pod url =
     (\<exists>ps e obs now. phases s n = Polled ps e obs now
        \<and> (\<exists>ob \<in> set obs. reach ob \<and> IsLeader (status ob) \<and> obPod ob = pod \<and> URL (be ob) = url))"

text \<open>A run from \<open>s0\<close> to \<open>s\<close> can pass through such a state.\<close>

definition claimedBefore :: "sys \<Rightarrow> sys \<Rightarrow> string \<Rightarrow> string \<Rightarrow> string \<Rightarrow> bool" where
  "claimedBefore s0 s n pod url =
     (\<exists>tr1 s1 tr2. run s0 tr1 s1 \<and> run s1 tr2 s \<and> claimsIn s1 n pod url)"

definition claims_ok :: "sys \<Rightarrow> sys \<Rightarrow> string \<Rightarrow> observation list \<Rightarrow> bool" where
  "claims_ok s0 s n obs =
     (\<forall>ob \<in> set obs. reach ob \<and> IsLeader (status ob) \<longrightarrow> claimedBefore s0 s n (obPod ob) (URL (be ob)))"

fun phase_ok :: "sys \<Rightarrow> sys \<Rightarrow> string \<Rightarrow> phase \<Rightarrow> bool" where
  "phase_ok s0 s n (Polled ps e obs now) = claims_ok s0 s n obs"
| "phase_ok s0 s n (Remembered ps e obs now) = claims_ok s0 s n obs"
| "phase_ok s0 s n (Committed ps e dec streak es retain) =
     (liveLeaderCount dec \<noteq> 0 \<longrightarrow> claimedBefore s0 s n (dec_leaderPod dec) (dec_leaderURL dec))"
| "phase_ok s0 s n p = True"

definition leader_ok :: "sys \<Rightarrow> sys \<Rightarrow> string \<Rightarrow> bool" where
  "leader_ok s0 s n =
     (let ev = fst (Leader (reg (ctl s)) n) in
      LeaderURL ev \<noteq> '''' \<longrightarrow> claimedBefore s0 s n (LeaderPod ev) (LeaderURL ev))"

definition traced :: "sys \<Rightarrow> sys \<Rightarrow> bool" where
  "traced s0 s = (\<forall>n. phase_ok s0 s n (phases s n) \<and> leader_ok s0 s n)"

lemma claimedBefore_step: "claimedBefore s0 s n pod url \<Longrightarrow> estep s e s' \<Longrightarrow> claimedBefore s0 s' n pod url"
  unfolding claimedBefore_def by (blast intro: run.step)

lemma claimed_now: "run s0 tr s \<Longrightarrow> claimsIn s n pod url \<Longrightarrow> claimedBefore s0 s n pod url"
  unfolding claimedBefore_def by (blast intro: run.start)

lemma claims_ok_step: "claims_ok s0 s n obs \<Longrightarrow> estep s e s' \<Longrightarrow> claims_ok s0 s' n obs"
  unfolding claims_ok_def by (blast intro: claimedBefore_step)

lemma phase_ok_step: "phase_ok s0 s n p \<Longrightarrow> estep s e s' \<Longrightarrow> phase_ok s0 s' n p"
  by (cases p) (auto intro: claims_ok_step claimedBefore_step)

lemma leader_ok_step:
  "leader_ok s0 s n \<Longrightarrow> estep s e s' \<Longrightarrow> Leader (reg (ctl s')) n = Leader (reg (ctl s)) n \<Longrightarrow> leader_ok s0 s' n"
  by (auto simp: leader_ok_def Let_def intro: claimedBefore_step)

lemma claims_ok_reached:
  "claims_ok s0 s n obs \<Longrightarrow> filter reach obs' = filter reach obs \<Longrightarrow> claims_ok s0 s n obs'"
  unfolding claims_ok_def by (metis (mono_tags, lifting) filter_set mem_Collect_eq set_filter)

lemma decided_claim:
  assumes "claims_ok s0 s n obs" and "liveLeaderCount (decide obs p) \<noteq> 0"
  shows "claimedBefore s0 s n (dec_leaderPod (decide obs p)) (dec_leaderURL (decide obs p))"
proof -
  have "claimedLeaders obs (dp_leaseUnverifiedGrace p) \<noteq> []" using assms(2) by (simp add: decide_count_0)
  then obtain l where l: "pickLeader (claimedLeaders obs (dp_leaseUnverifiedGrace p)) = Some l"
    using pickLeader_None by blast
  then have "l \<in> set (claimedLeaders obs (dp_leaseUnverifiedGrace p))"
    using leader_pref.scan_mem [of "\<lambda>_. True" None _ l] by (simp add: pickLeader_scan)
  then have "l \<in> set obs" "reach l" "IsLeader (status l)"
    by (auto simp: claimedLeaders_iff isLiveLeaderClaim_def split: if_splits)
  then show ?thesis using assms(1) by (simp add: claims_ok_def decide_led [OF refl l])
qed

text \<open>A step that moves one deployment, and perhaps publishes for it.\<close>

lemma traced_move:
  assumes "traced s0 s" and "estep s e s'" and "phase_ok s0 s' n (phases s' n)"
    and "\<And>m. m \<noteq> n \<Longrightarrow> phases s' m = phases s m"
    and "\<And>m. m \<noteq> n \<Longrightarrow> Leader (reg (ctl s')) m = Leader (reg (ctl s)) m"
    and "leader_ok s0 s' n"
  shows "traced s0 s'"
proof -
  have "phase_ok s0 s' m (phases s' m) \<and> leader_ok s0 s' m" for m
    using assms phase_ok_step [OF _ assms(2)] leader_ok_step [OF _ assms(2)]
    by (cases "m = n") (auto simp: traced_def)
  then show ?thesis by (simp add: traced_def)
qed

lemma traced_same_registry:
  assumes "traced s0 s" and "estep s e s'" and "phase_ok s0 s' n (phases s' n)"
    and "\<And>m. m \<noteq> n \<Longrightarrow> phases s' m = phases s m"
    and "\<And>m. Leader (reg (ctl s')) m = Leader (reg (ctl s)) m"
  shows "traced s0 s'"
  by (rule traced_move [OF assms(1-4)]) (use assms in \<open>auto simp: traced_def intro: leader_ok_step\<close>)

lemma traced_quiet:
  assumes "traced s0 s" and "estep s e s'" and "\<And>m. Leader (reg (ctl s')) m = Leader (reg (ctl s)) m"
    and "\<And>m. phase_ok s0 s' m (phases s m) \<Longrightarrow> phase_ok s0 s' m (phases s' m)"
  shows "traced s0 s'"
  using assms phase_ok_step [OF _ assms(2)] leader_ok_step [OF _ assms(2)] by (auto simp: traced_def)

lemma traced_publish:
  assumes "traced s0 s" and "estep s e s'" and "phase_ok s0 s' n (phases s' n)"
    and "\<And>m. m \<noteq> n \<Longrightarrow> phases s' m = phases s m"
    and "setLeader (ctl s) n pod url = Some (ctl s')" and "reg_inv (reg (ctl s))" and "isKnown (reg (ctl s)) n"
    and "url \<noteq> '''' \<Longrightarrow> claimedBefore s0 s n pod url"
  shows "traced s0 s'"
proof (rule traced_move [OF assms(1-4)])
  have upd: "Update (reg (ctl s)) n pod url = Some (reg (ctl s'))" using setLeader_effect [OF assms(5)] by blast
  show "Leader (reg (ctl s')) m = Leader (reg (ctl s)) m" if "m \<noteq> n" for m
    using store.upd_other [OF upd that] .
  have "LeaderPod (fst (Leader (reg (ctl s')) n)) = pod \<and> LeaderURL (fst (Leader (reg (ctl s')) n)) = url"
    using store.upd_leader [OF assms(7) upd] by simp
  then show "leader_ok s0 s' n" using assms(8) claimedBefore_step [OF _ assms(2)] by (simp add: leader_ok_def Let_def)
qed

lemma traced_step:
  assumes step: "estep s e s'" and r: "run s0 tr s" and ok: "traced s0 s" and reg: "registry_ok s"
  shows "traced s0 s'"
proof -
  have inv: "reg_inv (reg (ctl s))" using reg by (simp add: registry_ok_def)
  have known: "phases s n = p \<Longrightarrow> p \<noteq> phase.Idle \<Longrightarrow> isKnown (reg (ctl s)) n" for n p
    using reg by (auto simp: registry_ok_def)
  have was: "phase_ok s0 s n (phases s n)" for n using ok by (simp add: traced_def)
  note still = phase_ok_step [OF was step] and quiet = traced_quiet [OF ok step]
  note move = traced_same_registry [OF ok step] and publish = traced_publish [OF ok step _ _ _ inv]
  show ?thesis
    using step
  proof cases
    case (poll_end n ps pods t polls)
    have "phases s' n = Polled ps (pods = []) (pollAll polls pods) t" by (simp add: poll_end(2))
    then have "claimsIn s' n (obPod ob) (URL (be ob))"
      if "ob \<in> set (pollAll polls pods)" "reach ob" "IsLeader (status ob)" for ob
      unfolding claimsIn_def using that by blast
    then have "claims_ok s0 s' n (pollAll polls pods)"
      using claimed_now [OF run.step [OF r step]] by (auto simp: claims_ok_def)
    then show ?thesis by (intro move [of n]) (simp_all add: poll_end(2))
  next
    case (remember n ps e obs now st obs')
    have "claims_ok s0 s n obs" using was [of n] remember(3) by simp
    then have "claims_ok s0 s' n obs'"
      using claims_ok_reached [OF _ rememberTransitions_obs(1) [OF remember(4)]] claims_ok_step step by blast
    then show ?thesis by (intro move [of n]) (simp_all add: remember(2))
  next
    case (commit n ps e obs now c dec streak es retain)
    have c: "claims_ok s0 s n obs" using was [of n] commit(3) by simp
    have "\<exists>p. dec = decide obs p" using commit(4) by (auto simp: reconcileDecide_def Let_def split: prod.splits)
    then have "liveLeaderCount dec \<noteq> 0 \<longrightarrow> claimedBefore s0 s' n (dec_leaderPod dec) (dec_leaderURL dec)"
      using decided_claim [OF c] claimedBefore_step [OF _ step] by blast
    then show ?thesis
      using keepsD(1) [OF keeps_decide [OF commit(4)]] by (intro move [of n]) (simp_all add: commit(2))
  next
    case (set_leader n ps dec streak es retain c)
    have "claimedBefore s0 s n (dec_leaderPod dec) (dec_leaderURL dec)" using was [of n] set_leader(3,4) by simp
    then show ?thesis
      using set_leader known [OF set_leader(3)] by (intro publish [of n]) simp_all
  next
    case (empty_discovery n ps dec streak es retain c)
    then show ?thesis
      using empty_quiet [OF empty_discovery(4)] known [OF empty_discovery(3)] move [of n] publish [of n "''''" "''''"] by auto
  next
    case (leaderless_done n ps dec streak es retain c)
    then show ?thesis
      using leaderless_quiet [OF leaderless_done(6,5)] known [OF leaderless_done(3)] move [of n]
        publish [of n "''''" "''''"] by auto
  next
    case (clear_leader n ps target c)
    then show ?thesis using known [OF clear_leader(3)] publish [of n "''''" "''''"] by auto
  next
    case (discovered n d c pods)
    then show ?thesis by (intro move [of n]) (simp_all add: keepsD(1) [OF keeps_discover])
  next
    case (discovery_failed n d c)
    then show ?thesis by (intro move [of n]) (simp_all add: keepsD(1) [OF keeps_discover])
  next
    case (demote_extra n ps dec)
    then show ?thesis using demoteAll_cases [of "ctl s" n "demotes dec"] by (intro move [of n]) auto
  next
    case (subscribe n r k)
    then show ?thesis using still [of n] registry_clients(1) [OF subscribe(3)] by (intro move [of n]) simp_all
  next
    case (cancel n k r)
    then show ?thesis using still [of n] registry_clients(2) [OF cancel(3)] by (intro move [of n]) simp_all
  next
    case (receive k ev r)
    then show ?thesis using still registry_clients(3) [OF receive(3)] by (intro move [of "[]"]) simp_all
  qed (rule quiet; simp)+
qed

section \<open>Every run of the controller\<close>

lemma estep_registry:
  "estep s e s' \<Longrightarrow> reg (ctl s') = reg (ctl s) \<or> registry_step (reg (ctl s)) (reg (ctl s'))"
proof -
  have pub: "setLeader c n pod url = Some c' \<Longrightarrow> registry_step (reg c) (reg c')" for c n pod url c'
    using setLeader_effect registry_step.update by blast
  assume "estep s e s'"
  then show ?thesis
  proof cases
    case (empty_discovery n ps dec streak es retain c)
    then show ?thesis using empty_quiet [OF empty_discovery(4)] pub by auto
  next
    case (leaderless_done n ps dec streak es retain c)
    then show ?thesis using leaderless_quiet [OF leaderless_done(6,5)] pub by auto
  next
    case (demote_extra n ps dec)
    then show ?thesis using demoteAll_cases [of "ctl s" n "demotes dec"] by auto
  next
    case (commit n ps e obs now c dec streak es retain)
    then show ?thesis using keepsD(1) [OF keeps_decide [OF commit(4)]] by simp
  next
    case (discovered n d c pods)
    then show ?thesis by (simp add: keepsD(1) [OF keeps_discover])
  next
    case (discovery_failed n d c)
    then show ?thesis by (simp add: keepsD(1) [OF keeps_discover])
  qed (auto dest: pub registry_step.subscribe registry_step.cancel registry_step.receive)
qed

lemma registerAll_quiet:
  "registry_reachable r \<Longrightarrow> \<forall>n. LeaderURL (fst (Leader r n)) = '''' \<Longrightarrow>
     registry_reachable (registerAll r ds) \<and> (\<forall>n. LeaderURL (fst (Leader (registerAll r ds) n)) = '''')"
proof (induction ds arbitrary: r)
  case (Cons d ds)
  obtain n ns where d: "d = (n, ns)" by (cases d)
  have "\<forall>m. LeaderURL (fst (Leader (EnsureDeployment r n ns) m)) = ''''"
    using Cons.prems(2) by (auto simp: EnsureDeployment_def Leader_def split: option.splits)
  moreover have "registry_reachable (EnsureDeployment r n ns)"
    by (rule registry_reachable.step [OF Cons.prems(1) registry_step.ensure])
  ultimately show ?case using Cons.IH d by simp
qed simp

lemma start_quiet:
  "registry_reachable (reg (ctl (startSystem cf bs ds t0)))
    \<and> LeaderURL (fst (Leader (reg (ctl (startSystem cf bs ds t0))) n)) = ''''"
proof -
  have "\<forall>n. LeaderURL (fst (Leader (NewRegistry bs) n)) = ''''" by (simp add: NewRegistry_def Leader_def)
  from registerAll_quiet [OF registry_reachable.new this] show ?thesis
    by (simp add: startSystem_def NewController_def)
qed

lemma run_traced:
  assumes "run (startSystem cf bs ds t0) tr s" and "0 \<le> UnreachableLeaderGrace cf"
  shows "traced (startSystem cf bs ds t0) s"
  using assms(1)
proof induction
  case start
  then show ?case using start_quiet [of cf bs ds t0] by (simp add: traced_def leader_ok_def startSystem_def)
next
  case (step tr s e s')
  then show ?case using traced_step run_ok [OF step.hyps(1) assms(2)] by blast
qed

section \<open>A controller over time\<close>

text \<open>
  A run of the controller during which the 64-bit counter of deployment \<open>n\<close> does not wrap, and the
  states a process is in at each instant: later instants continue the run.
\<close>

inductive later :: "string \<Rightarrow> sys \<Rightarrow> sys \<Rightarrow> bool" for n where
  now: "later n s s"
| step: "later n s s' \<Longrightarrow> estep s' e s'' \<Longrightarrow> Seq (fst (Leader (reg (ctl s')) n)) \<noteq> - 1 \<Longrightarrow> later n s s''"

definition timeline :: "sys \<Rightarrow> string \<Rightarrow> (instant \<Rightarrow> sys) \<Rightarrow> bool" where
  "timeline s0 n h = ((\<forall>a. later n s0 (h a)) \<and> (\<forall>a b. a \<le> b \<longrightarrow> later n (h a) (h b)))"

lemma later_run: "later n s s' \<Longrightarrow> \<exists>tr. run s tr s'"
  by (induction rule: later.induct) (blast intro: run.start run.step)+

lemma later_evolves: "later n s s' \<Longrightarrow> evolves n (reg (ctl s)) (reg (ctl s'))"
proof (induction rule: later.induct)
  case (step s s' e s'')
  then show ?case using estep_registry [OF step.hyps(2)] by (metis evolves.step)
qed (rule evolves.same)

lemma later_reachable: "later n s s' \<Longrightarrow> registry_reachable (reg (ctl s)) \<Longrightarrow> registry_reachable (reg (ctl s'))"
proof (induction rule: later.induct)
  case (step s s' e s'')
  then show ?case using estep_registry [OF step.hyps(2)] registry_reachable.step by metis
qed

lemma timeline_evolving:
  assumes "timeline (startSystem cf bs ds t0) n h"
  shows "evolving (\<lambda>a. reg (ctl (h a))) n"
proof -
  have "registry_reachable (reg (ctl (h a)))" for a
    using assms later_reachable [of n _ "h a"] start_quiet unfolding timeline_def by blast
  then show ?thesis using assms later_evolves by (simp add: timeline_def evolving_def)
qed

text \<open>
  C3: the router follows the election. Whatever pods, network and scheduler do: while the polls of
  a router succeed, it forwards to the leader the controller had published at some instant of the
  last 66 seconds, to nobody if that was no leader, and otherwise to the URL of the pod that was
  the controller's incumbent at this instant; this very pod had answered a poll of the controller
  before and had claimed to lead. The router never forwards to a pod that made no such claim.
\<close>

theorem router_follows_election:
  assumes "timeline (startSystem cf bs ds t0) n h" and "0 \<le> UnreachableLeaderGrace cf"
    and "sendable parse (\<lambda>a. reg (ctl (h a))) n"
    and "loopReachable parse (\<lambda>a. reg (ctl (h a))) n s" and "\<not> l_failed s" and "l_heard s \<noteq> None"
  shows "\<exists>a. l_clock s - 66 * second \<le> a \<and> a \<le> l_clock s
    \<and> curURL (l_tracker s) = LeaderURL (fst (Leader (reg (ctl (h a))) n))
    \<and> currentLeader (l_tracker s) False = parsedURL parse (curURL (l_tracker s))
    \<and> (curURL (l_tracker s) \<noteq> '''' \<longrightarrow>
         (\<exists>tr1 s1 tr2. run (startSystem cf bs ds t0) tr1 s1 \<and> run s1 tr2 (h a)
            \<and> claimsIn s1 n (incumbentPod (deploymentState (ctl (h a)) n)) (curURL (l_tracker s))))"
proof -
  obtain a where a: "l_clock s - 66 * second \<le> a" "a \<le> l_clock s"
    "curURL (l_tracker s) = LeaderURL (fst (Leader (reg (ctl (h a))) n))"
    "currentLeader (l_tracker s) False = parsedURL parse (curURL (l_tracker s))"
    using router_staleness_bounded [OF assms(4) timeline_evolving [OF assms(1)] assms(3,5,6)] by metis
  obtain tr where tr: "run (startSystem cf bs ds t0) tr (h a)"
    using assms(1) later_run unfolding timeline_def by blast
  have "leader_ok (startSystem cf bs ds t0) (h a) n" using run_traced [OF tr assms(2)] by (simp add: traced_def)
  moreover have "LeaderPod (fst (Leader (reg (ctl (h a))) n)) = incumbentPod (deploymentState (ctl (h a)) n)"
    using run_ok [OF tr assms(2)] by (simp add: registry_ok_def)
  ultimately show ?thesis using a unfolding leader_ok_def claimedBefore_def Let_def by metis
qed

text \<open>A controller that has found a leader, and a router that has polled it.\<close>

definition sampleLeader :: Backend where
  "sampleLeader = \<lparr>Pod = ''backend-0'', URL = ''http://a:3210'', Priority = 1, Restarts = 0\<rparr>"

definition sampleClaim :: observation where
  "sampleClaim = pollOne sampleLeader (Some (noLeadership\<lparr>IsLeader := True\<rparr>))"

lemma sample_decision:
  "dec_leaderPod (decide [sampleClaim] p) = ''backend-0'' \<and> dec_leaderURL (decide [sampleClaim] p) = ''http://a:3210''
    \<and> liveLeaderCount (decide [sampleClaim] p) \<noteq> 0"
proof -
  have c: "claimedLeaders [sampleClaim] (dp_leaseUnverifiedGrace p) = [sampleClaim]"
    by (simp add: claimedLeaders_def isLiveLeaderClaim_def sampleClaim_def pollOne_def noLeadership_def)
  then show ?thesis
    using decide_led [OF c [symmetric], of sampleClaim] decide_count [of "[sampleClaim]" p]
    by (simp add: sampleClaim_def pollOne_def sampleLeader_def)
qed

lemma sample_election:
  "\<exists>s. later ''dev'' sampleSystem s \<and> reg (ctl s) = sampleUpdated"
proof -
  let ?n = "''dev''"
  note F = sampleSystem_facts
  have seq: "Seq (fst (Leader sampleRegistry ?n)) \<noteq> - 1" "Seq (fst (Leader sampleSubscribed ?n)) \<noteq> - 1"
    "Namespace sampleSubscribed ?n = Some ''convex-dev''"
    by code_simp+
  define s1 where "s1 = sampleSystem\<lparr>ctl := (ctl sampleSystem)\<lparr>reg := sampleSubscribed\<rparr>\<rparr>"
  have "estep sampleSystem Silent s1"
    unfolding s1_def by (rule estep.subscribe [where n = ?n and k = 0]) (simp add: F(1) sampleSubscribed_eq)
  then have l1: "later ?n sampleSystem s1" using later.step [OF later.now] seq(1) F(1) by simp
  have s1: "reg (ctl s1) = sampleSubscribed" "phases s1 ?n = phase.Idle" "clock s1 = 0"
    using F(7,8) by (simp_all add: s1_def)
  obtain c2 where c2: "reconcileDiscover (ctl s1) ?n (\<lambda>_. Inr [sampleLeader] :: string + Backend list) = (c2, Some [sampleLeader])"
    using s1(1) seq(3) by (simp add: reconcileDiscover_def Let_def)
  have r2: "reg c2 = sampleSubscribed" using keepsD(1) [OF keeps_discover [OF c2]] s1(1) by simp
  define s2 where "s2 = ElectionSafety.at s1 ?n (Discovered [sampleLeader]) c2"
  have l2: "later ?n sampleSystem s2"
    unfolding s2_def by (rule later.step [OF l1 estep.discovered [OF s1(2) c2]]) (simp add: s1(1) seq(2))
  define s3 where "s3 = tick (ElectionSafety.at s2 ?n (Polling 1 [sampleLeader]) (ctl s2)) 1"
  have l3: "later ?n sampleSystem s3"
    unfolding s3_def by (rule later.step [OF l2 estep.poll_begin]) (simp_all add: s2_def r2 seq(2) s1(3))
  define s4 where "s4 = tick (ElectionSafety.at s3 ?n (Polled 1 ([sampleLeader] = []) (pollAll (\<lambda>_. Some (noLeadership\<lparr>IsLeader := True\<rparr>)) [sampleLeader]) 1) (ctl s3)) 1"
  have l4: "later ?n sampleSystem s4"
    unfolding s4_def by (rule later.step [OF l3 estep.poll_end]) (simp_all add: s3_def s2_def r2 seq(2))
  have p4: "phases s4 ?n = Polled 1 False [sampleClaim] 1" "reg (ctl s4) = sampleSubscribed"
    by (simp_all add: s4_def s3_def s2_def r2 pollAll_def sampleClaim_def)
  obtain st obs where rem: "rememberTransitions (cfg (ctl s4)) (deploymentState (ctl s4) ?n) [sampleClaim] 1 = (st, obs)"
    by (cases "rememberTransitions (cfg (ctl s4)) (deploymentState (ctl s4) ?n) [sampleClaim] 1")
  have "reach sampleClaim" by (simp add: sampleClaim_def pollOne_def)
  then have "filter reach obs = [sampleClaim]" "length obs = length [sampleClaim]"
    using rememberTransitions_obs(1,2) [OF rem] by (auto dest: map_eq_imp_length_eq)
  then have obs: "obs = [sampleClaim]" by (cases obs) (auto split: if_splits)
  define s5 where "s5 = ElectionSafety.at s4 ?n (Remembered 1 False [sampleClaim] 1) (putState (ctl s4) ?n st)"
  have l5: "later ?n sampleSystem s5"
    unfolding s5_def by (rule later.step [OF l4 estep.remember [OF p4(1) rem [unfolded obs]]]) (simp add: p4(2) seq(2))
  have p5: "phases s5 ?n = Remembered 1 False [sampleClaim] 1" "reg (ctl s5) = sampleSubscribed"
    by (simp_all add: s5_def p4(2))
  obtain c6 dec streak es retain where dec: "reconcileDecide (ctl s5) ?n [sampleClaim] 1 = (c6, dec, streak, es, retain)"
    by (cases "reconcileDecide (ctl s5) ?n [sampleClaim] 1")
  have "\<exists>p. dec = decide [sampleClaim] p" using dec by (auto simp: reconcileDecide_def Let_def split: prod.splits)
  then have d: "dec_leaderPod dec = ''backend-0''" "dec_leaderURL dec = ''http://a:3210''" "liveLeaderCount dec \<noteq> 0"
    using sample_decision by auto
  define s6 where "s6 = ElectionSafety.at s5 ?n (Committed 1 False dec streak es retain) c6"
  have l6: "later ?n sampleSystem s6"
    unfolding s6_def by (rule later.step [OF l5 estep.commit [OF p5(1) dec]]) (simp add: p5(2) seq(2))
  have r6: "reg (ctl s6) = sampleSubscribed" "phases s6 ?n = Committed 1 False dec streak es retain"
    using keepsD(1) [OF keeps_decide [OF dec]] p5(2) by (simp_all add: s6_def)
  obtain c7 where c7: "setLeader (ctl s6) ?n (dec_leaderPod dec) (dec_leaderURL dec) = Some c7"
    using sampleUpdated_eq r6(1) d(1,2) by (simp add: setLeader_def Let_def)
  have "later ?n sampleSystem (ElectionSafety.at s6 ?n (LeaderSet 1 dec) c7)"
    by (rule later.step [OF l6 estep.set_leader [OF r6(2) d(3) c7]]) (simp add: r6(1) seq(2))
  moreover have "reg c7 = sampleUpdated" using setLeader_effect [OF c7] sampleUpdated_eq r6(1) d(1,2) by simp
  ultimately show ?thesis by (intro exI conjI) (assumption, simp)
qed

theorem router_follows_election_witness:
  "\<exists>h tr1 s1 tr2. run sampleSystem tr1 s1 \<and> run s1 tr2 h \<and> reg (ctl h) = sampleUpdated
    \<and> claimsIn s1 ''dev'' (incumbentPod (deploymentState (ctl h) ''dev'')) ''http://a:3210''
    \<and> curURL (l_tracker sampleAnswered) = ''http://a:3210''"
proof -
  obtain h where h: "later ''dev'' sampleSystem h" "reg (ctl h) = sampleUpdated" using sample_election by blast
  have t: "timeline (startSystem DefaultConfig [1, 0, 0, 0, 0, 0, 0, 0] [(''dev'', ''convex-dev'')] 0) ''dev'' (\<lambda>_. h)"
    using h(1) by (simp add: timeline_def later.now sampleSystem_def)
  have "Published sampleUpdated ''dev''" by code_simp
  then have q: "\<not> l_failed sampleAnswered" "l_heard sampleAnswered \<noteq> None"
    using poll_query [OF sample_reachable(3) sample_reply, of "pollReply (Some (0, 200, LeaderPayload (fst (Leader sampleUpdated ''dev''))))"]
      sample_sendable sample_reply
    by (simp_all add: sampleAnswered_def endPoll_def sendable_def eventAt_def pollReply_def sampleLoop_def
        beginLoop_def startLoop_def)
  have url: "LeaderURL (fst (Leader sampleUpdated ''dev'')) = ''http://a:3210''" by code_simp
  have grace: "0 \<le> UnreachableLeaderGrace DefaultConfig" by (simp add: defaultConfig_simps)
  have s: "sendable sampleParse (\<lambda>a. reg (ctl h)) ''dev''" "loopReachable sampleParse (\<lambda>a. reg (ctl h)) ''dev'' sampleAnswered"
    using sample_sendable sampleAnswered_reachable h(2) by simp_all
  obtain tr1 s1 tr2 where "run sampleSystem tr1 s1" "run s1 tr2 h" "curURL (l_tracker sampleAnswered) = ''http://a:3210''"
    "claimsIn s1 ''dev'' (incumbentPod (deploymentState (ctl h) ''dev'')) ''http://a:3210''"
    using router_follows_election [OF t grace s q] url h(2) unfolding sampleSystem_def by auto
  then show ?thesis using h(2) by blast
qed

end
