(* ===== verification/GoTicker.thy ===== *)
theory GoTicker
  imports Prelude
begin

text \<open>
  A loop driven by a \<open>time.Ticker\<close>: a round at once, then one per tick. A ticker that was started
  at \<open>t0\<close> fires every \<open>iv\<close>; its channel holds one tick, and ticks that find it full are dropped.
  So a round that began at \<open>s\<close> is followed by the first tick after \<open>s\<close>, or by its own end if that
  comes later. Both \<open>runDeployment\<close> of the election and \<open>Run\<close> of the scraper are such loops.
\<close>

definition tickAfter :: "duration \<Rightarrow> instant \<Rightarrow> instant \<Rightarrow> instant" where
  "tickAfter iv t0 s = t0 + ((s - t0) div iv + 1) * iv"

definition nextRound :: "duration \<Rightarrow> instant \<Rightarrow> instant \<Rightarrow> instant \<Rightarrow> instant" where
  "nextRound iv t0 s e = max e (tickAfter iv t0 s)"

text \<open>The starts of rounds that end at the given instants, the first of which starts at \<open>s\<close>.\<close>

fun roundStarts :: "duration \<Rightarrow> instant \<Rightarrow> instant \<Rightarrow> instant list \<Rightarrow> instant list" where
  "roundStarts iv t0 s [] = []"
| "roundStarts iv t0 s (e # es) = s # roundStarts iv t0 (nextRound iv t0 s e) es"

lemma length_roundStarts [simp]: "length (roundStarts iv t0 s es) = length es"
  by (induction es arbitrary: s) simp_all

lemma tickAfter_bounds: "0 < iv \<Longrightarrow> s < tickAfter iv t0 s \<and> tickAfter iv t0 s \<le> s + iv"
proof -
  assume iv: "0 < iv"
  have "s - t0 = (s - t0) div iv * iv + (s - t0) mod iv" by simp
  moreover have "0 \<le> (s - t0) mod iv" "(s - t0) mod iv < iv" using iv by simp_all
  ultimately show ?thesis unfolding tickAfter_def distrib_right by linarith
qed

section \<open>Loops whose rounds take limited time\<close>

locale ticked_loop =
  fixes iv lim :: duration
  assumes iv_pos: "0 < iv" and iv_lim: "iv \<le> lim"
begin

lemma next_after: "s < nextRound iv t0 s e \<and> e \<le> nextRound iv t0 s e"
  using tickAfter_bounds [OF iv_pos, of s t0] by (auto simp: nextRound_def less_max_iff_disj)

lemma next_soon: "e \<le> s + lim \<Longrightarrow> nextRound iv t0 s e \<le> s + lim"
  using tickAfter_bounds [OF iv_pos, of s t0] iv_lim by (simp add: nextRound_def)

text \<open>A round is never started for the tick of an earlier one: at most one round per tick.\<close>

lemma one_per_tick: "(s - t0) div iv < (nextRound iv t0 s e - t0) div iv"
proof -
  have "tickAfter iv t0 s - t0 \<le> nextRound iv t0 s e - t0" by (simp add: nextRound_def)
  then have "(tickAfter iv t0 s - t0) div iv \<le> (nextRound iv t0 s e - t0) div iv"
    using iv_pos by (simp add: zdiv_mono1)
  moreover have "(tickAfter iv t0 s - t0) div iv = (s - t0) div iv + 1"
    using iv_pos by (simp add: tickAfter_def)
  ultimately show ?thesis by linarith
qed

text \<open>Rounds that take at most \<open>lim\<close> also start at most \<open>lim\<close> apart.\<close>

lemma starts_soon:
  assumes "list_all2 (\<lambda>s e. s \<le> e \<and> e \<le> s + lim) (roundStarts iv t0 s (es @ [e])) (es @ [e])"
  shows "s \<le> last (roundStarts iv t0 s (es @ [e])) \<and> last (roundStarts iv t0 s (es @ [e])) \<le> s + int (length es) * lim
    \<and> (es \<noteq> [] \<longrightarrow> s < last (roundStarts iv t0 s (es @ [e])))
    \<and> last (roundStarts iv t0 s (es @ [e])) \<le> e \<and> e \<le> last (roundStarts iv t0 s (es @ [e])) + lim"
  using assms
proof (induction es arbitrary: s)
  case (Cons d es)
  let ?s = "nextRound iv t0 s d"
  have d: "d \<le> s + lim" and r: "list_all2 (\<lambda>s e. s \<le> e \<and> e \<le> s + lim) (roundStarts iv t0 ?s (es @ [e])) (es @ [e])"
    using Cons.prems by simp_all
  have "last (roundStarts iv t0 s ((d # es) @ [e])) = last (roundStarts iv t0 ?s (es @ [e]))"
    using length_roundStarts [of iv t0 ?s "es @ [e]"] by (auto simp del: length_roundStarts)
  then show ?case
    using Cons.IH [OF r] next_soon [OF d, of t0] next_after [of s t0 d] by (auto simp: algebra_simps)
qed simp

end

end
