(* ===== verification/Pacing.thy ===== *)
theory Pacing
  imports ElectionFacts GoTicker
begin

text \<open>
  The rounds of a deployment in time (\<open>runDeployment\<close> of \<open>election.go\<close> with the deadlines of
  \<open>reconcile\<close> and \<open>pollAll\<close>): a ticker starts them, the discovery and the polls are cut off by
  their contexts, and what follows the polls takes no time.
\<close>

definition discoverTimeout :: duration where "discoverTimeout = 5 * second"
definition pollTimeout :: duration where "pollTimeout = 2 * second"

text \<open>A round that starts at \<open>s\<close>; without pods to poll it ends when it would have polled.\<close>

definition roundInTime :: "instant \<Rightarrow> round \<Rightarrow> bool" where
  "roundInTime s r =
     (s \<le> rd_start r \<and> rd_start r \<le> s + discoverTimeout
      \<and> rd_start r \<le> rd_now r \<and> rd_now r \<le> rd_start r + pollTimeout)"

text \<open>The rounds of a loop whose ticker was started at \<open>t0\<close>, from the one that starts at \<open>s\<close> on.\<close>

definition roundsInTime :: "duration \<Rightarrow> instant \<Rightarrow> instant \<Rightarrow> round list \<Rightarrow> bool" where
  "roundsInTime iv t0 s rs = list_all2 roundInTime (roundStarts iv t0 s (map rd_now rs)) rs"

interpretation election_loop: ticked_loop "Interval DefaultConfig" "discoverTimeout + pollTimeout"
  by unfold_locales (simp_all add: DefaultConfig_def discoverTimeout_def pollTimeout_def second_def)

lemma roundsInTime_limits:
  "roundsInTime iv t0 s rs \<Longrightarrow>
     list_all2 (\<lambda>s e. s \<le> e \<and> e \<le> s + (discoverTimeout + pollTimeout)) (roundStarts iv t0 s (map rd_now rs)) (map rd_now rs)"
  by (auto simp: roundsInTime_def list.rel_map roundInTime_def elim: list_all2_mono)

lemma last_round_start:
  assumes "roundsInTime iv t0 s (rs @ [r])"
  shows "roundInTime (last (roundStarts iv t0 s (map rd_now rs @ [rd_now r]))) r"
proof -
  let ?ss = "roundStarts iv t0 s (map rd_now rs @ [rd_now r])"
  have "length ?ss = length rs + 1" by simp
  then have "?ss = butlast ?ss @ [last ?ss]" "length (butlast ?ss) = length rs"
    using append_butlast_last_id [of ?ss] by (fastforce, simp)
  then show ?thesis
    using assms list_all2_append [of "butlast ?ss" rs roundInTime "[last ?ss]" "[r]"]
    by (simp add: roundsInTime_def)
qed

text \<open>
  C6: failover to a standby happens in time. The leader is lost at some instant and the round in
  progress ends as it likes. Suppose that no promotion is in flight then and no leaderless round has
  been counted, that remembered transitions are older than the polls to come, and that in each of
  the \<open>PromoteDebounce\<close> rounds that follow discovery works, every discovered pod answers its poll, none
  claims to lead, none is mid-transition and some pod is promotable; rounds come with the ticker, of
  an interval of at most 7 seconds, and keep their deadlines. Then the rounds but the last publish and
  promote nothing, and the last one publishes leaderless and starts exactly one promotion, of a
  promotable pod it polled, at most \<open>PromoteDebounce + 1\<close> times seven seconds (by default 28
  seconds) after the loss. (A leader that is still discovered but does not answer is outside these
  conditions: it is retained for \<open>UnreachableLeaderGrace\<close>, see \<open>ElectionProgress\<close>.)
\<close>

theorem failover_in_seconds:
  assumes "reg_inv (reg c)" and "Namespace (reg c) name = Some ns"
    and "leaderlessStreak (deploymentState c name) = 0" and "\<not> promoting (deploymentState c name)"
    and "int (length (rs @ [r])) = PromoteDebounce (cfg c)" and "PromoteDebounce (cfg c) \<le> max_int64"
    and "list_all (failoverRound ns) (rs @ [r])"
    and "list_all (\<lambda>q. marksBefore (deploymentState c name) (rd_start q)) (rs @ [r])"
    and "0 < Interval (cfg c)" and "Interval (cfg c) \<le> 7 * second"
    and "roundsInTime (Interval (cfg c)) t0 s (p # rs @ [r])" and "s \<le> lost"
  shows "\<exists>c1 c' pods t. runRounds c name rs = Some c1 \<and> tasks c1 = tasks c \<and> reg c1 = reg c
    \<and> runRounds c name (rs @ [r]) = Some c'
    \<and> tasks c' = tasks c @ [(name, PromoteTask t)] \<and> isPromotable t
    \<and> rd_discover r ns = Inr pods \<and> t \<in> set (pollAll (rd_polls r) pods)
    \<and> \<not> snd (Leader (reg c') name) \<and> Published (reg c') name
    \<and> s < rd_start r \<and> rd_now r \<le> lost + (PromoteDebounce (cfg c) + 1) * (7 * second)"
proof -
  have seven: "discoverTimeout + pollTimeout = 7 * second"
    by (simp add: discoverTimeout_def pollTimeout_def)
  have loop: "ticked_loop (Interval (cfg c)) (discoverTimeout + pollTimeout)"
    using assms(9,10) seven by unfold_locales simp_all
  let ?last = "last (roundStarts (Interval (cfg c)) t0 s (map rd_now (p # rs) @ [rd_now r]))"
  have l: "s < ?last \<and> ?last \<le> s + int (length (p # rs)) * (7 * second)"
    using ticked_loop.starts_soon [OF loop, of t0 s "map rd_now (p # rs)" "rd_now r"]
      roundsInTime_limits [OF assms(11)] seven by simp
  have "roundInTime ?last r" using last_round_start [of _ t0 s "p # rs" r] assms(11) by simp
  then have "s < rd_start r" "rd_now r \<le> ?last + 7 * second"
    using l seven by (auto simp: roundInTime_def)
  moreover have "int (length (p # rs)) = PromoteDebounce (cfg c)" using assms(5) by simp
  ultimately have "s < rd_start r \<and> rd_now r \<le> lost + (PromoteDebounce (cfg c) + 1) * (7 * second)"
    using l assms(12) by (simp add: distrib_right)
  then show ?thesis using failover_on_time [OF assms(1-8)] by blast
qed

theorem failover_in_seconds_witness:
  "\<exists>c' t. runRounds sampleController ''dev'' [standbyRound (2 * second), standbyRound (4 * second), standbyRound (6 * second)]
      = Some c' \<and> tasks c' = [(''dev'', PromoteTask t)] \<and> isPromotable t \<and> 6 * second + 1 \<le> 28 * second"
proof -
  let ?rs = "[standbyRound (2 * second), standbyRound (4 * second)]" and ?r = "standbyRound (6 * second)"
  have f: "list_all (failoverRound ''convex-dev'') (?rs @ [?r])"
    by (simp add: failoverRound_def standbyRound_def pollAll_def pollOne_def standby_def
        noLeadership_def isTransitioning_def isPromotable_def)
  have m: "list_all (\<lambda>q. marksBefore (deploymentState sampleController ''dev'') (rd_start q)) (?rs @ [?r])"
    by (simp add: sampleController_facts marksBefore_def newDeploymentState_def)
  have t: "roundsInTime (Interval (cfg sampleController)) 0 0 (standbyRound 0 # ?rs @ [?r])"
    by (simp add: roundsInTime_def roundInTime_def standbyRound_def sampleController_facts DefaultConfig_def
        nextRound_def tickAfter_def discoverTimeout_def pollTimeout_def second_def)
  from failover_in_seconds [OF sampleController_facts(1,2) _ _ _ _ f m _ _ t, of 0]
  show ?thesis
    by (auto simp: sampleController_facts defaultConfig_simps newDeploymentState_def DefaultConfig_def second_def standbyRound_def)
qed

end
