(* ===== verification/BackendApi.thy ===== *)
theory BackendApi
  imports BackendClient JsonFacts
begin

text \<open>
  The body a backend answers a poll with (\<open>Leadership\<close> of \<open>backend/backend.go\<close>), decoded by
  \<open>encoding/json\<close>: which members count, and what a poll makes of a complete answer.
\<close>

definition leadershipFields :: "Leadership field list" where
  "leadershipFields =
     [(''role'', \<lambda>v l. map_option (\<lambda>x. l\<lparr>Role := x\<rparr>) (decodeString v (Role l))),
      (''is_leader'', \<lambda>v l. map_option (\<lambda>x. l\<lparr>IsLeader := x\<rparr>) (decodeBool v (IsLeader l))),
      (''latest_ts'', \<lambda>v l. map_option (\<lambda>x. l\<lparr>LatestTS := x\<rparr>) (decodeUint v (LatestTS l))),
      (''lease_ts'', \<lambda>v l. map_option (\<lambda>x. l\<lparr>LeaseTS := x\<rparr>) (decodeUintPtr v)),
      (''lease_unverified_secs'', \<lambda>v l. map_option (\<lambda>x. l\<lparr>LeaseUnverifiedSecs := x\<rparr>) (decodeUintPtr v)),
      (''tailer_healthy'', \<lambda>v l. map_option (\<lambda>x. l\<lparr>TailerHealthy := x\<rparr>) (decodeBool v (TailerHealthy l)))]"

definition decodeLeadership :: "'e \<Rightarrow> string \<Rightarrow> 'e + Leadership" where
  "decodeLeadership err body =
     (case parseJson body of
        None \<Rightarrow> Inl err
      | Some v \<Rightarrow> (case decodeStruct False leadershipFields v noLeadership of None \<Rightarrow> Inl err | Some l \<Rightarrow> Inr l))"

section \<open>Members of an object\<close>

text \<open>The member a field is read from: names are compared after folding.\<close>

definition memberOf :: "(string \<times> json) list \<Rightarrow> string \<Rightarrow> json option" where
  "memberOf kvs name = map_of (map (\<lambda>(k, v). (foldName k, v)) kvs) (foldName name)"

definition readMember :: "(json \<Rightarrow> 'a \<Rightarrow> 'a option) \<Rightarrow> (string \<times> json) list \<Rightarrow> string \<Rightarrow> 'a \<Rightarrow> 'a option" where
  "readMember f kvs name old = (case memberOf kvs name of None \<Rightarrow> Some old | Some v \<Rightarrow> f v old)"

lemma leadership_names:
  "foldName ''role'' = ''ROLE''" "foldName ''is_leader'' = ''IS_LEADER''" "foldName ''latest_ts'' = ''LATEST_TS''"
  "foldName ''lease_ts'' = ''LEASE_TS''" "foldName ''lease_unverified_secs'' = ''LEASE_UNVERIFIED_SECS''"
  "foldName ''tailer_healthy'' = ''TAILER_HEALTHY''"
  by code_simp+

lemma member_Cons: "memberOf ((k, v) # kvs) name = (if foldName k = foldName name then Some v else memberOf kvs name)"
  by (simp add: memberOf_def)

lemma member_None: "foldName name \<notin> set (map (foldName \<circ> fst) kvs) \<Longrightarrow> memberOf kvs name = None"
  by (induction kvs) (auto simp: memberOf_def)

text \<open>
  The fields of an object with pairwise different names, read one by one, in whatever order the
  members come.
\<close>

definition statusFrom :: "(string \<times> json) list \<Rightarrow> Leadership \<Rightarrow> Leadership option" where
  "statusFrom kvs l =
     do {
       a \<leftarrow> readMember decodeString kvs ''role'' (Role l);
       b \<leftarrow> readMember decodeBool kvs ''is_leader'' (IsLeader l);
       c \<leftarrow> readMember decodeUint kvs ''latest_ts'' (LatestTS l);
       d \<leftarrow> readMember (\<lambda>v _. decodeUintPtr v) kvs ''lease_ts'' (LeaseTS l);
       e \<leftarrow> readMember (\<lambda>v _. decodeUintPtr v) kvs ''lease_unverified_secs'' (LeaseUnverifiedSecs l);
       f \<leftarrow> readMember decodeBool kvs ''tailer_healthy'' (TailerHealthy l);
       Some \<lparr>Role = a, IsLeader = b, LatestTS = c, LeaseTS = d, LeaseUnverifiedSecs = e, TailerHealthy = f\<rparr>
     }"

lemma readMember_none: "memberOf kvs name = None \<Longrightarrow> readMember f kvs name old = Some old"
  by (simp add: readMember_def)

lemma readMember_Cons:
  "readMember f ((k, v) # kvs) name old = (if foldName k = foldName name then f v old else readMember f kvs name old)"
  by (simp add: readMember_def member_Cons)

lemma setField_status:
  "setField False leadershipFields k v l =
     (if foldName k = ''ROLE'' then map_option (\<lambda>x. l\<lparr>Role := x\<rparr>) (decodeString v (Role l))
      else if foldName k = ''IS_LEADER'' then map_option (\<lambda>x. l\<lparr>IsLeader := x\<rparr>) (decodeBool v (IsLeader l))
      else if foldName k = ''LATEST_TS'' then map_option (\<lambda>x. l\<lparr>LatestTS := x\<rparr>) (decodeUint v (LatestTS l))
      else if foldName k = ''LEASE_TS'' then map_option (\<lambda>x. l\<lparr>LeaseTS := x\<rparr>) (decodeUintPtr v)
      else if foldName k = ''LEASE_UNVERIFIED_SECS''
      then map_option (\<lambda>x. l\<lparr>LeaseUnverifiedSecs := x\<rparr>) (decodeUintPtr v)
      else if foldName k = ''TAILER_HEALTHY'' then map_option (\<lambda>x. l\<lparr>TailerHealthy := x\<rparr>) (decodeBool v (TailerHealthy l))
      else Some l)"
  by (simp add: leadershipFields_def leadership_names)

lemma setFields_status:
  "distinct (map (foldName \<circ> fst) kvs) \<Longrightarrow> setFields False leadershipFields kvs l = statusFrom kvs l"
proof (induction kvs arbitrary: l)
  case Nil
  then show ?case by (simp add: statusFrom_def readMember_def memberOf_def)
next
  case (Cons kv kvs)
  obtain k v where kv: "kv = (k, v)" by (cases kv)
  have IH: "setFields False leadershipFields kvs l' = statusFrom kvs l'" for l' using Cons by simp
  have absent: "memberOf kvs name = None" if "foldName name = foldName k" for name
    using that Cons.prems kv by (intro member_None) auto
  consider (role) "foldName k = ''ROLE''" | (leads) "foldName k = ''IS_LEADER''" | (ts) "foldName k = ''LATEST_TS''"
    | (lease) "foldName k = ''LEASE_TS''" | (secs) "foldName k = ''LEASE_UNVERIFIED_SECS''"
    | (tailer) "foldName k = ''TAILER_HEALTHY''"
    | (other) "foldName k \<notin> {''ROLE'', ''IS_LEADER'', ''LATEST_TS'', ''LEASE_TS'', ''LEASE_UNVERIFIED_SECS'', ''TAILER_HEALTHY''}"
    by blast
  then show ?case
  proof cases
    case role
    then show ?thesis
      using absent [of "''role''"]
      by (cases "decodeString v (Role l)")
        (simp_all add: kv IH setField_status leadership_names statusFrom_def readMember_Cons readMember_none)
  next
    case leads
    then show ?thesis
      using absent [of "''is_leader''"]
      by (cases "decodeBool v (IsLeader l)")
        (simp_all add: kv IH setField_status leadership_names statusFrom_def readMember_Cons readMember_none)
  next
    case ts
    then show ?thesis
      using absent [of "''latest_ts''"]
      by (cases "decodeUint v (LatestTS l)")
        (simp_all add: kv IH setField_status leadership_names statusFrom_def readMember_Cons readMember_none)
  next
    case lease
    then show ?thesis
      using absent [of "''lease_ts''"]
      by (cases "decodeUintPtr v")
        (simp_all add: kv IH setField_status leadership_names statusFrom_def readMember_Cons readMember_none)
  next
    case secs
    then show ?thesis
      using absent [of "''lease_unverified_secs''"]
      by (cases "decodeUintPtr v")
        (simp_all add: kv IH setField_status leadership_names statusFrom_def readMember_Cons readMember_none)
  next
    case tailer
    then show ?thesis
      using absent [of "''tailer_healthy''"]
      by (cases "decodeBool v (TailerHealthy l)")
        (simp_all add: kv IH setField_status leadership_names statusFrom_def readMember_Cons readMember_none)
  next
    case other
    then show ?thesis
      by (simp add: kv IH setField_status leadership_names statusFrom_def readMember_Cons)
  qed
qed

text \<open>
  C34: what a poll reports. When a backend answers with 200 and a JSON object whose names differ,
  the poll succeeds exactly when each of the six members the struct names is absent or of its
  type; it then reports exactly these members, and the zero value for absent ones. Order, letter
  case of the names and further members do not matter.
\<close>

theorem poll_reads_status:
  assumes "newRequest (base @ ''/instance/leadership'') = None"
    and "net \<lparr>rq_Method = MethodGet, rq_URL = base @ ''/instance/leadership'', rq_Token = None\<rparr>
      = Inr \<lparr>StatusCode = 200, bodyBytes = encodeJson (JObj kvs), bodyError = None\<rparr>"
    and "json_ok maxNestingDepth (JObj kvs)" and "length (encodeJson (JObj kvs)) < maxBodyBytes"
    and "distinct (map (foldName \<circ> fst) kvs)"
  shows "pollLeadership newRequest net (decodeLeadership err) base
    = (case statusFrom kvs noLeadership of None \<Rightarrow> Inl (DecodeError base err) | Some l \<Rightarrow> Inr l)"
proof -
  have "decodeLeadership err (encodeJson (JObj kvs))
      = (case statusFrom kvs noLeadership of None \<Rightarrow> Inl err | Some l \<Rightarrow> Inr l)"
    using setFields_status [OF assms(5)] parse_encode [OF assms(3)]
    by (simp add: decodeLeadership_def decodeStruct_def)
  then show ?thesis
    using assms(1,2,4)
    by (simp add: pollLeadership_def doRequest_def readLimited_def split: option.splits)
qed

definition sampleStatus :: "(string \<times> json) list" where
  "sampleStatus =
     [(''version'', JStr ''1''), (''is_leader'', JBool True), (''Role'', JStr ''leader''), (''lease_ts'', JNum ''17'')]"

theorem poll_reads_status_witness:
  "pollLeadership (\<lambda>_. None)
     (\<lambda>_. Inr \<lparr>StatusCode = 200, bodyBytes = encodeJson (JObj sampleStatus), bodyError = None\<rparr>)
     (decodeLeadership ''bad'') ''http://a:3210''
   = Inr \<lparr>Role = ''leader'', IsLeader = True, LatestTS = 0, LeaseTS = Some 17, LeaseUnverifiedSecs = None,
          TailerHealthy = False\<rparr>"
proof -
  have ok: "json_ok maxNestingDepth (JObj sampleStatus)"
  proof -
    have "validUTF8 ''version''" "validUTF8 ''is_leader''" "validUTF8 ''Role''" "validUTF8 ''lease_ts''"
      "validUTF8 ''1''" "validUTF8 ''leader''" "numLit ''17''"
      by code_simp+
    then show ?thesis by (simp add: sampleStatus_def maxNestingDepth_def)
  qed
  have len: "length (encodeJson (JObj sampleStatus)) \<le> 100" by code_simp
  have d: "distinct (map (foldName \<circ> fst) sampleStatus)" by code_simp
  have v: "statusFrom sampleStatus noLeadership = Some \<lparr>Role = ''leader'', IsLeader = True, LatestTS = 0,
      LeaseTS = Some 17, LeaseUnverifiedSecs = None, TailerHealthy = False\<rparr>"
  proof -
    have f: "foldName ''Role'' = ''ROLE''" "foldName ''version'' = ''VERSION''" "parseNat ''17'' = Some 17" by code_simp+
    then show ?thesis
      by (simp add: sampleStatus_def statusFrom_def readMember_def memberOf_def leadership_names noLeadership_def
          decodeString_def decodeBool_def decodeUintPtr_def ParseUint_def)
  qed
  show ?thesis
    using poll_reads_status [OF _ _ ok _ d, of "\<lambda>_. None" "''http://a:3210''"
        "\<lambda>_. Inr \<lparr>StatusCode = 200, bodyBytes = encodeJson (JObj sampleStatus), bodyError = None\<rparr>" "''bad''"] len v
    by (simp add: maxBodyBytes_def)
qed

end
