(* ===== verification/GoTime.thy ===== *)
theory GoTime
  imports GoStd
begin

text \<open>
  The parts of package \<open>time\<close> the usage component needs: the civil date of an instant, the
  layouts it prints and the layout it parses, and milliseconds since the Unix epoch. All times
  are in UTC. An \<open>instant\<close> counts nanoseconds from the start of the year 1.
\<close>

definition unixEpoch :: instant where "unixEpoch = 62135596800 * second"
definition nsPerDay :: int where "nsPerDay = 86400 * second"
definition millisecond :: duration where "millisecond = 1000000"

definition UnixMilli :: "int \<Rightarrow> instant" where "UnixMilli ms = unixEpoch + ms * millisecond"
definition toUnixMilli :: "instant \<Rightarrow> int" where "toUnixMilli t = wrap64 ((t - unixEpoch) div millisecond)"

text \<open>
  The proleptic Gregorian calendar: days are counted from the first of January of the year 1,
  and internally from the first of March of the year 0, so that the leap day ends a year.
\<close>

definition civil :: "int \<Rightarrow> int \<times> int \<times> int" where
  "civil days =
     (let z = days + 306; era = z div 146097; doe = z mod 146097;
          yoe = (doe - doe div 1460 + doe div 36524 - doe div 146096) div 365;
          doy = doe - (365 * yoe + yoe div 4 - yoe div 100);
          mp = (5 * doy + 2) div 153;
          d = doy - (153 * mp + 2) div 5 + 1;
          m = (if mp < 10 then mp + 3 else mp - 9)
      in (yoe + 400 * era + (if m \<le> 2 then 1 else 0), m, d))"

definition daysFrom :: "int \<Rightarrow> int \<Rightarrow> int \<Rightarrow> int" where
  "daysFrom y m d =
     (let y' = (if m \<le> 2 then y - 1 else y); era = y' div 400; yoe = y' mod 400;
          mp = (if m > 2 then m - 3 else m + 9);
          doy = (153 * mp + 2) div 5 + d - 1;
          doe = yoe * 365 + yoe div 4 - yoe div 100 + doy
      in era * 146097 + doe - 306)"

definition isLeap :: "int \<Rightarrow> bool" where
  "isLeap y = (y mod 4 = 0 \<and> (y mod 100 \<noteq> 0 \<or> y mod 400 = 0))"

definition daysIn :: "int \<Rightarrow> int \<Rightarrow> int" where
  "daysIn m y =
     (if m = 2 then (if isLeap y then 29 else 28)
      else if m = 4 \<or> m = 6 \<or> m = 9 \<or> m = 11 then 30 else 31)"

section \<open>Layouts\<close>

definition yearString :: "int \<Rightarrow> string" where
  "yearString y = (if y < 0 then CHR ''-'' # padNat 4 (nat (- y)) else padNat 4 (nat y))"

text \<open>The layout \<open>2006-01-02\<close>.\<close>

definition fmtDate :: "instant \<Rightarrow> string" where
  "fmtDate t =
     (case civil (t div nsPerDay) of (y, m, d) \<Rightarrow>
        yearString y @ ''-'' @ padNat 2 (nat m) @ ''-'' @ padNat 2 (nat d))"

definition hourOf :: "instant \<Rightarrow> int" where "hourOf t = t mod nsPerDay div (3600 * second)"

text \<open>The layout \<open>2006-01-02 15:00:00\<close>, whose minutes and seconds are literal zeros.\<close>

definition fmtHour :: "instant \<Rightarrow> string" where
  "fmtHour t = fmtDate t @ '' '' @ padNat 2 (nat (hourOf t)) @ '':00:00''"

text \<open>\<open>time.RFC3339Nano\<close>: the fraction loses its trailing zeros, and disappears when it is zero.\<close>

definition fmtFraction :: "int \<Rightarrow> string" where
  "fmtFraction ns =
     (if ns = 0 then ''''
      else CHR ''.'' # rev (dropWhile (\<lambda>c. c = CHR ''0'') (rev (padNat 9 (nat ns)))))"

definition fmtRFC3339Nano :: "instant \<Rightarrow> string" where
  "fmtRFC3339Nano t =
     fmtDate t @ ''T'' @ padNat 2 (nat (hourOf t)) @ '':''
       @ padNat 2 (nat (t mod (3600 * second) div (60 * second))) @ '':''
       @ padNat 2 (nat (t mod (60 * second) div second)) @ fmtFraction (t mod second) @ ''Z''"

text \<open>
  \<open>time.Parse("2006-01-02", s)\<close>: four, two and two digits, a month of the year and a day of
  this month, and nothing after them.
\<close>

definition digitsAt :: "nat \<Rightarrow> nat \<Rightarrow> string \<Rightarrow> int option" where
  "digitsAt i n s = map_option int (parseNat (take n (drop i s)))"

definition parseDate :: "string \<Rightarrow> instant option" where
  "parseDate s =
     (if length s \<noteq> 10 \<or> s ! 4 \<noteq> CHR ''-'' \<or> s ! 7 \<noteq> CHR ''-'' then None
      else (case (digitsAt 0 4 s, digitsAt 5 2 s, digitsAt 8 2 s) of
              (Some y, Some m, Some d) \<Rightarrow>
                if 1 \<le> m \<and> m \<le> 12 \<and> 1 \<le> d \<and> d \<le> daysIn m y
                then Some (daysFrom y m d * nsPerDay) else None
            | _ \<Rightarrow> None))"

section \<open>Facts\<close>

lemma parseDate_day: "parseDate s = Some t \<Longrightarrow> t mod nsPerDay = 0"
  by (auto simp: parseDate_def split: if_splits option.splits)

text \<open>Dates around the leap day of a century year and the Unix epoch.\<close>

lemma calendar_samples:
  "civil (daysFrom 2000 2 29) = (2000, 2, 29) \<and> daysFrom 2000 3 1 = daysFrom 2000 2 29 + 1
    \<and> civil (daysFrom 1900 2 28 + 1) = (1900, 3, 1) \<and> daysFrom 1970 1 1 * nsPerDay = unixEpoch
    \<and> civil 0 = (1, 1, 1)"
  by code_simp

end

