(* ===== verification/Insights.thy ===== *)
theory Insights
  imports GoTime GoFloat Json
begin

text \<open>
  The usage insights of bigbrain (\<open>insights/insights.go\<close>): events ingested per deployment into
  a ring of rows, and the queries that aggregate the rows of a range of days.

  Every operation holds \<open>memMu\<close> while it touches the rings, so an execution is a sequence of
  the operations below; \<open>None\<close> is a panic (an index out of range). Inputs: \<open>clock\<close>, the reading
  of \<open>time.Now\<close> for the \<open>i\<close>-th payload of a request, and \<open>go\<close>, what \<open>sort.Slice\<close> makes of
  rows ordered newest first (it is not stable, so rows of equal time may come in any order;
  \<open>newestFirst\<close> is all that is relied on). Maps built while grouping are association lists; Go
  ranges over them in any order.
\<close>

section \<open>Data\<close>

definition rootComponent :: string where "rootComponent = ''-root-component-''"
definition maxRecentPerGroup :: nat where "maxRecentPerGroup = 50"
definition inclusiveEnd :: duration where "inclusiveEnd = 24 * 3600 * second"

record Call =
  TableName :: string
  BytesRead :: int
  DocumentsRead :: int

text \<open>A nil pointer and a nil slice are \<open>None\<close>.\<close>

record Row =
  TS :: instant
  Kind :: string
  UDFID :: string
  ComponentPath :: "string option"
  RequestID :: string
  ExecutionID :: string
  OCCTableName :: "string option"
  OCCDocumentID :: "string option"
  OCCWriteSource :: "string option"
  OCCRetryCount :: int
  OCCFailedPermanently :: bool
  Success :: "bool option"
  Calls :: "Call list option"

record ReadLimits =
  Documents :: int
  Bytes :: int
  WarningRatio :: rat

definition noLimits :: ReadLimits where
  "noLimits = \<lparr>Documents = 0, Bytes = 0, WarningRatio = 0\<rparr>"

definition validLimits :: "ReadLimits \<Rightarrow> bool" where
  "validLimits l = (Documents l > 0 \<and> Bytes l > 0 \<and> WarningRatio l > 0 \<and> WarningRatio l \<le> 1)"

definition threshold :: "ReadLimits \<Rightarrow> int \<Rightarrow> int" where
  "threshold l limit = truncInt64 (fmul (float64 limit) (WarningRatio l))"

record deploymentRows =
  rows :: "Row list"
  start :: nat
  limits :: ReadLimits

definition newRows :: deploymentRows where
  "newRows = \<lparr>rows = [], start = 0, limits = noLimits\<rparr>"

record Insights =
  mem :: "(string, deploymentRows) gomap"
  ringCap :: int

definition NewInsights :: "int \<Rightarrow> Insights" where
  "NewInsights n = \<lparr>mem = [], ringCap = n\<rparr>"

datatype insightsError = ErrBadDate | ErrBadDateRange | ErrBadReadLimits

section \<open>Rows of events\<close>

text \<open>A payload is a decoded \<open>map[string]any\<close>; a failed type assertion gives the zero value.\<close>

type_synonym fields = "(string, json) gomap"
type_synonym AnyEvent = "(string, fields) gomap"

definition getString :: "fields \<Rightarrow> string \<Rightarrow> string" where
  "getString m k = (case map_of m k of Some (JStr v) \<Rightarrow> v | _ \<Rightarrow> '''')"

definition getStringPtr :: "fields \<Rightarrow> string \<Rightarrow> string option" where
  "getStringPtr m k = (case map_of m k of Some (JStr v) \<Rightarrow> if v \<noteq> '''' then Some v else None | _ \<Rightarrow> None)"

definition getBoolPtr :: "fields \<Rightarrow> string \<Rightarrow> bool option" where
  "getBoolPtr m k = (case map_of m k of Some (JBool v) \<Rightarrow> Some v | _ \<Rightarrow> None)"

definition getBool :: "fields \<Rightarrow> string \<Rightarrow> bool" where
  "getBool m k = (case map_of m k of Some (JBool v) \<Rightarrow> v | _ \<Rightarrow> False)"

definition getInt :: "fields \<Rightarrow> string \<Rightarrow> int" where
  "getInt m k =
     (case map_of m k of
        Some (JNum v) \<Rightarrow> (case ParseInt v of Some n \<Rightarrow> n | None \<Rightarrow> 0)
      | _ \<Rightarrow> 0)"

fun callsOf :: "json list \<Rightarrow> Call list" where
  "callsOf [] = []"
| "callsOf (JObj obj # xs) =
     \<lparr>TableName = getString obj ''table_name'', BytesRead = getInt obj ''bytes_read'',
      DocumentsRead = getInt obj ''documents_read''\<rparr> # callsOf xs"
| "callsOf (x # xs) = callsOf xs"

definition getCalls :: "fields \<Rightarrow> string \<Rightarrow> Call list option" where
  "getCalls m k = (case map_of m k of Some (JArr xs) \<Rightarrow> Some (callsOf xs) | _ \<Rightarrow> None)"

definition eventTime :: "instant \<Rightarrow> fields \<Rightarrow> instant" where
  "eventTime now p =
     (case map_of p ''timestamp'' of
        Some (JNum v) \<Rightarrow> (case ParseInt v of Some ms \<Rightarrow> UnixMilli ms | None \<Rightarrow> now)
      | _ \<Rightarrow> now)"

definition occRow :: "instant \<Rightarrow> fields \<Rightarrow> Row" where
  "occRow now p =
     \<lparr>TS = eventTime now p, Kind = ''occ'', UDFID = getString p ''udf_id'',
      ComponentPath = getStringPtr p ''component_path'', RequestID = getString p ''request_id'',
      ExecutionID = getString p ''id'', OCCTableName = getStringPtr p ''occ_table_name'',
      OCCDocumentID = getStringPtr p ''occ_document_id'',
      OCCWriteSource = getStringPtr p ''occ_write_source'',
      OCCRetryCount = getInt p ''occ_retry_count'',
      OCCFailedPermanently = getBool p ''occ_failed_permanently'', Success = None, Calls = None\<rparr>"

definition readRow :: "instant \<Rightarrow> fields \<Rightarrow> Row" where
  "readRow now p =
     \<lparr>TS = eventTime now p, Kind = ''read'', UDFID = getString p ''udf_id'',
      ComponentPath = getStringPtr p ''component_path'', RequestID = getString p ''request_id'',
      ExecutionID = getString p ''id'', OCCTableName = None, OCCDocumentID = None,
      OCCWriteSource = None, OCCRetryCount = 0, OCCFailedPermanently = False,
      Success = getBoolPtr p ''success'', Calls = getCalls p ''calls''\<rparr>"

definition makeRow :: "instant \<Rightarrow> string \<Rightarrow> fields \<Rightarrow> Row option" where
  "makeRow now kind p =
     (if kind = ''FunctionCall'' then
        (if \<not> getBool p ''is_occ'' then None else Some (occRow now p))
      else if kind = ''InsightReadLimit'' then Some (readRow now p)
      else None)"

fun payloadRows :: "(nat \<Rightarrow> instant) \<Rightarrow> nat \<Rightarrow> (string \<times> fields) list \<Rightarrow> Row list" where
  "payloadRows clock i [] = []"
| "payloadRows clock i ((k, p) # ps) =
     (case makeRow (clock i) k p of
        None \<Rightarrow> payloadRows clock (Suc i) ps
      | Some r \<Rightarrow> r # payloadRows clock (Suc i) ps)"

definition makeRows :: "(nat \<Rightarrow> instant) \<Rightarrow> AnyEvent list \<Rightarrow> Row list" where
  "makeRows clock events = payloadRows clock 0 (concat events)"

section \<open>The ring\<close>

definition push :: "Row \<Rightarrow> int \<Rightarrow> deploymentRows \<Rightarrow> deploymentRows option" where
  "push r cap d =
     (if int (length (rows d)) < cap then Some (d\<lparr>rows := rows d @ [r]\<rparr>)
      else if start d < length (rows d)
      then Some (d\<lparr>rows := (rows d)[start d := r], start := (start d + 1) mod length (rows d)\<rparr>)
      else None)"

fun pushAll :: "Row list \<Rightarrow> int \<Rightarrow> deploymentRows \<Rightarrow> deploymentRows option" where
  "pushAll [] cap d = Some d"
| "pushAll (r # rs) cap d = (case push r cap d of None \<Rightarrow> None | Some d' \<Rightarrow> pushAll rs cap d')"

definition Ingest ::
  "(nat \<Rightarrow> instant) \<Rightarrow> Insights \<Rightarrow> string \<Rightarrow> ReadLimits \<Rightarrow> AnyEvent list
    \<Rightarrow> (Insights \<times> (insightsError + nat)) option" where
  "Ingest clock i deployment l events =
     (if \<not> validLimits l then Some (i, Inl ErrBadReadLimits)
      else (let rs = makeRows clock events;
                dep = (gget (mem i) deployment newRows)\<lparr>limits := l\<rparr>
            in case pushAll rs (ringCap i) dep of
                 None \<Rightarrow> None
               | Some d \<Rightarrow> Some (i\<lparr>mem := AList.update deployment d (mem i)\<rparr>, Inr (length rs))))"

text \<open>The rows oldest first, as the loop of \<open>rows\<close> reads them.\<close>

definition ringAt :: "deploymentRows \<Rightarrow> nat \<Rightarrow> Row" where
  "ringAt d n = rows d ! ((start d + n) mod length (rows d))"

definition inRange :: "int \<Rightarrow> int \<Rightarrow> Row \<Rightarrow> bool" where
  "inRange fromMs toMs r = (let ms = toUnixMilli (TS r) in ms \<ge> fromMs \<and> ms < toMs)"

definition rowsOf :: "Insights \<Rightarrow> string \<Rightarrow> int \<Rightarrow> int \<Rightarrow> Row list \<times> ReadLimits" where
  "rowsOf i deployment fromMs toMs =
     (case map_of (mem i) deployment of
        None \<Rightarrow> ([], noLimits)
      | Some d \<Rightarrow> (filter (inRange fromMs toMs) (map (ringAt d) [0..<length (rows d)]), limits d))"

section \<open>Aggregation\<close>

text \<open>
  What Go leaves open: how the unstable sort by time orders rows of equal time, and the order in
  which each \<open>range\<close> over a map visits its entries. An order is given by the positions to take the
  next entry from, among those that are left; every order is given by some positions.
\<close>

record choices =
  sortByTime :: "Row list \<Rightarrow> Row list"
  rangeOCC :: "nat list"
  rangeRead :: "nat list"
  rangeHours :: "instant list \<Rightarrow> nat list"

function rangeOrder :: "nat list \<Rightarrow> 'a list \<Rightarrow> 'a list" where
  "rangeOrder ns xs =
     (case ns of
        [] \<Rightarrow> xs
      | n # ns' \<Rightarrow>
          if xs = [] then []
          else (let i = n mod length xs in xs ! i # rangeOrder ns' (take i xs @ drop (Suc i) xs)))"
  by pat_completeness auto
termination by (relation "measure (\<lambda>(ns, _). length ns)") auto

declare rangeOrder.simps [simp del]

text \<open>\<open>bucket\<close>: how many timestamps fall into each hour, by the name of the hour.\<close>

record hourlyCount =
  Hour :: string
  Count :: int

fun countHours :: "instant list \<Rightarrow> (string, int) gomap \<Rightarrow> (string, int) gomap" where
  "countHours [] counts = counts"
| "countHours (t # ts) counts =
     countHours ts (AList.update (fmtHour t) (wrap64 (gget counts (fmtHour t) 0 + 1)) counts)"

definition bucket :: "choices \<Rightarrow> instant list \<Rightarrow> hourlyCount list" where
  "bucket go ts =
     sort_key Hour (map (\<lambda>(h, n). \<lparr>Hour = h, Count = n\<rparr>) (rangeOrder (rangeHours go ts) (countHours ts [])))"

definition hourlyJson :: "hourlyCount list \<Rightarrow> json" where
  "hourlyJson hs = JArr (map (\<lambda>h. JObj [(''hour'', JStr (Hour h)), (''count'', jsonInt (Count h))]) hs)"

definition derefOr :: "string option \<Rightarrow> string \<Rightarrow> string" where
  "derefOr p d = (case p of None \<Rightarrow> d | Some v \<Rightarrow> v)"

text \<open>Appending to the group of a key, as \<open>g[key] = append(g[key], r)\<close> does.\<close>

definition addTo :: "'k \<Rightarrow> Row \<Rightarrow> ('k, Row list) gomap \<Rightarrow> ('k, Row list) gomap" where
  "addTo k r g = AList.update k (gget g k [] @ [r]) g"

record occKey =
  ok_udfID :: string
  ok_comp :: string
  ok_table :: string
  ok_kind :: string

definition occKeyOf :: "Row \<Rightarrow> occKey" where
  "occKeyOf r =
     \<lparr>ok_udfID = UDFID r, ok_comp = derefOr (ComponentPath r) rootComponent,
      ok_table = derefOr (OCCTableName r) '''',
      ok_kind = (if OCCFailedPermanently r then ''occFailedPermanently'' else ''occRetried'')\<rparr>"

fun groupByOCC :: "Row list \<Rightarrow> (occKey, Row list) gomap \<Rightarrow> (occKey, Row list) gomap" where
  "groupByOCC [] g = g"
| "groupByOCC (r # rs) g =
     (if Kind r \<noteq> ''occ'' then groupByOCC rs g else groupByOCC rs (addTo (occKeyOf r) r g))"

definition optField :: "string \<Rightarrow> string option \<Rightarrow> (string \<times> json) list" where
  "optField k p = (case p of None \<Rightarrow> [] | Some v \<Rightarrow> [(k, JStr v)])"

definition occRecent :: "Row \<Rightarrow> json" where
  "occRecent r = jsonMap
     ([(''timestamp'', JStr (fmtRFC3339Nano (TS r))), (''id'', JStr (ExecutionID r)),
       (''request_id'', JStr (RequestID r)), (''occ_retry_count'', jsonInt (OCCRetryCount r))]
      @ optField ''occ_document_id'' (OCCDocumentID r)
      @ optField ''occ_write_source'' (OCCWriteSource r))"

definition recentOf :: "choices \<Rightarrow> Row list \<Rightarrow> Row list" where
  "recentOf go grp = take maxRecentPerGroup (sortByTime go grp)"

definition timestampsOf :: "Row list \<Rightarrow> instant list" where
  [simp]: "timestampsOf grp = map TS grp"

definition occBody :: "choices \<Rightarrow> string \<Rightarrow> Row list \<Rightarrow> json" where
  "occBody go occTable grp = jsonMap
     ([(''occCalls'', jsonInt (int (length grp))), (''hourlyCounts'', hourlyJson (bucket go (timestampsOf grp))),
       (''recentEvents'', JArr (map occRecent (recentOf go grp)))]
      @ (if occTable \<noteq> '''' then [(''occTableName'', JStr occTable)] else []))"

text \<open>An output row: kind, function, component path, body.\<close>

definition buildOCCRow :: "choices \<Rightarrow> occKey \<Rightarrow> Row list \<Rightarrow> string list" where
  "buildOCCRow go k grp =
     [ok_kind k, ok_udfID k, ok_comp k, encodeJson (occBody go (ok_table k) grp)]"

definition aggregateOCC :: "choices \<Rightarrow> Row list \<Rightarrow> string list list" where
  "aggregateOCC go rs = map (\<lambda>(k, grp). buildOCCRow go k grp) (rangeOrder (rangeOCC go) (groupByOCC rs []))"

definition bytesRead :: "Row \<Rightarrow> int" where
  "bytesRead r = foldl (\<lambda>sum c. wrap64 (sum + BytesRead c)) 0 (case Calls r of None \<Rightarrow> [] | Some cs \<Rightarrow> cs)"

definition documentsRead :: "Row \<Rightarrow> int" where
  "documentsRead r = foldl (\<lambda>sum c. wrap64 (sum + DocumentsRead c)) 0 (case Calls r of None \<Rightarrow> [] | Some cs \<Rightarrow> cs)"

record readDimension =
  dimLimit :: int
  dimThreshold :: int
  measure :: "Row \<Rightarrow> int"
  kindLimit :: string
  kindThreshold :: string

definition callJson :: "Call \<Rightarrow> json" where
  "callJson c = JObj [(''table_name'', JStr (TableName c)), (''bytes_read'', jsonInt (BytesRead c)),
     (''documents_read'', jsonInt (DocumentsRead c))]"

definition readRecent :: "Row \<Rightarrow> json" where
  "readRecent r = jsonMap
     [(''timestamp'', JStr (fmtRFC3339Nano (TS r))), (''id'', JStr (ExecutionID r)),
      (''request_id'', JStr (RequestID r)),
      (''calls'', (case Calls r of None \<Rightarrow> JNull | Some cs \<Rightarrow> JArr (map callJson cs))),
      (''success'', JBool (case Success r of None \<Rightarrow> True | Some b \<Rightarrow> b))]"

text \<open>The loop of \<open>row\<close>: the rows at or above the threshold, and the highest value among them.\<close>

fun overThreshold :: "readDimension \<Rightarrow> Row list \<Rightarrow> Row list \<Rightarrow> int \<Rightarrow> Row list \<times> int" where
  "overThreshold d [] acc peak = (acc, peak)"
| "overThreshold d (r # rs) acc peak =
     (if measure d r < dimThreshold d then overThreshold d rs acc peak
      else overThreshold d rs (acc @ [r]) (max peak (measure d r)))"

definition readBody :: "choices \<Rightarrow> readDimension \<Rightarrow> Row list \<Rightarrow> json" where
  "readBody go d rs = jsonMap
     [(''count'', jsonInt (int (length rs))), (''limit'', jsonInt (dimLimit d)),
      (''threshold'', jsonInt (dimThreshold d)), (''hourlyCounts'', hourlyJson (bucket go (timestampsOf rs))),
      (''recentEvents'', JArr (map readRecent (recentOf go rs)))]"

definition dimensionRow ::
  "choices \<Rightarrow> readDimension \<Rightarrow> string \<Rightarrow> string \<Rightarrow> Row list \<Rightarrow> string list option" where
  "dimensionRow go d udfID cpath grp =
     (case overThreshold d grp [] 0 of
        (rs, peak) \<Rightarrow>
          if rs = [] then None
          else (let kind = (if peak \<ge> dimLimit d then kindLimit d else kindThreshold d) in
                Some [kind, udfID, cpath, encodeJson (readBody go d rs)]))"

type_synonym readKey = "string \<times> string"

definition readKeyOf :: "Row \<Rightarrow> readKey" where
  "readKeyOf r = (UDFID r, derefOr (ComponentPath r) rootComponent)"

fun groupByRead :: "Row list \<Rightarrow> (readKey, Row list) gomap \<Rightarrow> (readKey, Row list) gomap" where
  "groupByRead [] g = g"
| "groupByRead (r # rs) g =
     (if Kind r \<noteq> ''read'' then groupByRead rs g else groupByRead rs (addTo (readKeyOf r) r g))"

definition bytesDimension :: "ReadLimits \<Rightarrow> readDimension" where
  "bytesDimension l = \<lparr>dimLimit = Bytes l, dimThreshold = threshold l (Bytes l), measure = bytesRead,
     kindLimit = ''bytesReadLimit'', kindThreshold = ''bytesReadThreshold''\<rparr>"

definition docsDimension :: "ReadLimits \<Rightarrow> readDimension" where
  "docsDimension l = \<lparr>dimLimit = Documents l, dimThreshold = threshold l (Documents l),
     measure = documentsRead, kindLimit = ''documentsReadLimit'', kindThreshold = ''documentsReadThreshold''\<rparr>"

fun dimensionRows ::
  "choices \<Rightarrow> readDimension list \<Rightarrow> string \<Rightarrow> string \<Rightarrow> Row list \<Rightarrow> string list list" where
  "dimensionRows go [] udfID cpath grp = []"
| "dimensionRows go (d # ds) udfID cpath grp =
     (case dimensionRow go d udfID cpath grp of
        None \<Rightarrow> dimensionRows go ds udfID cpath grp
      | Some row \<Rightarrow> row # dimensionRows go ds udfID cpath grp)"

definition aggregateRead :: "choices \<Rightarrow> Row list \<Rightarrow> ReadLimits \<Rightarrow> string list list" where
  "aggregateRead go rs l =
     concat (map (\<lambda>((udfID, cpath), grp).
       dimensionRows go [bytesDimension l, docsDimension l] udfID cpath grp)
         (rangeOrder (rangeRead go) (groupByRead rs [])))"

section \<open>Queries\<close>

text \<open>\<open>rowLess\<close> compares column by column; the columns are strings, printed as they are.\<close>

fun rowLess :: "string list \<Rightarrow> string list \<Rightarrow> bool" where
  "rowLess [] b = (b \<noteq> [])"
| "rowLess (x # xs) [] = False"
| "rowLess (x # xs) (y # ys) = (if x \<noteq> y then x < y else rowLess xs ys)"

text \<open>\<open>sort.Slice\<close> with an order that is total: there is only one sorted list.\<close>

fun insertRow :: "string list \<Rightarrow> string list list \<Rightarrow> string list list" where
  "insertRow r [] = [r]"
| "insertRow r (s # ss) = (if rowLess s r then s # insertRow r ss else r # s # ss)"

definition sortRows :: "string list list \<Rightarrow> string list list" where
  "sortRows rs = foldr insertRow rs []"

definition Query ::
  "choices \<Rightarrow> Insights \<Rightarrow> string \<Rightarrow> string \<Rightarrow> string \<Rightarrow> insightsError + string list list" where
  "Query go i deployment fromDate toDate =
     (case parseDate fromDate of
        None \<Rightarrow> Inl ErrBadDate
      | Some from \<Rightarrow>
          (case parseDate toDate of
             None \<Rightarrow> Inl ErrBadDate
           | Some to \<Rightarrow>
               (let fromMs = toUnixMilli from; toMs = toUnixMilli (to + inclusiveEnd) in
                if fromMs \<ge> toMs then Inl ErrBadDateRange
                else (case rowsOf i deployment fromMs toMs of
                        (rs, l) \<Rightarrow> Inr (sortRows (aggregateOCC go rs @ aggregateRead go rs l))))))"

definition newestFirst :: "choices \<Rightarrow> bool" where
  "newestFirst go = (\<forall>rs. mset (sortByTime go rs) = mset rs \<and> sorted_wrt (\<lambda>a b. TS b \<le> TS a) (sortByTime go rs))"

end
