(* ===== verification/InsightsFacts.thy ===== *)
theory InsightsFacts
  imports Insights
begin

text \<open>
  Properties of the usage insights: the ring keeps the newest rows in order (through an
  interface of bounded logs), ingested rows are well-typed, and a query groups, counts and
  classifies the rows of its range exactly, whatever the iteration order of Go's maps.
\<close>

section \<open>Bounded logs\<close>

text \<open>
  What \<open>Ingest\<close> and \<open>rows\<close> rely on: appending one element never fails and leaves the newest
  \<open>bound\<close> elements, in order.
\<close>

locale bounded_log =
  fixes inv :: "'s \<Rightarrow> bool"
    and append1 :: "'r \<Rightarrow> 's \<Rightarrow> 's option"
    and contents :: "'s \<Rightarrow> 'r list"
    and bound :: nat
  assumes append1: "inv s \<Longrightarrow> \<exists>s'. append1 r s = Some s' \<and> inv s' \<and> contents s' = takeLast bound (contents s @ [r])"
    and within: "inv s \<Longrightarrow> length (contents s) \<le> bound"
begin

fun appendAll :: "'r list \<Rightarrow> 's \<Rightarrow> 's option" where
  "appendAll [] s = Some s"
| "appendAll (r # rs) s = (case append1 r s of None \<Rightarrow> None | Some s' \<Rightarrow> appendAll rs s')"

lemma appendAll:
  "inv s \<Longrightarrow> \<exists>s'. appendAll rs s = Some s' \<and> inv s' \<and> contents s' = takeLast bound (contents s @ rs)"
proof (induction rs arbitrary: s)
  case Nil
  then show ?case using within by (simp add: takeLast_all)
next
  case (Cons r rs)
  obtain s1 where s1: "append1 r s = Some s1" "inv s1" "contents s1 = takeLast bound (contents s @ [r])"
    using append1 [OF Cons.prems] by blast
  then show ?case using Cons.IH [OF s1(2)] by (simp add: takeLast_takeLast)
qed

end

section \<open>The ring as a bounded log\<close>

definition contentsOf :: "deploymentRows \<Rightarrow> Row list" where
  "contentsOf d = map (ringAt d) [0..<length (rows d)]"

definition ring_inv :: "int \<Rightarrow> deploymentRows \<Rightarrow> bool" where
  "ring_inv cap d =
     (0 < cap \<and> int (length (rows d)) \<le> cap \<and> (rows d = [] \<longrightarrow> start d = 0)
      \<and> (rows d \<noteq> [] \<longrightarrow> start d < length (rows d)) \<and> (int (length (rows d)) < cap \<longrightarrow> start d = 0))"

lemma contentsOf_rotate: "contentsOf d = rotate (start d) (rows d)"
  by (rule nth_equalityI) (simp_all add: contentsOf_def ringAt_def nth_rotate)

lemma contentsOf_drop_take:
  "start d < length (rows d) \<Longrightarrow> contentsOf d = drop (start d) (rows d) @ take (start d) (rows d)"
  by (simp add: contentsOf_rotate rotate_drop_take)

lemma rotate_replace:
  assumes "s < length xs"
  shows "rotate (Suc s mod length xs) (xs[s := r]) = drop (Suc s) xs @ take s xs @ [r]"
proof -
  have u: "xs[s := r] = take s xs @ r # drop (Suc s) xs" using assms by (rule upd_conv_take_nth_drop)
  show ?thesis
  proof (cases "Suc s = length xs")
    case True
    then show ?thesis using u by simp
  next
    case False
    then have "Suc s < length xs" using assms by simp
    then show ?thesis using u by (simp add: rotate_drop_take)
  qed
qed

lemma push_keeps:
  assumes inv: "ring_inv cap d"
  shows "\<exists>d'. push r cap d = Some d' \<and> ring_inv cap d' \<and> limits d' = limits d
    \<and> contentsOf d' = takeLast (nat cap) (contentsOf d @ [r])"
proof (cases "int (length (rows d)) < cap")
  case True
  then have s: "start d = 0" using inv by (simp add: ring_inv_def)
  have "contentsOf (d\<lparr>rows := rows d @ [r]\<rparr>) = contentsOf d @ [r]" by (simp add: contentsOf_rotate s)
  moreover have "length (contentsOf d @ [r]) \<le> nat cap" using True by (simp add: contentsOf_def)
  ultimately show ?thesis using True inv s by (simp add: push_def ring_inv_def takeLast_all)
next
  case False
  then have len: "length (rows d) = nat cap" "0 < length (rows d)" using inv by (auto simp: ring_inv_def)
  then have s: "start d < length (rows d)" using inv by (auto simp: ring_inv_def)
  let ?d = "d\<lparr>rows := (rows d)[start d := r], start := (start d + 1) mod length (rows d)\<rparr>"
  have "contentsOf ?d = drop (Suc (start d)) (rows d) @ take (start d) (rows d) @ [r]"
    using rotate_replace [OF s] by (simp add: contentsOf_rotate)
  also have "\<dots> = tl (contentsOf d) @ [r]"
    using s by (simp add: contentsOf_drop_take drop_Suc tl_drop)
  also have "\<dots> = takeLast (nat cap) (contentsOf d @ [r])"
    using len by (simp add: takeLast_snoc contentsOf_def)
  finally have "contentsOf ?d = takeLast (nat cap) (contentsOf d @ [r])" .
  moreover have "ring_inv cap ?d" using inv False len by (auto simp: ring_inv_def)
  ultimately show ?thesis using False s by (simp add: push_def)
qed

text \<open>The limits of the ring do not take part in the log; a ring of limits \<open>l\<close> is one log.\<close>

interpretation ring: bounded_log "\<lambda>d. ring_inv cap d \<and> limits d = l" "\<lambda>r. push r cap" contentsOf "nat cap"
  for cap l
proof unfold_locales
  fix d r assume "ring_inv cap d \<and> limits d = l"
  then show "\<exists>d'. push r cap d = Some d' \<and> (ring_inv cap d' \<and> limits d' = l)
      \<and> contentsOf d' = takeLast (nat cap) (contentsOf d @ [r])" using push_keeps by metis
next
  fix d assume "ring_inv cap d \<and> limits d = l"
  then show "length (contentsOf d) \<le> nat cap" by (auto simp: contentsOf_def ring_inv_def)
qed

lemma pushAll_appendAll: "pushAll rs cap d = ring.appendAll cap rs d"
  by (induction rs arbitrary: d) (auto split: option.splits)

lemma pushAll_keeps:
  assumes "ring_inv cap d"
  shows "\<exists>d'. pushAll rs cap d = Some d' \<and> ring_inv cap d' \<and> limits d' = limits d
    \<and> contentsOf d' = takeLast (nat cap) (contentsOf d @ rs)"
  using ring.appendAll [of cap d "limits d" rs] assms by (auto simp: pushAll_appendAll)

section \<open>Runs of requests\<close>

record ingestReq =
  iq_clock :: "nat \<Rightarrow> instant"
  iq_deployment :: string
  iq_limits :: ReadLimits
  iq_events :: "AnyEvent list"

fun ingestAll :: "Insights \<Rightarrow> ingestReq list \<Rightarrow> Insights option" where
  "ingestAll i [] = Some i"
| "ingestAll i (q # qs) =
     (case Ingest (iq_clock q) i (iq_deployment q) (iq_limits q) (iq_events q) of
        None \<Rightarrow> None
      | Some (i', _) \<Rightarrow> ingestAll i' qs)"

definition contentsAt :: "Insights \<Rightarrow> string \<Rightarrow> Row list" where
  "contentsAt i n = (case map_of (mem i) n of None \<Rightarrow> [] | Some d \<Rightarrow> contentsOf d)"

definition limitsAt :: "Insights \<Rightarrow> string \<Rightarrow> ReadLimits" where
  "limitsAt i n = (case map_of (mem i) n of None \<Rightarrow> noLimits | Some d \<Rightarrow> limits d)"

definition ins_inv :: "Insights \<Rightarrow> bool" where
  "ins_inv i = (0 < ringCap i \<and> list_all (\<lambda>(_, d). ring_inv (ringCap i) d) (mem i))"

lemma ins_inv_new: "0 < cap \<Longrightarrow> ins_inv (NewInsights cap)"
  by (simp add: ins_inv_def NewInsights_def)

lemma ins_inv_ring: "ins_inv i \<Longrightarrow> map_of (mem i) n = Some d \<Longrightarrow> ring_inv (ringCap i) d"
  by (auto simp: ins_inv_def list_all_iff dest!: map_of_SomeD)

lemma ins_inv_update:
  "ins_inv i \<Longrightarrow> ring_inv (ringCap i) d \<Longrightarrow> ins_inv (i\<lparr>mem := AList.update n d (mem i)\<rparr>)"
  using update_subset [of n d "mem i"] unfolding ins_inv_def list_all_iff by auto

lemma rowsOf_contents: "rowsOf i n f t = (filter (inRange f t) (contentsAt i n), limitsAt i n)"
  by (simp add: rowsOf_def contentsAt_def limitsAt_def contentsOf_def split: option.splits)

lemma Ingest_spec:
  assumes inv: "ins_inv i"
  shows "\<exists>i'. Ingest clock i n l evs =
        Some (i', if validLimits l then Inr (length (makeRows clock evs)) else Inl ErrBadReadLimits)
    \<and> ins_inv i' \<and> ringCap i' = ringCap i
    \<and> contentsAt i' n = (if validLimits l
        then takeLast (nat (ringCap i)) (contentsAt i n @ makeRows clock evs) else contentsAt i n)
    \<and> limitsAt i' n = (if validLimits l then l else limitsAt i n)
    \<and> (\<forall>m. m \<noteq> n \<longrightarrow> contentsAt i' m = contentsAt i m \<and> limitsAt i' m = limitsAt i m)"
proof (cases "validLimits l")
  case False
  then show ?thesis using inv by (simp add: Ingest_def)
next
  case True
  let ?d = "(gget (mem i) n newRows)\<lparr>limits := l\<rparr>"
  have "ring_inv (ringCap i) (gget (mem i) n newRows)"
    using ins_inv_ring [OF inv, of n] inv
    by (auto simp: gget_def ins_inv_def ring_inv_def newRows_def split: option.splits)
  then have ring: "ring_inv (ringCap i) ?d" by (simp add: ring_inv_def)
  have same: "contentsOf ?d = contentsAt i n"
    by (simp add: contentsAt_def contentsOf_rotate gget_def newRows_def split: option.splits)
  obtain d where d: "pushAll (makeRows clock evs) (ringCap i) ?d = Some d" "ring_inv (ringCap i) d"
    "limits d = l" "contentsOf d = takeLast (nat (ringCap i)) (contentsAt i n @ makeRows clock evs)"
    using pushAll_keeps [OF ring] same by auto
  have "Ingest clock i n l evs
      = Some (i\<lparr>mem := AList.update n d (mem i)\<rparr>, Inr (length (makeRows clock evs)))"
    using True d(1) by (simp add: Ingest_def Let_def)
  then show ?thesis
    using True d(3,4) ins_inv_update [OF inv d(2)] by (simp add: contentsAt_def limitsAt_def)
qed

text \<open>The accepted requests of a deployment, and what they leave.\<close>

definition accepted :: "string \<Rightarrow> ingestReq list \<Rightarrow> ingestReq list" where
  "accepted n qs = filter (\<lambda>q. iq_deployment q = n \<and> validLimits (iq_limits q)) qs"

definition rowsIn :: "ingestReq list \<Rightarrow> Row list" where
  "rowsIn qs = concat (map (\<lambda>q. makeRows (iq_clock q) (iq_events q)) qs)"

lemma ingestAll_spec:
  "ins_inv i \<Longrightarrow> \<exists>i'. ingestAll i qs = Some i' \<and> ins_inv i' \<and> ringCap i' = ringCap i
     \<and> contentsAt i' n = (if accepted n qs = [] then contentsAt i n
         else takeLast (nat (ringCap i)) (contentsAt i n @ rowsIn (accepted n qs)))
     \<and> limitsAt i' n = (if accepted n qs = [] then limitsAt i n else iq_limits (last (accepted n qs)))"
proof (induction qs arbitrary: i)
  case Nil
  then show ?case by (simp add: accepted_def)
next
  case (Cons q qs)
  let ?n = "iq_deployment q"
  obtain i1 where i1: "\<exists>res. Ingest (iq_clock q) i ?n (iq_limits q) (iq_events q) = Some (i1, res)"
    "ins_inv i1" "ringCap i1 = ringCap i"
    and at: "contentsAt i1 ?n = (if validLimits (iq_limits q)
        then takeLast (nat (ringCap i)) (contentsAt i ?n @ makeRows (iq_clock q) (iq_events q)) else contentsAt i ?n)"
      "limitsAt i1 ?n = (if validLimits (iq_limits q) then iq_limits q else limitsAt i ?n)"
    and other: "\<forall>m. m \<noteq> ?n \<longrightarrow> contentsAt i1 m = contentsAt i m \<and> limitsAt i1 m = limitsAt i m"
    using Ingest_spec [OF Cons.prems, of "iq_clock q" ?n "iq_limits q" "iq_events q"] by blast
  obtain i2 where i2: "ingestAll i1 qs = Some i2" "ins_inv i2" "ringCap i2 = ringCap i"
    "contentsAt i2 n = (if accepted n qs = [] then contentsAt i1 n
         else takeLast (nat (ringCap i)) (contentsAt i1 n @ rowsIn (accepted n qs)))"
    "limitsAt i2 n = (if accepted n qs = [] then limitsAt i1 n else iq_limits (last (accepted n qs)))"
    using Cons.IH [OF i1(2)] i1(3) by auto
  have run: "ingestAll i (q # qs) = Some i2" using i1(1) i2(1) by auto
  show ?case
  proof (cases "?n = n \<and> validLimits (iq_limits q)")
    case True
    then show ?thesis
      using run i2(2-5) at by (auto simp: accepted_def rowsIn_def takeLast_takeLast)
  next
    case False
    then have "contentsAt i1 n = contentsAt i n" "limitsAt i1 n = limitsAt i n"
      using at other by (cases "?n = n"; simp)+
    moreover have "accepted n (q # qs) = accepted n qs" using False by (auto simp: accepted_def)
    ultimately show ?thesis using run i2(2-5) by simp
  qed
qed

text \<open>
  C9: the ring is a bounded log: after any series of ingest requests, none of which panics, the
  rows of a deployment within a range of times are those among the newest \<open>cap\<close> rows of its
  accepted requests, in the order of their arrival, and its limits are those of the last
  accepted request; a request is accepted exactly when its limits are valid.
\<close>

theorem ring_keeps_newest:
  assumes "0 < cap"
  shows "\<exists>i. ingestAll (NewInsights cap) qs = Some i
    \<and> rowsOf i n fromMs toMs =
        (filter (inRange fromMs toMs) (takeLast (nat cap) (rowsIn (accepted n qs))),
         if accepted n qs = [] then noLimits else iq_limits (last (accepted n qs)))
    \<and> (\<exists>i' res. Ingest clock i n l evs = Some (i', res) \<and> (res = Inl ErrBadReadLimits \<longleftrightarrow> \<not> validLimits l))"
proof -
  obtain i where i: "ingestAll (NewInsights cap) qs = Some i" "ins_inv i"
    "contentsAt i n = (if accepted n qs = [] then contentsAt (NewInsights cap) n
         else takeLast (nat cap) (contentsAt (NewInsights cap) n @ rowsIn (accepted n qs)))"
    "limitsAt i n = (if accepted n qs = [] then limitsAt (NewInsights cap) n else iq_limits (last (accepted n qs)))"
    using ingestAll_spec [OF ins_inv_new [OF assms], of qs n] by (auto simp: NewInsights_def)
  have "contentsAt i n = takeLast (nat cap) (rowsIn (accepted n qs))"
    using i(3) by (simp add: contentsAt_def NewInsights_def rowsIn_def takeLast_def)
  moreover have "limitsAt i n = (if accepted n qs = [] then noLimits else iq_limits (last (accepted n qs)))"
    using i(4) by (simp add: limitsAt_def NewInsights_def)
  ultimately show ?thesis
    using i(1) Ingest_spec [OF i(2), of clock n l evs] by (auto simp: rowsOf_contents)
qed

definition sampleReq :: "string \<Rightarrow> string \<Rightarrow> ingestReq" where
  "sampleReq n ms =
     \<lparr>iq_clock = (\<lambda>_. unixEpoch), iq_deployment = n,
      iq_limits = \<lparr>Documents = 100, Bytes = 1000, WarningRatio = 1 / 2\<rparr>,
      iq_events = [[(''FunctionCall'', [(''is_occ'', JBool True), (''timestamp'', JNum ms), (''udf_id'', JStr ''m.js:f'')])]]\<rparr>"

lemma sampleReq_rows:
  "makeRows (iq_clock (sampleReq n ms)) (iq_events (sampleReq n ms)) =
     [occRow unixEpoch [(''is_occ'', JBool True), (''timestamp'', JNum ms), (''udf_id'', JStr ''m.js:f'')]]"
  by (simp add: makeRows_def sampleReq_def makeRow_def getBool_def)

theorem ring_keeps_newest_witness:
  "\<exists>i. ingestAll (NewInsights 1) [sampleReq ''dev'' ''5'', sampleReq ''prod'' ''6'', sampleReq ''dev'' ''7''] = Some i
    \<and> map (toUnixMilli \<circ> TS) (fst (rowsOf i ''dev'' 0 10)) = [7]"
proof -
  have "accepted ''dev'' [sampleReq ''dev'' ''5'', sampleReq ''prod'' ''6'', sampleReq ''dev'' ''7'']
      = [sampleReq ''dev'' ''5'', sampleReq ''dev'' ''7'']"
    by (simp add: accepted_def sampleReq_def validLimits_def)
  moreover have "TS (occRow unixEpoch [(''is_occ'', JBool True), (''timestamp'', JNum ''7''), (''udf_id'', JStr ''m.js:f'')])
      = UnixMilli 7"
    by (simp add: occRow_def eventTime_def ParseInt_def splitSign_def parseNat_def isDigit_def
        digitsVal_def digitVal_def min_int64_def max_int64_def)
  moreover have "wrap64 7 = 7" by (simp add: wrap64_def)
  moreover obtain i where "ingestAll (NewInsights 1) [sampleReq ''dev'' ''5'', sampleReq ''prod'' ''6'', sampleReq ''dev'' ''7''] = Some i"
    "rowsOf i ''dev'' 0 10 = (filter (inRange 0 10) (takeLast (nat 1) (rowsIn (accepted ''dev''
        [sampleReq ''dev'' ''5'', sampleReq ''prod'' ''6'', sampleReq ''dev'' ''7'']))),
      if accepted ''dev'' [sampleReq ''dev'' ''5'', sampleReq ''prod'' ''6'', sampleReq ''dev'' ''7''] = [] then noLimits
      else iq_limits (last (accepted ''dev'' [sampleReq ''dev'' ''5'', sampleReq ''prod'' ''6'', sampleReq ''dev'' ''7''])))"
    using ring_keeps_newest [of 1] by force
  ultimately show ?thesis
    by (auto simp: rowsIn_def sampleReq_rows takeLast_def inRange_def toUnixMilli_def UnixMilli_def millisecond_def Let_def
        simp del: ingestAll.simps)
qed

section \<open>Thresholds\<close>

lemma threshold_bounds:
  assumes "0 \<le> limit" "limit \<le> 2 ^ 53" "0 < WarningRatio l" "WarningRatio l \<le> 1"
  shows "0 \<le> threshold l limit \<and> threshold l limit \<le> limit"
proof -
  have a: "0 \<le> float64 limit" "float64 limit \<le> of_int limit"
    unfolding float64_def using assms(1,2) by (simp_all add: roundF64_nonneg roundF64_le)
  have m: "0 \<le> float64 limit * WarningRatio l" "float64 limit * WarningRatio l \<le> of_int limit"
    using a assms(3,4) mult_left_mono [of "WarningRatio l" 1 "float64 limit"] by simp_all
  have b: "0 \<le> fmul (float64 limit) (WarningRatio l)" "fmul (float64 limit) (WarningRatio l) \<le> of_int limit"
    unfolding fmul_def using m assms(2) by (simp_all add: roundF64_nonneg roundF64_le)
  define n where "n = \<lfloor>fmul (float64 limit) (WarningRatio l)\<rfloor>"
  have n: "0 \<le> n" "n \<le> limit" using b by (simp_all add: n_def floor_le_iff)
  then have "min_int64 \<le> n" "n \<le> max_int64" using assms(2) by (simp_all add: min_int64_def max_int64_def)
  then have "threshold l limit = n" using b(1) by (simp add: threshold_def truncInt64_def Let_def n_def)
  then show ?thesis using n by simp
qed

lemma overThreshold_spec:
  "overThreshold d rs acc peak =
     (acc @ filter (\<lambda>r. \<not> measure d r < dimThreshold d) rs,
      foldl max peak (map (measure d) (filter (\<lambda>r. \<not> measure d r < dimThreshold d) rs)))"
  by (induction rs arbitrary: acc peak) auto

lemma foldl_max_ge: "(x :: int) \<le> foldl max p xs \<longleftrightarrow> x \<le> p \<or> (\<exists>y \<in> set xs. x \<le> y)"
  by (induction xs arbitrary: p) (auto simp: le_max_iff_disj)

text \<open>The rows of a group that reach the threshold of a dimension.\<close>

definition hits :: "readDimension \<Rightarrow> Row list \<Rightarrow> Row list" where
  "hits d grp = filter (\<lambda>r. dimThreshold d \<le> measure d r) grp"

lemma dimensionRow_spec:
  assumes "0 < dimLimit d" "dimThreshold d \<le> dimLimit d"
  shows "dimensionRow go d u c grp =
     (if hits d grp = [] then None
      else Some [if \<exists>r \<in> set grp. dimLimit d \<le> measure d r then kindLimit d else kindThreshold d,
                 u, c, encodeJson (readBody go d (hits d grp))])"
proof -
  have h: "filter (\<lambda>r. \<not> measure d r < dimThreshold d) grp = hits d grp"
    by (simp add: hits_def not_less)
  have "dimLimit d \<le> foldl max 0 (map (measure d) (hits d grp)) \<longleftrightarrow> (\<exists>r \<in> set grp. dimLimit d \<le> measure d r)"
    unfolding foldl_max_ge using assms by (auto simp: hits_def)
  then show ?thesis by (auto simp: dimensionRow_def overThreshold_spec h Let_def)
qed

text \<open>
  C35: a read insight is reported for a group exactly when one of its calls reaches the warning
  threshold of the dimension, as a limit insight exactly when one reaches the limit itself, and
  its body is built of exactly the rows at or above the threshold; for valid limits up to
  \<open>2 ^ 53\<close> (where the float product is exact enough) the threshold lies between 0 and the limit.
\<close>

theorem read_insight_exact:
  assumes "validLimits l" and "Bytes l \<le> 2 ^ 53" and "Documents l \<le> 2 ^ 53"
    and "d = bytesDimension l \<or> d = docsDimension l"
  shows "0 \<le> dimThreshold d \<and> dimThreshold d \<le> dimLimit d
    \<and> (dimensionRow go d u c grp = None \<longleftrightarrow> (\<forall>r \<in> set grp. measure d r < dimThreshold d))
    \<and> (\<forall>row. dimensionRow go d u c grp = Some row \<longrightarrow>
         row = [if \<exists>r \<in> set grp. dimLimit d \<le> measure d r then kindLimit d else kindThreshold d,
                u, c, encodeJson (readBody go d (filter (\<lambda>r. dimThreshold d \<le> measure d r) grp))])"
proof -
  have pos: "0 < dimLimit d" and thr: "0 \<le> dimThreshold d \<and> dimThreshold d \<le> dimLimit d"
    using assms threshold_bounds [of "Bytes l" l] threshold_bounds [of "Documents l" l]
    by (auto simp: validLimits_def bytesDimension_def docsDimension_def)
  have "hits d grp = [] \<longleftrightarrow> (\<forall>r \<in> set grp. measure d r < dimThreshold d)"
    by (auto simp: hits_def filter_empty_conv not_le)
  then show ?thesis
    using dimensionRow_spec [OF pos, of go u c grp] thr by (auto simp: hits_def)
qed

definition sampleGo :: choices where
  "sampleGo = \<lparr>sortByTime = sort_key (\<lambda>r. - TS r), rangeOCC = [], rangeRead = [], rangeHours = (\<lambda>_. [])\<rparr>"

definition sampleReadRow :: "int \<Rightarrow> Row" where
  "sampleReadRow n = readRow unixEpoch [(''calls'', JArr [JObj [(''bytes_read'', JNum (FormatInt n))]])]"

definition sampleLimits :: ReadLimits where
  "sampleLimits = \<lparr>Documents = 100, Bytes = 1000, WarningRatio = 1 / 2\<rparr>"

lemma sample_dimension: "dimThreshold (bytesDimension sampleLimits) = 500
    \<and> dimLimit (bytesDimension sampleLimits) = 1000"
  unfolding bytesDimension_def sampleLimits_def threshold_def by code_simp

lemma sample_measure:
  "min_int64 \<le> n \<Longrightarrow> n \<le> max_int64 \<Longrightarrow> measure (bytesDimension sampleLimits) (sampleReadRow n) = n"
  by (simp add: bytesDimension_def bytesRead_def sampleReadRow_def readRow_def getCalls_def getInt_def ParseInt_FormatInt)

theorem read_insight_exact_witness:
  "dimensionRow sampleGo (bytesDimension sampleLimits) ''f'' ''c'' [sampleReadRow 499] = None
    \<and> (\<exists>b. dimensionRow sampleGo (bytesDimension sampleLimits) ''f'' ''c'' [sampleReadRow 400, sampleReadRow 700]
           = Some [''bytesReadThreshold'', ''f'', ''c'', b])"
proof -
  let ?d = "bytesDimension sampleLimits"
  have v: "validLimits sampleLimits" "Bytes sampleLimits \<le> 2 ^ 53" "Documents sampleLimits \<le> 2 ^ 53"
    by (simp_all add: validLimits_def sampleLimits_def)
  have m: "measure ?d (sampleReadRow 499) = 499" "measure ?d (sampleReadRow 400) = 400" "measure ?d (sampleReadRow 700) = 700"
    by (rule sample_measure; simp add: min_int64_def max_int64_def)+
  have k: "kindThreshold ?d = ''bytesReadThreshold''" by (simp add: bytesDimension_def)
  note R = read_insight_exact [OF v, of ?d sampleGo "''f''" "''c''"]
  have "dimensionRow sampleGo ?d ''f'' ''c'' [sampleReadRow 499] = None"
    using R [of "[sampleReadRow 499]"] m sample_dimension by simp
  moreover obtain row where row: "dimensionRow sampleGo ?d ''f'' ''c'' [sampleReadRow 400, sampleReadRow 700] = Some row"
    using R [of "[sampleReadRow 400, sampleReadRow 700]"] m sample_dimension
    by (cases "dimensionRow sampleGo ?d ''f'' ''c'' [sampleReadRow 400, sampleReadRow 700]") auto
  ultimately show ?thesis
    using R [of "[sampleReadRow 400, sampleReadRow 700]"] m sample_dimension k by auto
qed

section \<open>Hours and recent events\<close>

lemma sum_update:
  "gwf m \<Longrightarrow> sum_list (map snd (AList.update k (gget m k 0 + v) m)) = sum_list (map snd m) + (v :: int)"
proof (induction m)
  case (Cons kv m)
  have "k \<notin> fst ` set m \<Longrightarrow> gget m k 0 = 0" by (simp add: gget_def map_of_eq_None_iff [THEN iffD2] image_def)
  then show ?case using Cons by (cases kv) (auto simp: gget_def)
qed simp

lemma countHours_spec:
  "gwf m \<Longrightarrow> (\<And>h. 0 \<le> gget m h 0 \<and> gget m h 0 + int (length ts) \<le> max_int64) \<Longrightarrow>
     gwf (countHours ts m)
     \<and> (\<forall>h. gget (countHours ts m) h 0 = gget m h 0 + int (length (filter (\<lambda>t. fmtHour t = h) ts)))
     \<and> sum_list (map snd (countHours ts m)) = sum_list (map snd m) + int (length ts)
     \<and> (\<forall>h. h \<in> fst ` set (countHours ts m) \<longleftrightarrow> h \<in> fst ` set m \<or> h \<in> fmtHour ` set ts)"
proof (induction ts arbitrary: m)
  case (Cons t ts)
  let ?m = "AList.update (fmtHour t) (gget m (fmtHour t) 0 + 1) m"
  have w: "wrap64 (gget m (fmtHour t) 0 + 1) = gget m (fmtHour t) 0 + 1"
    using Cons.prems(2) [of "fmtHour t"] by (intro wrap64_id) (simp_all add: min_int64_def)
  have "gwf ?m" using Cons.prems(1) by simp
  moreover have "0 \<le> gget ?m h 0 \<and> gget ?m h 0 + int (length ts) \<le> max_int64" for h
    using Cons.prems(2) [of h] by auto
  ultimately have IH: "gwf (countHours ts ?m)
     \<and> (\<forall>h. gget (countHours ts ?m) h 0 = gget ?m h 0 + int (length (filter (\<lambda>t. fmtHour t = h) ts)))
     \<and> sum_list (map snd (countHours ts ?m)) = sum_list (map snd ?m) + int (length ts)
     \<and> (\<forall>h. h \<in> fst ` set (countHours ts ?m) \<longleftrightarrow> h \<in> fst ` set ?m \<or> h \<in> fmtHour ` set ts)"
    using Cons.IH [of ?m] by blast
  have step: "countHours (t # ts) m = countHours ts ?m" by (simp add: w)
  have dom: "fst ` set ?m = insert (fmtHour t) (fst ` set m)" by (simp add: dom_update)
  show ?case
    unfolding step using IH sum_update [OF Cons.prems(1), of "fmtHour t" 1] dom by auto
qed simp

lemma sum_sort_key: "sum_list (map g (sort_key f xs)) = sum_list (map (g :: _ \<Rightarrow> int) xs)"
proof -
  have "sum_mset (image_mset g (mset (sort_key f xs))) = sum_mset (image_mset g (mset xs))" by simp
  then show ?thesis unfolding sum_mset_sum_list [symmetric] mset_map .
qed

text \<open>The order of a range changes nothing but the order.\<close>

lemma mset_rangeOrder [simp]: "mset (rangeOrder ns xs) = mset xs"
proof (induction ns xs rule: rangeOrder.induct)
  case (1 ns xs)
  show ?case
  proof (cases "ns = [] \<or> xs = []")
    case True
    then show ?thesis by (auto simp: rangeOrder.simps [of ns xs] split: list.splits)
  next
    case False
    then obtain n ns' where ns: "ns = n # ns'" "xs \<noteq> []" by (cases ns) auto
    let ?i = "n mod length xs"
    have i: "?i < length xs" using ns(2) by simp
    have "mset (rangeOrder ns xs) = add_mset (xs ! ?i) (mset (take ?i xs @ drop (Suc ?i) xs))"
      using 1 [OF ns(1,2) refl] ns(2) by (simp add: ns(1) rangeOrder.simps [of "n # ns'" xs] Let_def)
    also have "\<dots> = mset (take ?i xs @ xs ! ?i # drop (Suc ?i) xs)" by simp
    also have "\<dots> = mset xs" using id_take_nth_drop [OF i] by simp
    finally show ?thesis .
  qed
qed

lemma set_rangeOrder [simp]: "set (rangeOrder ns xs) = set xs"
  by (rule mset_eq_setD) simp

lemma gwf_rangeOrder: "gwf m \<Longrightarrow> gwf (rangeOrder ns m)"
  using mset_map_distinct [OF mset_rangeOrder [of ns m, symmetric], of fst] by simp

lemma gget_rangeOrder: "gwf m \<Longrightarrow> gget (rangeOrder ns m) k d = gget m k d"
  using map_of_eqI [of "rangeOrder ns m" m] gwf_rangeOrder [of m ns]
  by (metis (no_types, lifting) gget_def gwf_mem_iff set_rangeOrder not_Some_eq)

lemma sum_rangeOrder: "sum_list (map g (rangeOrder ns xs)) = sum_list (map (g :: _ \<Rightarrow> int) xs)"
  using arg_cong [OF mset_rangeOrder, of "\<lambda>m. sum_mset (image_mset g m)"]
  unfolding sum_mset_sum_list [symmetric] mset_map .

lemma bucket_spec:
  assumes "int (length ts) \<le> max_int64"
  shows "sorted (map Hour (bucket go ts)) \<and> distinct (map Hour (bucket go ts))
    \<and> Hour ` set (bucket go ts) = fmtHour ` set ts
    \<and> (\<forall>h \<in> set (bucket go ts). Count h = int (length (filter (\<lambda>t. fmtHour t = Hour h) ts)))
    \<and> sum_list (map Count (bucket go ts)) = int (length ts)"
proof -
  let ?m = "rangeOrder (rangeHours go ts) (countHours ts [])" and ?f = "\<lambda>(h, n). \<lparr>Hour = h, Count = n\<rparr>"
  have S: "gwf ?m" "\<forall>h. gget ?m h 0 = int (length (filter (\<lambda>t. fmtHour t = h) ts))"
    "sum_list (map snd ?m) = int (length ts)" "\<forall>h. h \<in> fst ` set ?m \<longleftrightarrow> h \<in> fmtHour ` set ts"
    using countHours_spec [of "[]" ts] assms by (simp_all add: gwf_rangeOrder gget_rangeOrder sum_rangeOrder)
  have H: "map Hour (map ?f ?m) = map fst ?m" "map Count (map ?f ?m) = map snd ?m" by (simp_all add: comp_def split_def)
  have perm: "mset (bucket go ts) = mset (map ?f ?m)" by (simp add: bucket_def)
  have "distinct (map Hour (bucket go ts))"
    using mset_map_distinct [OF perm, of Hour] S(1) unfolding H(1) by simp
  moreover have "sorted (map Hour (bucket go ts))" by (simp add: bucket_def)
  moreover have "Hour ` set (bucket go ts) = fst ` set ?m"
    using mset_eq_setD [OF perm] H(1) by (metis list.set_map)
  moreover have "Count h = gget ?m (Hour h) 0" if "h \<in> set (bucket go ts)" for h
  proof -
    have "h \<in> ?f ` set ?m" using that mset_eq_setD [OF perm] unfolding set_map by blast
    then obtain k n where kn: "(k, n) \<in> set ?m" "h = \<lparr>Hour = k, Count = n\<rparr>" by auto
    have "map_of ?m k = Some n" using gwf_mem_iff [OF S(1)] kn(1) by blast
    then show ?thesis using kn(2) by (simp add: gget_def)
  qed
  moreover have "sum_list (map Count (bucket go ts)) = sum_list (map snd ?m)"
    using sum_sort_key [of Count Hour "map ?f ?m"] unfolding bucket_def H(2) .
  ultimately show ?thesis using S by auto
qed

lemma recentOf_spec:
  assumes "newestFirst go"
  shows "length (recentOf go grp) = min 50 (length grp)
    \<and> sorted_wrt (\<lambda>a b. TS b \<le> TS a) (recentOf go grp)
    \<and> (\<exists>older. mset grp = mset (recentOf go grp) + mset older
        \<and> (\<forall>a \<in> set (recentOf go grp). \<forall>b \<in> set older. TS b \<le> TS a))"
proof -
  have B: "mset (sortByTime go grp) = mset grp" "sorted_wrt (\<lambda>a b. TS b \<le> TS a) (sortByTime go grp)"
    using assms by (simp_all add: newestFirst_def)
  have len: "length (sortByTime go grp) = length grp" using B(1) by (metis size_mset)
  define xs ys where "xs = take 50 (sortByTime go grp)" and "ys = drop 50 (sortByTime go grp)"
  have split: "sortByTime go grp = xs @ ys" by (simp add: xs_def ys_def)
  have "sorted_wrt (\<lambda>a b. TS b \<le> TS a) (xs @ ys)" using B(2) split by simp
  then have "sorted_wrt (\<lambda>a b. TS b \<le> TS a) xs" "\<forall>a \<in> set xs. \<forall>b \<in> set ys. TS b \<le> TS a"
    by (simp_all add: sorted_wrt_append)
  moreover have "mset grp = mset xs + mset ys" using B(1) split by (metis mset_append)
  moreover have "recentOf go grp = xs" by (simp add: recentOf_def maxRecentPerGroup_def xs_def)
  ultimately show ?thesis using len by (auto simp: recentOf_def maxRecentPerGroup_def min_def)
qed


lemma sampleGo_newest: "newestFirst sampleGo"
proof -
  have "sorted_wrt (\<lambda>a b. TS b \<le> TS a) (sort_key (\<lambda>r. - TS r) rs)" for rs :: "Row list"
    using sorted_sort_key [of "\<lambda>r. - TS r" rs] unfolding sorted_map by simp
  then show ?thesis by (simp add: newestFirst_def sampleGo_def)
qed


section \<open>Grouping\<close>

definition groupAll :: "(Row \<Rightarrow> 'k) \<Rightarrow> Row list \<Rightarrow> ('k, Row list) gomap \<Rightarrow> ('k, Row list) gomap" where
  "groupAll key rs g = foldl (\<lambda>g r. addTo (key r) r g) g rs"

lemma groupByOCC_groupAll: "groupByOCC rs g = groupAll occKeyOf (filter (\<lambda>r. Kind r = ''occ'') rs) g"
  by (induction rs arbitrary: g) (simp_all add: groupAll_def)

lemma groupByRead_groupAll: "groupByRead rs g = groupAll readKeyOf (filter (\<lambda>r. Kind r = ''read'') rs) g"
  by (induction rs arbitrary: g) (simp_all add: groupAll_def)

lemma groupAll_spec:
  "gwf g \<Longrightarrow> gwf (groupAll key rs g)
     \<and> (\<forall>k. gget (groupAll key rs g) k [] = gget g k [] @ filter (\<lambda>r. key r = k) rs)
     \<and> fst ` set (groupAll key rs g) = fst ` set g \<union> key ` set rs"
proof (induction rs arbitrary: g)
  case (Cons r rs)
  have "gwf (addTo (key r) r g)" using Cons.prems by (simp add: addTo_def)
  from Cons.IH [OF this] show ?case
    by (auto simp: groupAll_def addTo_def dom_update)
qed (simp add: groupAll_def)

lemma groupAll_mem:
  "(k, grp) \<in> set (groupAll key rs []) \<longleftrightarrow> grp = filter (\<lambda>r. key r = k) rs \<and> k \<in> key ` set rs"
proof -
  have S: "gwf (groupAll key rs [])" "gget (groupAll key rs []) k [] = filter (\<lambda>r. key r = k) rs"
    "fst ` set (groupAll key rs []) = key ` set rs"
    using groupAll_spec [of "[]" key rs] by simp_all
  have "(k, grp) \<in> set (groupAll key rs []) \<longleftrightarrow> map_of (groupAll key rs []) k = Some grp"
    using S(1) by (rule gwf_mem_iff)
  moreover have "map_of (groupAll key rs []) k = None \<longleftrightarrow> k \<notin> key ` set rs"
    using S(3) by (simp add: map_of_eq_None_iff)
  ultimately show ?thesis using S(2) by (cases "map_of (groupAll key rs []) k") (auto simp: gget_def)
qed

definition occRows :: "Row list \<Rightarrow> occKey \<Rightarrow> Row list" where
  "occRows rs k = filter (\<lambda>r. Kind r = ''occ'' \<and> occKeyOf r = k) rs"

definition readRows :: "Row list \<Rightarrow> readKey \<Rightarrow> Row list" where
  "readRows rs k = filter (\<lambda>r. Kind r = ''read'' \<and> readKeyOf r = k) rs"

lemma groupByOCC_mem: "(k, grp) \<in> set (groupByOCC rs []) \<longleftrightarrow> grp = occRows rs k \<and> occRows rs k \<noteq> []"
  by (auto simp: groupByOCC_groupAll groupAll_mem occRows_def filter_empty_conv conj_commute)

lemma groupByRead_mem: "(k, grp) \<in> set (groupByRead rs []) \<longleftrightarrow> grp = readRows rs k \<and> readRows rs k \<noteq> []"
  by (auto simp: groupByRead_groupAll groupAll_mem readRows_def filter_empty_conv conj_commute)

section \<open>The reply of a query\<close>

text \<open>\<open>rowLess\<close> is the lexicographic order, so the sorted reply is unique.\<close>

lemma rowLess_less: "rowLess a b \<longleftrightarrow> a < b"
proof (induction a b rule: rowLess.induct)
  case (1 b)
  then show ?case by (cases b) simp_all
qed (auto simp: Cons_less_Cons)

lemma insertRow_insort: "insertRow r ss = insort r ss"
  by (induction ss) (auto simp: rowLess_less not_less [symmetric])

lemma sortRows_sort: "sortRows rs = sort rs"
  by (simp add: sortRows_def sort_key_def insertRow_insort [abs_def])

lemma dimensionRows_mem:
  "row \<in> set (dimensionRows go ds u c grp) \<longleftrightarrow> (\<exists>d \<in> set ds. dimensionRow go d u c grp = Some row)"
  by (induction ds) (auto split: option.splits)

text \<open>A reply: one row for every group of conflicts, and one for every group of reads over a threshold.\<close>

definition occReply :: "choices \<Rightarrow> Row list \<Rightarrow> string list multiset" where
  "occReply go rs =
     image_mset (\<lambda>k. buildOCCRow go k (occRows rs k)) (mset_set (occKeyOf ` {r \<in> set rs. Kind r = ''occ''}))"

definition readReply :: "choices \<Rightarrow> readDimension \<Rightarrow> Row list \<Rightarrow> string list multiset" where
  "readReply go d rs =
     image_mset (\<lambda>k. the (dimensionRow go d (fst k) (snd k) (readRows rs k)))
       (mset_set {k \<in> readKeyOf ` {r \<in> set rs. Kind r = ''read''}. \<exists>r \<in> set (readRows rs k). dimThreshold d \<le> measure d r})"

lemma mset_groupAll:
  "mset (groupAll key rs []) = image_mset (\<lambda>k. (k, filter (\<lambda>r. key r = k) rs)) (mset_set (key ` set rs))"
proof -
  have "gwf (groupAll key rs [])" using groupAll_spec [of "[]" key rs] by simp
  then have "distinct (groupAll key rs [])" by (simp add: distinct_map)
  moreover have "set (groupAll key rs []) = (\<lambda>k. (k, filter (\<lambda>r. key r = k) rs)) ` key ` set rs"
    using groupAll_mem [of _ _ key rs] by auto
  moreover have "inj_on (\<lambda>k. (k, filter (\<lambda>r. key r = k) rs)) (key ` set rs)" by (simp add: inj_on_def)
  ultimately show ?thesis by (simp add: mset_set_set [symmetric] image_mset_mset_set)
qed

lemma mset_groupByOCC:
  "mset (groupByOCC rs []) = image_mset (\<lambda>k. (k, occRows rs k)) (mset_set (occKeyOf ` {r \<in> set rs. Kind r = ''occ''}))"
  by (simp add: groupByOCC_groupAll mset_groupAll occRows_def conj_commute)

lemma mset_groupByRead:
  "mset (groupByRead rs []) = image_mset (\<lambda>k. (k, readRows rs k)) (mset_set (readKeyOf ` {r \<in> set rs. Kind r = ''read''}))"
  by (simp add: groupByRead_groupAll mset_groupAll readRows_def conj_commute)

lemma aggregateOCC_mset: "mset (aggregateOCC go rs) = occReply go rs"
  by (simp add: aggregateOCC_def occReply_def mset_groupByOCC multiset.map_comp comp_def)

lemma dimensionRow_None:
  "dimensionRow go d u c grp = None \<longleftrightarrow> \<not> (\<exists>r \<in> set grp. dimThreshold d \<le> measure d r)"
  by (auto simp: dimensionRow_def overThreshold_spec filter_empty_conv not_less not_le Let_def)

definition rowBag :: "'a option \<Rightarrow> 'a multiset" where
  "rowBag x = (case x of None \<Rightarrow> {#} | Some r \<Rightarrow> {#r#})"

lemma mset_dimensionRows: "mset (dimensionRows go ds u c grp) = (\<Sum>d\<in>#mset ds. rowBag (dimensionRow go d u c grp))"
  by (induction ds) (auto simp: rowBag_def split: option.splits)

lemma sum_rowBag: "(\<Sum>k\<in>#K. rowBag (f k)) = image_mset (\<lambda>k. the (f k)) (filter_mset (\<lambda>k. f k \<noteq> None) K)"
  by (induction K) (auto simp: rowBag_def)

lemma readReply_sum:
  "readReply go d rs =
     (\<Sum>k\<in>#mset_set (readKeyOf ` {r \<in> set rs. Kind r = ''read''}). rowBag (dimensionRow go d (fst k) (snd k) (readRows rs k)))"
  unfolding sum_rowBag readReply_def by (simp add: dimensionRow_None)

lemma aggregateRead_mset:
  "mset (aggregateRead go rs l) = readReply go (bytesDimension l) rs + readReply go (docsDimension l) rs"
proof -
  let ?K = "mset_set (readKeyOf ` {r \<in> set rs. Kind r = ''read''})"
  have "mset (aggregateRead go rs l) =
      (\<Sum>(k, grp)\<in>#mset (groupByRead rs []). mset (dimensionRows go [bytesDimension l, docsDimension l] (fst k) (snd k) grp))"
    by (simp add: aggregateRead_def mset_concat sum_mset_sum_list [symmetric] multiset.map_comp comp_def split_def
        del: dimensionRows.simps)
  also have "\<dots> = (\<Sum>k\<in>#?K. rowBag (dimensionRow go (bytesDimension l) (fst k) (snd k) (readRows rs k))
      + rowBag (dimensionRow go (docsDimension l) (fst k) (snd k) (readRows rs k)))"
    by (simp add: mset_groupByRead multiset.map_comp comp_def mset_dimensionRows del: dimensionRows.simps)
  finally show ?thesis unfolding readReply_sum by (simp add: sum_mset.distrib)
qed

lemma parseDate_range:
  assumes "parseDate s = Some t"
  shows "\<exists>y m d. 0 \<le> y \<and> y \<le> 9999 \<and> 1 \<le> m \<and> m \<le> 12 \<and> 1 \<le> d \<and> d \<le> 31 \<and> t = daysFrom y m d * nsPerDay"
proof -
  obtain y m d where ymd: "digitsAt 0 4 s = Some y" "digitsAt 5 2 s = Some m" "digitsAt 8 2 s = Some d"
    "1 \<le> m" "m \<le> 12" "1 \<le> d" "d \<le> daysIn m y" "t = daysFrom y m d * nsPerDay" "length s = 10"
    using assms by (auto simp: parseDate_def split: if_splits option.splits)
  obtain n where n: "parseNat (take 4 s) = Some n" "y = int n" using ymd(1) by (auto simp: digitsAt_def)
  have "list_all isDigit (take 4 s)" "digitsVal 0 (take 4 s) = n" using n(1) by (auto simp: parseNat_def split: if_splits)
  moreover obtain c1 c2 c3 c4 where "take 4 s = [c1, c2, c3, c4]"
    using ymd(9) by (cases s; cases "tl s"; cases "tl (tl s)"; cases "tl (tl (tl s))") auto
  ultimately have "n \<le> 9999" by (auto simp: digitsVal_def isDigit_def digitVal_def)
  moreover have "d \<le> 31" using ymd(7) by (auto simp: daysIn_def split: if_splits)
  ultimately show ?thesis using ymd n(2) by (intro exI [of _ y] exI [of _ m] exI [of _ d]) simp
qed

lemma daysFrom_range:
  assumes "0 \<le> y" "y \<le> 9999" "1 \<le> m" "m \<le> 12" "1 \<le> d" "d \<le> 31"
  shows "- 1000 \<le> daysFrom y m d \<and> daysFrom y m d \<le> 10000000"
proof -
  define y' where "y' = (if m \<le> 2 then y - 1 else y)"
  define mp where "mp = (if m > 2 then m - 3 else m + 9)"
  have y': "- 1 \<le> y'" "y' \<le> 9999" and mp: "0 \<le> mp" "mp \<le> 11" using assms by (auto simp: y'_def mp_def)
  define e q where "e = y' div 400" and "q = y' mod 400"
  have q: "0 \<le> q" "q < 400" "y' = 400 * e + q" by (simp_all add: e_def q_def)
  have e: "- 1 \<le> e" "e \<le> 24" using y' q by auto
  have eq: "daysFrom y m d = e * 146097 + (q * 365 + q div 4 - q div 100 + ((153 * mp + 2) div 5 + d - 1)) - 306"
    by (simp add: daysFrom_def Let_def y'_def mp_def e_def q_def)
  have "0 \<le> q div 4 - q div 100" "q div 4 \<le> 100" "0 \<le> q div 100" using q by auto
  moreover have "0 \<le> (153 * mp + 2) div 5" "(153 * mp + 2) div 5 \<le> 400" using mp by auto
  moreover have "e = - 1 \<Longrightarrow> q = 399" using q y' by auto
  ultimately show ?thesis unfolding eq using e q assms(5,6) by (cases "e = - 1") auto
qed

lemma toUnixMilli_mono:
  assumes "- (2 ^ 62) \<le> t" "t \<le> u" "u \<le> 10 ^ 24"
  shows "toUnixMilli t = (t - unixEpoch) div millisecond \<and> toUnixMilli t \<le> toUnixMilli u"
proof -
  have m: "(t - unixEpoch) div millisecond \<le> (u - unixEpoch) div millisecond"
    using assms(2) by (intro zdiv_mono1) (simp_all add: millisecond_def)
  have "min_int64 \<le> (t - unixEpoch) div millisecond" "(u - unixEpoch) div millisecond \<le> max_int64"
    using assms by (auto simp: min_int64_def max_int64_def unixEpoch_def second_def millisecond_def)
  then show ?thesis using m by (simp add: toUnixMilli_def)
qed

text \<open>
  The range of a query is empty exactly when its last day lies before its first day.
\<close>

lemma query_range:
  assumes "parseDate f = Some a0" "parseDate t = Some b0"
  shows "toUnixMilli (b0 + inclusiveEnd) \<le> toUnixMilli a0 \<longleftrightarrow> b0 < a0"
proof -
  obtain a b where ab: "a0 = a * nsPerDay" "b0 = b * nsPerDay" "- 1000 \<le> a" "a \<le> 10000000" "- 1000 \<le> b" "b \<le> 10000000"
    using parseDate_range [OF assms(1)] parseDate_range [OF assms(2)] daysFrom_range by metis
  have end_day: "b0 + inclusiveEnd = (b + 1) * nsPerDay"
    by (simp add: ab(2) inclusiveEnd_def nsPerDay_def second_def algebra_simps)
  have ms: "toUnixMilli (k * nsPerDay) = k * 86400000 - 62135596800000" if "- 1000 \<le> k" "k \<le> 10000001" for k
    using toUnixMilli_mono [of "k * nsPerDay" "k * nsPerDay"] that
    by (simp add: nsPerDay_def second_def unixEpoch_def millisecond_def)
  show ?thesis
    using ms [of a] ms [of "b + 1"] ab unfolding end_day
    by (auto simp: nsPerDay_def second_def)
qed

lemma Query_sorted:
  assumes "parseDate f = Some a" "parseDate t = Some b" "\<not> b < a"
    and "rowsOf i n (toUnixMilli a) (toUnixMilli (b + inclusiveEnd)) = (rs, l)"
  shows "Query go i n f t = Inr (sort (aggregateOCC go rs @ aggregateRead go rs l))"
  using assms query_range [OF assms(1,2)] by (simp add: Query_def Let_def sortRows_sort)

text \<open>
  C22: a query fails exactly on a malformed date or when its last day lies before its first;
  otherwise its reply is an ascending list that holds exactly one row for every group of conflicts
  (rows of the same function, component, table and kind) and, for each of the two dimensions, exactly
  one for every group of reads (rows of the same function and component) that has a row at the
  threshold or above, each built of exactly the stored rows of the range that belong to the group.
\<close>

theorem query_exact:
  "(Query go i n f t = Inl ErrBadDate \<longleftrightarrow> parseDate f = None \<or> parseDate t = None)
   \<and> (Query go i n f t = Inl ErrBadDateRange \<longleftrightarrow>
        (\<exists>from to. parseDate f = Some from \<and> parseDate t = Some to \<and> to < from))
   \<and> Query go i n f t \<noteq> Inl ErrBadReadLimits
   \<and> (\<forall>out. Query go i n f t = Inr out \<longrightarrow>
        (\<exists>from to rs l. parseDate f = Some from \<and> parseDate t = Some to
          \<and> rowsOf i n (toUnixMilli from) (toUnixMilli (to + inclusiveEnd)) = (rs, l)
          \<and> sorted out
          \<and> mset out =
              image_mset (\<lambda>k. buildOCCRow go k (occRows rs k)) (mset_set (occKeyOf ` {r \<in> set rs. Kind r = ''occ''}))
            + (\<Sum>d\<in>#{#bytesDimension l, docsDimension l#}.
                 image_mset (\<lambda>k. the (dimensionRow go d (fst k) (snd k) (readRows rs k)))
                   (mset_set {k \<in> readKeyOf ` {r \<in> set rs. Kind r = ''read''}.
                      \<exists>r \<in> set (readRows rs k). dimThreshold d \<le> measure d r}))))"
proof (cases "parseDate f = None \<or> parseDate t = None")
  case True
  then show ?thesis by (auto simp: Query_def split: option.splits)
next
  case False
  then obtain a b where ft: "parseDate f = Some a" "parseDate t = Some b" by auto
  obtain rs l where r: "rowsOf i n (toUnixMilli a) (toUnixMilli (b + inclusiveEnd)) = (rs, l)"
    by (cases "rowsOf i n (toUnixMilli a) (toUnixMilli (b + inclusiveEnd))")
  show ?thesis
  proof (cases "b < a")
    case True
    then show ?thesis using ft query_range [OF ft] by (simp add: Query_def Let_def)
  next
    case False
    show ?thesis
      unfolding Query_sorted [OF ft False r] using ft r False
      by (simp add: aggregateOCC_mset aggregateRead_mset occReply_def readReply_def)
  qed
qed

text \<open>Two conflicts of one function and a read of another, on one day.\<close>

definition sampleDay :: instant where "sampleDay = 738944 * nsPerDay"

definition sampleConflict :: "string \<Rightarrow> Row" where
  "sampleConflict u = (occRow sampleDay [])\<lparr>UDFID := u, TS := sampleDay\<rparr>"

definition sampleStore :: Insights where
  "sampleStore = (NewInsights 5)\<lparr>mem := [(''dev'', \<lparr>rows = [sampleConflict ''m.js:f'', sampleConflict ''m.js:f'',
     (sampleReadRow 700)\<lparr>UDFID := ''m.js:g'', TS := sampleDay\<rparr>], start = 0, limits = sampleLimits\<rparr>)]\<rparr>"

theorem query_exact_witness:
  "Query sampleGo sampleStore ''dev'' ''2024-02-30'' ''2024-03-01'' = Inl ErrBadDate
   \<and> Query sampleGo sampleStore ''dev'' ''2024-03-02'' ''2024-03-01'' = Inl ErrBadDateRange
   \<and> (\<exists>out. Query sampleGo sampleStore ''dev'' ''2024-02-29'' ''2024-02-29'' = Inr out \<and> length out = 2)"
proof -
  have p: "parseDate ''2024-02-30'' = None" "parseDate ''2024-03-02'' = Some (738946 * nsPerDay)"
    "parseDate ''2024-03-01'' = Some (738945 * nsPerDay)" "parseDate ''2024-02-29'' = Some sampleDay"
    by code_simp+
  note Q = query_exact [of sampleGo sampleStore "''dev''"]
  have "Query sampleGo sampleStore ''dev'' ''2024-02-30'' ''2024-03-01'' = Inl ErrBadDate"
    using Q [of "''2024-02-30''" "''2024-03-01''"] p(1) by simp
  moreover have "Query sampleGo sampleStore ''dev'' ''2024-03-02'' ''2024-03-01'' = Inl ErrBadDateRange"
    using Q [of "''2024-03-02''" "''2024-03-01''"] p(2,3) by (simp add: nsPerDay_def second_def)
  moreover have "\<exists>out. Query sampleGo sampleStore ''dev'' ''2024-02-29'' ''2024-02-29'' = Inr out \<and> length out = 2"
  proof -
    let ?c = "sampleConflict ''m.js:f''" and ?r = "(sampleReadRow 700)\<lparr>UDFID := ''m.js:g'', TS := sampleDay\<rparr>"
    have r: "rowsOf sampleStore ''dev'' (toUnixMilli sampleDay) (toUnixMilli (sampleDay + inclusiveEnd))
        = ([?c, ?c, ?r], sampleLimits)"
      by code_simp
    have "Query sampleGo sampleStore ''dev'' ''2024-02-29'' ''2024-02-29'' \<notin> {Inl ErrBadDate, Inl ErrBadDateRange, Inl ErrBadReadLimits}"
      using Q [of "''2024-02-29''" "''2024-02-29''"] p(4) by simp
    then obtain out where out: "Query sampleGo sampleStore ''dev'' ''2024-02-29'' ''2024-02-29'' = Inr out"
      by (cases "Query sampleGo sampleStore ''dev'' ''2024-02-29'' ''2024-02-29''") (auto, metis insightsError.exhaust)
    have k: "Kind ?c = ''occ''" "Kind ?r = ''read''" by code_simp+
    have d: "dimThreshold (bytesDimension sampleLimits) \<le> measure (bytesDimension sampleLimits) ?r"
      "\<not> dimThreshold (docsDimension sampleLimits) \<le> measure (docsDimension sampleLimits) ?r"
      unfolding bytesDimension_def docsDimension_def sampleLimits_def threshold_def by code_simp+
    have "{x \<in> set [?c, ?c, ?r]. Kind x = ''occ''} = {?c}" "{x \<in> set [?c, ?c, ?r]. Kind x = ''read''} = {?r}"
      using k by auto
    moreover have "readRows [?c, ?c, ?r] (readKeyOf ?r) = [?r]" using k by (simp add: readRows_def)
    moreover obtain "mset out =
              image_mset (\<lambda>k. buildOCCRow sampleGo k (occRows [?c, ?c, ?r] k)) (mset_set (occKeyOf ` {x \<in> set [?c, ?c, ?r]. Kind x = ''occ''}))
            + (\<Sum>d\<in>#{#bytesDimension sampleLimits, docsDimension sampleLimits#}.
                 image_mset (\<lambda>k. the (dimensionRow sampleGo d (fst k) (snd k) (readRows [?c, ?c, ?r] k)))
                   (mset_set {k \<in> readKeyOf ` {x \<in> set [?c, ?c, ?r]. Kind x = ''read''}.
                      \<exists>x \<in> set (readRows [?c, ?c, ?r] k). dimThreshold d \<le> measure d x}))"
      using Q [of "''2024-02-29''" "''2024-02-29''"] out p(4) r by auto
    moreover have "{k \<in> {readKeyOf ?r}. P k} = (if P (readKeyOf ?r) then {readKeyOf ?r} else {})" for P by auto
    ultimately have "size (mset out) = 2" using d by simp
    then show ?thesis using out by simp
  qed
  ultimately show ?thesis by blast
qed

lemma bucket_order_independent: "bucket go ts = bucket go' ts"
proof -
  let ?f = "\<lambda>(h, n). \<lparr>Hour = h, Count = n\<rparr>"
  have gwf: "gwf (countHours ts m)" if "gwf m" for m
    using that by (induction ts arbitrary: m) simp_all
  have "distinct (map Hour (map ?f (countHours ts [])))"
    using gwf [of "[]"] by (simp add: comp_def split_def)
  then have inj: "inj_on Hour (set (map ?f (countHours ts [])))" by (simp only: distinct_map)
  show ?thesis
    unfolding bucket_def
    by (rule sort_key_inj_key_eq) (use inj in \<open>simp_all add: inj_on_def\<close>)
qed

text \<open>
  C36: the reply to a query does not depend on the order in which Go ranges over its maps: neither
  over the groups of conflicts, nor over those of reads, nor over the hours in which the events of
  a row are counted.
\<close>

theorem query_order_independent:
  assumes "sortByTime go' = sortByTime go"
  shows "Query go' i n f t = Query go i n f t"
proof -
  have b: "bucket go' = bucket go" using bucket_order_independent by blast
  have r: "recentOf go' = recentOf go" using assms by (intro ext) (simp add: recentOf_def)
  have "buildOCCRow go' = buildOCCRow go" by (intro ext) (simp add: buildOCCRow_def occBody_def b r)
  moreover have rb: "readBody go' = readBody go" by (intro ext) (simp add: readBody_def b r)
  have "dimensionRow go' = dimensionRow go" by (intro ext) (unfold dimensionRow_def rb, rule refl)
  ultimately have "mset (aggregateOCC go' rs @ aggregateRead go' rs l) = mset (aggregateOCC go rs @ aggregateRead go rs l)"
    for rs l by (simp add: aggregateOCC_mset aggregateRead_mset occReply_def readReply_def)
  then have s: "sort (aggregateOCC go' rs @ aggregateRead go' rs l) = sort (aggregateOCC go rs @ aggregateRead go rs l)" for rs l
    by (metis mset_sort properties_for_sort sorted_sort)
  show ?thesis unfolding Query_def sortRows_sort s by (rule refl)
qed

theorem query_order_independent_witness:
  "Query (sampleGo\<lparr>rangeOCC := [1], rangeRead := [2, 1], rangeHours := (\<lambda>ts. [length ts])\<rparr>) sampleStore ''dev'' ''2024-02-29'' ''2024-03-01''
    = Query sampleGo sampleStore ''dev'' ''2024-02-29'' ''2024-03-01''"
  by (rule query_order_independent) simp

section \<open>Rows are well-typed\<close>

text \<open>
  A stored row is a conflict, with the fields of a conflict only, or a read, with the fields of
  a read only; its numbers are 64-bit integers and optional texts are not empty.
\<close>

definition int64 :: "int \<Rightarrow> bool" where
  "int64 n = (min_int64 \<le> n \<and> n \<le> max_int64)"

definition row_typed :: "Row \<Rightarrow> bool" where
  "row_typed r =
     ((Kind r = ''occ'' \<and> Success r = None \<and> Calls r = None
       \<or> Kind r = ''read'' \<and> OCCTableName r = None \<and> OCCDocumentID r = None \<and> OCCWriteSource r = None
         \<and> OCCRetryCount r = 0 \<and> \<not> OCCFailedPermanently r)
      \<and> int64 (OCCRetryCount r)
      \<and> (\<forall>cs. Calls r = Some cs \<longrightarrow> list_all (\<lambda>c. int64 (BytesRead c) \<and> int64 (DocumentsRead c)) cs)
      \<and> Some '''' \<notin> {ComponentPath r, OCCTableName r, OCCDocumentID r, OCCWriteSource r})"

lemma getInt_int64: "int64 (getInt m k)"
  by (auto simp: getInt_def int64_def ParseInt_def Let_def min_int64_def max_int64_def
      split: option.splits json.splits prod.splits if_splits)

lemma callsOf_typed: "list_all (\<lambda>c. int64 (BytesRead c) \<and> int64 (DocumentsRead c)) (callsOf xs)"
  by (induction xs rule: callsOf.induct) (simp_all add: getInt_int64)

lemma getStringPtr_nonempty: "getStringPtr m k \<noteq> Some ''''"
  by (auto simp: getStringPtr_def split: option.splits json.splits if_splits)

lemma makeRow_typed: "makeRow now kind p = Some r \<Longrightarrow> row_typed r"
  using getStringPtr_nonempty [of p] callsOf_typed
  by (auto simp: makeRow_def row_typed_def occRow_def readRow_def getInt_int64 getCalls_def eq_commute [of "Some ''''"]
      int64_def [of 0] min_int64_def max_int64_def split: if_splits option.splits json.splits)

lemma payloadRows_typed: "list_all row_typed (payloadRows clock i ps)"
  by (induction clock i ps rule: payloadRows.induct) (auto simp: makeRow_typed split: option.splits)

lemma rowsIn_typed: "list_all row_typed (rowsIn qs)"
  using payloadRows_typed by (induction qs) (auto simp: rowsIn_def makeRows_def list_all_iff)

text \<open>
  C38: whatever JSON the events hold, every row that a query can see is well-typed.
\<close>

theorem rows_well_typed:
  assumes "ingestAll (NewInsights cap) qs = Some i" and "0 < cap"
  shows "list_all row_typed (fst (rowsOf i n fromMs toMs))"
proof -
  have "contentsAt i n = (if accepted n qs = [] then [] else takeLast (nat cap) (rowsIn (accepted n qs)))"
    using ingestAll_spec [OF ins_inv_new [OF assms(2)], of qs n] assms(1)
    by (auto simp: NewInsights_def contentsAt_def)
  then have "set (contentsAt i n) \<subseteq> set (rowsIn (accepted n qs))"
    by (auto simp: takeLast_def dest: in_set_dropD)
  then show ?thesis using rowsIn_typed [of "accepted n qs"] by (auto simp: rowsOf_contents list_all_iff)
qed

theorem rows_well_typed_witness:
  "\<exists>i. ingestAll (NewInsights 1) [sampleReq ''dev'' ''5''] = Some i \<and> list_all row_typed (fst (rowsOf i ''dev'' 0 10))"
proof -
  obtain i where "ingestAll (NewInsights 1) [sampleReq ''dev'' ''5''] = Some i"
    using ingestAll_spec [OF ins_inv_new, of 1 "[sampleReq ''dev'' ''5'']"] by auto
  then show ?thesis using rows_well_typed [of 1 "[sampleReq ''dev'' ''5'']" i] by auto
qed

end

