(* ===== verification/GoTimeFacts.thy ===== *)
theory GoTimeFacts
  imports GoTime
begin

text \<open>
  The calendar of \<open>GoTime\<close> is right: every day has one civil date, a valid one, which counts
  back to the day; hence a printed date is parsed back. The year within an era of 400 years is
  found by bounding the day number between the starts of two years, checked for all 400.
\<close>

section \<open>The year of a day\<close>

text \<open>Day numbers count from the first of March; a year \<open>y\<close> of the era starts at \<open>yearStart y\<close>.\<close>

definition yearStart :: "int \<Rightarrow> int" where
  "yearStart y = 365 * y + y div 4 - y div 100 + y div 400"

definition yearScale :: "int \<Rightarrow> int" where
  "yearScale doe = doe - doe div 1460 + doe div 36524 - doe div 146096"

lemma yearScale_step: "yearScale n \<le> yearScale (n + 1)"
proof -
  have "(n + 1) div 1460 \<le> n div 1460 + 1" "n div 36524 \<le> (n + 1) div 36524" by linarith+
  moreover have "(n + 1) div 146096 - n div 146096 \<le> (n + 1) div 36524 - n div 36524"
  proof -
    have "m div 146096 = m div 36524 div 4" for m :: int using zdiv_zmult2_eq [of 4 m 36524] by simp
    moreover have "p div 4 - q div 4 \<le> p - q" if "q \<le> p" for p q :: int using that by linarith
    moreover have "n div 36524 \<le> (n + 1) div 36524" by linarith
    ultimately show ?thesis by simp
  qed
  ultimately show ?thesis by (simp add: yearScale_def)
qed

lemma yearScale_mono: "a \<le> b \<Longrightarrow> yearScale a \<le> yearScale b"
proof (induction b rule: int_ge_induct)
  case (step b)
  then show ?case using yearScale_step [of b] by linarith
qed simp

lemma years_bounded:
  "list_all (\<lambda>y. 365 * y \<le> yearScale (yearStart y) \<and> yearScale (yearStart (y + 1) - 1) < 365 * (y + 1)) [0..399]"
  by code_simp

lemma year_of_day:
  assumes "0 \<le> doe" and "doe < 146097"
  defines "y \<equiv> yearScale doe div 365"
  shows "0 \<le> y \<and> y \<le> 399 \<and> yearStart y \<le> doe \<and> doe < yearStart (y + 1)"
proof -
  have "0 \<le> yearScale doe" using yearScale_mono [OF assms(1)] by (simp add: yearScale_def)
  moreover have "yearScale doe \<le> 145999"
    using yearScale_mono [of doe 146096] assms(2) by (simp add: yearScale_def)
  ultimately have y: "0 \<le> y" "y \<le> 399" by (simp_all add: y_def)
  have b: "365 * z \<le> yearScale (yearStart z)" "yearScale (yearStart (z + 1) - 1) < 365 * (z + 1)"
    if "0 \<le> z" "z \<le> 399" for z
    using years_bounded that by (auto simp: list_all_iff)
  have "yearStart y \<le> doe"
  proof (rule ccontr)
    assume "\<not> yearStart y \<le> doe"
    then have lt: "doe \<le> yearStart y - 1" by simp
    then have "y \<noteq> 0" using assms(1) by (auto simp: yearStart_def)
    then have "yearScale (yearStart y - 1) < 365 * y" using b(2) [of "y - 1"] y by simp
    then show False using yearScale_mono [OF lt] by (simp add: y_def)
  qed
  moreover have "doe < yearStart (y + 1)"
  proof (rule ccontr)
    assume "\<not> doe < yearStart (y + 1)"
    then have ge: "yearStart (y + 1) \<le> doe" by simp
    show False
    proof (cases "y = 399")
      case True
      then show ?thesis using ge assms(2) by (simp add: yearStart_def)
    next
      case False
      then have "365 * (y + 1) \<le> yearScale (yearStart (y + 1))" using b(1) [of "y + 1"] y by simp
      then show ?thesis using yearScale_mono [OF ge] by (simp add: y_def)
    qed
  qed
  ultimately show ?thesis using y by blast
qed


section \<open>The month and the day\<close>

lemma div_succ:
  fixes x k :: int
  assumes "1 < k"
  shows "(x + 1) div k = x div k + (if (x + 1) mod k = 0 then 1 else 0)"
proof -
  have m: "(x + 1) mod k = (x mod k + 1) mod k" by (simp add: mod_add_left_eq)
  have d: "(x + 1) div k = x div k + (x mod k + 1) div k"
    using div_add1_eq [of x 1 k] assms by simp
  have r: "0 \<le> x mod k" "x mod k < k" using assms by simp_all
  show ?thesis
  proof (cases "x mod k + 1 = k")
    case True
    then show ?thesis using m d assms by simp
  next
    case False
    then show ?thesis using m d r by (simp add: div_pos_pos_trivial)
  qed
qed

lemma mod_era:
  fixes a e :: int
  shows "(a + 400 * e) mod 4 = a mod 4" "(a + 400 * e) mod 100 = a mod 100" "(a + 400 * e) mod 400 = a mod 400"
  using mod_mult_self2 [of a 4 "100 * e"] mod_mult_self2 [of a 100 "4 * e"] by simp_all

lemma civil_parts:
  fixes days
  defines "doe \<equiv> (days + 306) mod 146097" and "era \<equiv> (days + 306) div 146097"
  defines "yoe \<equiv> yearScale doe div 365"
  defines "doy \<equiv> doe - (365 * yoe + yoe div 4 - yoe div 100)"
  defines "mp \<equiv> (5 * doy + 2) div 153"
  shows "civil days = (yoe + 400 * era + (if mp < 10 then 0 else 1), if mp < 10 then mp + 3 else mp - 9,
      doy - (153 * mp + 2) div 5 + 1)"
    and "0 \<le> yoe" and "yoe \<le> 399" and "0 \<le> doy" and "doy \<le> 364 + (if isLeap (yoe + 1) then 1 else 0)"
    and "0 \<le> mp" and "mp \<le> 11"
proof -
  have d: "0 \<le> doe" "doe < 146097" by (simp_all add: doe_def)
  note y = year_of_day [OF d, folded yoe_def]
  show yr: "0 \<le> yoe" "yoe \<le> 399" using y by simp_all
  have z: "yoe div 400 = 0" using yr by simp
  show "0 \<le> doy" using y z by (simp add: yearStart_def doy_def)
  have next_start: "yearStart (yoe + 1) = 365 * yoe + yoe div 4 - yoe div 100 + 365 + (if isLeap (yoe + 1) then 1 else 0)"
  proof -
    define x where "x = yoe + 1"
    define p4 p100 p400 where "p4 = (x mod 4 = 0)" and "p100 = (x mod 100 = 0)" and "p400 = (x mod 400 = 0)"
    have D: "1 < k \<Longrightarrow> x div k = yoe div k + (if x mod k = 0 then 1 else 0)" for k
      unfolding x_def by (rule div_succ)
    have "p400 \<Longrightarrow> p100" "p100 \<Longrightarrow> p4" unfolding p4_def p100_def p400_def by (presburger, presburger)
    moreover have "isLeap x = (p4 \<and> (\<not> p100 \<or> p400))" by (simp add: isLeap_def p4_def p100_def p400_def)
    ultimately have leap: "(if isLeap x then 1 else 0 :: int) = (if p4 then 1 else 0) - (if p100 then 1 else 0) + (if p400 then 1 else 0)"
      by auto
    have "x div 4 = yoe div 4 + (if p4 then 1 else 0)" unfolding p4_def by (rule D) simp
    moreover have "x div 100 = yoe div 100 + (if p100 then 1 else 0)" unfolding p100_def by (rule D) simp
    moreover have "x div 400 = yoe div 400 + (if p400 then 1 else 0)" unfolding p400_def by (rule D) simp
    moreover have "365 * x = 365 * yoe + 365" by (simp add: x_def)
    ultimately show ?thesis using z unfolding yearStart_def x_def [symmetric] leap by linarith
  qed
  show doy: "doy \<le> 364 + (if isLeap (yoe + 1) then 1 else 0)"
    using y next_start by (simp add: doy_def split: if_splits)
  then show mp: "0 \<le> mp" "mp \<le> 11"
    using \<open>0 \<le> doy\<close> by (simp_all add: mp_def split: if_splits)
  have "(if mp < 10 then mp + 3 else mp - 9) \<le> 2 \<longleftrightarrow> \<not> mp < 10" using mp by simp
  moreover have "civil days = (yoe + 400 * era + (if (if mp < 10 then mp + 3 else mp - 9) \<le> 2 then 1 else 0),
      if mp < 10 then mp + 3 else mp - 9, doy - (153 * mp + 2) div 5 + 1)"
    unfolding civil_def Let_def mp_def doy_def yoe_def era_def doe_def yearScale_def by (rule refl)
  ultimately show "civil days = (yoe + 400 * era + (if mp < 10 then 0 else 1), if mp < 10 then mp + 3 else mp - 9,
      doy - (153 * mp + 2) div 5 + 1)"
    by (cases "mp < 10") simp_all
qed

lemma civil_valid:
  assumes "civil days = (y, m, d)"
  shows "1 \<le> m \<and> m \<le> 12 \<and> 1 \<le> d \<and> d \<le> daysIn m y \<and> daysFrom y m d = days"
proof -
  define doe where "doe = (days + 306) mod 146097"
  define era where "era = (days + 306) div 146097"
  define yoe where "yoe = yearScale doe div 365"
  define doy where "doy = doe - (365 * yoe + yoe div 4 - yoe div 100)"
  define mp where "mp = (5 * doy + 2) div 153"
  note c = civil_parts [of days, folded doe_def era_def, folded yoe_def, folded doy_def, folded mp_def]
  have e: "y = yoe + 400 * era + (if mp < 10 then 0 else 1)" "m = (if mp < 10 then mp + 3 else mp - 9)"
    "d = doy - (153 * mp + 2) div 5 + 1"
    using assms c(1) by simp_all
  have m: "1 \<le> m" "m \<le> 12" using e(2) c(6,7) by auto
  have d1: "1 \<le> d" unfolding e(3) mp_def by linarith
  have y': "(if m \<le> 2 then y - 1 else y) = yoe + 400 * era" using e(1,2) c(6,7) by (cases "mp < 10") simp_all
  have mp': "(if m > 2 then m - 3 else m + 9) = mp" using e(2) c(6,7) by (cases "mp < 10") simp_all
  have "days = era * 146097 + doe - 306"
    unfolding doe_def era_def using div_mult_mod_eq [of "days + 306" 146097] by linarith
  then have same: "daysFrom y m d = days"
    using c(2,3) e(3) by (simp add: daysFrom_def Let_def y' mp' doy_def)
  have leap: "isLeap (yoe + 400 * era + 1) = isLeap (yoe + 1)"
    using mod_era [of "yoe + 1" era] by (simp add: isLeap_def algebra_simps)
  have up: "5 * doy + 2 < 153 * (mp + 1)"     using div_mult_mod_eq [of "5 * doy + 2" 153] pos_mod_bound [of 153 "5 * doy + 2"]
    unfolding mp_def [symmetric] by simp
  have "mp \<in> {0, 1, 2, 3, 4, 5, 6, 7, 8, 9, 10, 11}"
    using c(6,7) by (simp only: insert_iff empty_iff) presburger
  then have "d \<le> daysIn m y"
    using up c(5) e leap by (elim insertE emptyE) (auto simp: daysIn_def)
  then show ?thesis using m d1 same by simp
qed

section \<open>Printing and parsing\<close>

lemma formatNat_length: "n < 10 ^ w \<Longrightarrow> 0 < w \<Longrightarrow> length (formatNat n) \<le> w"
proof (induction n arbitrary: w rule: formatNat.induct)
  case (1 n)
  show ?case
  proof (cases "n < 10")
    case True
    then show ?thesis using 1(3) by (subst formatNat.simps) simp
  next
    case False
    then obtain v where v: "w = Suc v" "0 < v" using 1(2,3) by (cases w; cases "w - 1") auto
    then have "length (formatNat (n div 10)) \<le> v" using 1(1) [OF False, of v] 1(2) by simp
    then show ?thesis using False v by (subst formatNat.simps) simp
  qed
qed

lemma digitsVal_zeros: "digitsVal 0 (replicate k (CHR ''0'') @ s) = digitsVal 0 s"
  by (induction k) (simp_all add: digitsVal_def digitVal_def)

lemma padNat_spec:
  assumes "n < 10 ^ w" and "0 < w"
  shows "length (padNat w n) = w \<and> parseNat (padNat w n) = Some n"
proof -
  have "list_all isDigit (replicate k (CHR ''0''))" for k by (induction k) (simp_all add: isDigit_def)
  then show ?thesis
    using formatNat_length [OF assms] formatNat_digits [of n] assms(2)
    by (simp add: padNat_def parseNat_def digitsVal_zeros digitsVal_formatNat)
qed

text \<open>The years the layout prints with four digits and no sign.\<close>

definition printable :: "instant \<Rightarrow> bool" where
  "printable t = (case civil (t div nsPerDay) of (y, m, d) \<Rightarrow> 0 \<le> y \<and> y \<le> 9999)"

lemma parse_fmtDate:
  assumes "printable t"
  shows "parseDate (fmtDate t) = Some (t div nsPerDay * nsPerDay)"
proof -
  obtain y m d where c: "civil (t div nsPerDay) = (y, m, d)" by (cases "civil (t div nsPerDay)")
  note v = civil_valid [OF c]
  have y: "0 \<le> y" "y \<le> 9999" using assms c by (simp_all add: printable_def)
  have "d \<le> 31" using v by (auto simp: daysIn_def split: if_splits)
  then have P: "length (padNat 4 (nat y)) = 4 \<and> parseNat (padNat 4 (nat y)) = Some (nat y)"
    "length (padNat 2 (nat m)) = 2 \<and> parseNat (padNat 2 (nat m)) = Some (nat m)"
    "length (padNat 2 (nat d)) = 2 \<and> parseNat (padNat 2 (nat d)) = Some (nat d)"
    using y v by (auto intro!: padNat_spec)
  have f: "fmtDate t = padNat 4 (nat y) @ CHR ''-'' # padNat 2 (nat m) @ CHR ''-'' # padNat 2 (nat d)"
    using c y by (simp add: fmtDate_def yearString_def)
  have "length (fmtDate t) = 10" "fmtDate t ! 4 = CHR ''-''" "fmtDate t ! 7 = CHR ''-''"
    "digitsAt 0 4 (fmtDate t) = Some y" "digitsAt 5 2 (fmtDate t) = Some m" "digitsAt 8 2 (fmtDate t) = Some d"
    using P y v unfolding f by (simp_all add: digitsAt_def nth_append)
  then show ?thesis using v by (simp add: parseDate_def)
qed


lemma fmtDate_text: "printable t \<Longrightarrow> fmtDate t \<noteq> ''''"
  using parse_fmtDate [of t] by (auto simp: parseDate_def)

end
