(* ===== verification/UsageApi.thy ===== *)
theory UsageApi
  imports Server InsightsFacts JsonFacts GoTimeFacts
begin

text \<open>
  The usage endpoints of bigbrain (\<open>server/server.go\<close>) over the insights: reading and decoding a
  request body, the order of the checks, the default range of a query. Inputs of an execution:
  \<open>sha\<close> (SHA-256), \<open>clock\<close> and \<open>now\<close> (\<open>time.Now\<close>), \<open>iter\<close> (the order in which Go ranges over the
  map of an event) and \<open>go\<close> (the choices of the insights). \<open>None\<close> is a panic.
\<close>

section \<open>Decoding the request\<close>

definition usageBodyLimit :: nat where "usageBodyLimit = 16 * 1024 * 1024"

record usageBody =
  ub_Deployment :: string
  ub_ReadLimits :: ReadLimits
  ub_Events :: "json option"

definition limitFields :: "ReadLimits field list" where
  "limitFields =
     [(''documents'', \<lambda>v l. map_option (\<lambda>n. l\<lparr>Documents := n\<rparr>) (decodeInt v (Documents l))),
      (''bytes'', \<lambda>v l. map_option (\<lambda>n. l\<lparr>Bytes := n\<rparr>) (decodeInt v (Bytes l))),
      (''warning_ratio'', \<lambda>v l. map_option (\<lambda>q. l\<lparr>WarningRatio := q\<rparr>) (decodeFloat v (WarningRatio l)))]"

text \<open>A raw field keeps whatever value it is given, \<open>null\<close> included.\<close>

definition usageFields :: "usageBody field list" where
  "usageFields =
     [(''deployment'', \<lambda>v b. map_option (\<lambda>s. b\<lparr>ub_Deployment := s\<rparr>) (decodeString v (ub_Deployment b))),
      (''read_limits'', \<lambda>v b. map_option (\<lambda>l. b\<lparr>ub_ReadLimits := l\<rparr>)
         (decodeStruct False limitFields v (ub_ReadLimits b))),
      (''events'', \<lambda>v b. Some (b\<lparr>ub_Events := Some v\<rparr>))]"

definition decodeUsage :: "string \<Rightarrow> usageBody option" where
  "decodeUsage raw = do {
     v \<leftarrow> parseJson raw;
     decodeStruct False usageFields v \<lparr>ub_Deployment = '''', ub_ReadLimits = noLimits, ub_Events = None\<rparr>
   }"

definition decodePayload :: "json \<Rightarrow> fields option" where
  "decodePayload v =
     (case v of
        JNull \<Rightarrow> Some []
      | JObj kvs \<Rightarrow> Some (lastWins (map (\<lambda>(k, x). (k, anyOf x)) kvs))
      | _ \<Rightarrow> None)"

definition decodeEvent :: "json \<Rightarrow> AnyEvent option" where
  "decodeEvent v =
     (case v of
        JNull \<Rightarrow> Some []
      | JObj kvs \<Rightarrow> map_option lastWins (those (map (\<lambda>(k, x). map_option (Pair k) (decodePayload x)) kvs))
      | _ \<Rightarrow> None)"

definition decodeEvents :: "json option \<Rightarrow> AnyEvent list option" where
  "decodeEvents raw =
     (case raw of
        None \<Rightarrow> Some []
      | Some JNull \<Rightarrow> Some []
      | Some (JArr vs) \<Rightarrow> those (map decodeEvent vs)
      | Some _ \<Rightarrow> None)"

section \<open>Handlers\<close>

datatype usageReply =
    UsageError string
  | Ingested nat
  | UsageRows "string list list"

fun insightsErrorText :: "insightsError \<Rightarrow> string" where
  "insightsErrorText ErrBadDate = ''dates must be YYYY-MM-DD''"
| "insightsErrorText ErrBadDateRange = ''from must be on or before to''"
| "insightsErrorText ErrBadReadLimits =
     ''read_limits needs documents > 0, bytes > 0 and 0 < warning_ratio <= 1''"

text \<open>
  \<open>io.ReadAll\<close> over \<open>http.MaxBytesReader\<close>: a body is its bytes and whether it ends properly;
  reading stops with an error of its own at the first byte beyond the limit.
\<close>

definition readUsageBody :: "string \<times> bool \<Rightarrow> (bool, string) sum" where
  "readUsageBody body =
     (case body of (bs, ended) \<Rightarrow>
        if length bs > usageBodyLimit then Inl True else if ended then Inr bs else Inl False)"

definition handleUsageIngest ::
  "(string \<Rightarrow> 'h) \<Rightarrow> (nat \<Rightarrow> instant) \<Rightarrow> (AnyEvent \<Rightarrow> AnyEvent) \<Rightarrow> (string, string) gomap \<Rightarrow> string
    \<Rightarrow> string \<times> bool \<Rightarrow> Insights \<Rightarrow> (Insights \<times> int \<times> usageReply) option" where
  "handleUsageIngest sha clock iter tokens header rd ins =
     (case readUsageBody rd of
        Inl tooLarge \<Rightarrow>
          Some (ins, if tooLarge then (413, UsageError ''usage body too large'')
                     else (400, UsageError ''invalid usage body''))
      | Inr raw \<Rightarrow>
          (case decodeUsage raw of
             None \<Rightarrow> Some (ins, 400, UsageError ''invalid usage body'')
           | Some body \<Rightarrow>
               if ub_Deployment body = '''' then Some (ins, 400, UsageError ''missing deployment'')
               else if \<not> bearerOK sha tokens header (ub_Deployment body)
               then Some (ins, 401, UsageError ''invalid usage token'')
               else (case decodeEvents (ub_Events body) of
                       None \<Rightarrow> Some (ins, 400, UsageError ''invalid usage events'')
                     | Some events \<Rightarrow>
                         (case Ingest clock ins (ub_Deployment body) (ub_ReadLimits body) (map iter events) of
                            None \<Rightarrow> None
                          | Some (ins', Inl e) \<Rightarrow> Some (ins', 400, UsageError (insightsErrorText e))
                          | Some (ins', Inr kept) \<Rightarrow> Some (ins', 200, Ingested kept)))))"

text \<open>The query of the URL is a map of its parameters; \<open>Get\<close> of an absent one is empty.\<close>

definition handleUsageQuery ::
  "(string \<Rightarrow> 'h) \<Rightarrow> choices \<Rightarrow> instant \<Rightarrow> (string, string) gomap \<Rightarrow> string
    \<Rightarrow> (string, string) gomap \<Rightarrow> Insights \<Rightarrow> int \<times> usageReply" where
  "handleUsageQuery sha go now tokens header q ins =
     (let dep = gget q ''deploymentName'' '''' in
      if dep = '''' then (400, UsageError ''deploymentName is required'')
      else if \<not> bearerOK sha tokens header dep then (401, UsageError ''invalid usage token'')
      else (let from0 = gget q ''from'' ''''; to0 = gget q ''to'' '''';
                to1 = (if to0 = '''' then fmtDate now else to0);
                from1 = (if from0 = '''' then fmtDate (now - 3 * nsPerDay) else from0)
            in (case Query go ins dep from1 to1 of
                  Inl e \<Rightarrow> (400, UsageError (insightsErrorText e))
                | Inr out \<Rightarrow> (200, UsageRows out))))"

section \<open>A token only reaches its own deployment\<close>

lemma Query_cong:
  assumes "contentsAt i n = contentsAt j n" and "limitsAt i n = limitsAt j n"
  shows "Query go i n f t = Query go j n f t"
proof -
  have "rowsOf i n = rowsOf j n" by (intro ext) (simp add: rowsOf_contents assms)
  then show ?thesis unfolding Query_def by (simp only:)
qed

lemma ingest_spec:
  assumes "ins_inv i"
  shows "\<exists>i' code reply. handleUsageIngest sha clock iter tokens header rd i = Some (i', code, reply)
    \<and> ins_inv i'
    \<and> (i' = i \<and> code \<noteq> 200
       \<or> (\<exists>body events. readUsageBody rd \<in> range Inr \<and> decodeUsage (fst rd) = Some body
            \<and> bearerOK sha tokens header (ub_Deployment body) \<and> decodeEvents (ub_Events body) = Some events
            \<and> validLimits (ub_ReadLimits body) \<and> code = 200
            \<and> reply = Ingested (length (makeRows clock (map iter events)))
            \<and> contentsAt i' (ub_Deployment body)
                = takeLast (nat (ringCap i)) (contentsAt i (ub_Deployment body) @ makeRows clock (map iter events))
            \<and> (\<forall>m. m \<noteq> ub_Deployment body \<longrightarrow> contentsAt i' m = contentsAt i m \<and> limitsAt i' m = limitsAt i m)))"
proof (cases "readUsageBody rd")
  case (Inl b)
  then show ?thesis using assms by (simp add: handleUsageIngest_def)
next
  case (Inr raw)
  then have raw: "raw = fst rd" by (auto simp: readUsageBody_def split: prod.splits if_splits)
  show ?thesis
  proof (cases "decodeUsage raw")
    case None
    then show ?thesis using Inr assms by (simp add: handleUsageIngest_def)
  next
    case (Some body)
    show ?thesis
    proof (cases "ub_Deployment body = '''' \<or> \<not> bearerOK sha tokens header (ub_Deployment body)
        \<or> decodeEvents (ub_Events body) = None")
      case True
      then show ?thesis using Inr Some assms by (auto simp: handleUsageIngest_def)
    next
      case False
      then obtain events where ev: "decodeEvents (ub_Events body) = Some events" by auto
      obtain i' where i': "Ingest clock i (ub_Deployment body) (ub_ReadLimits body) (map iter events) =
          Some (i', if validLimits (ub_ReadLimits body) then Inr (length (makeRows clock (map iter events)))
                    else Inl ErrBadReadLimits)" "ins_inv i'"
        "contentsAt i' (ub_Deployment body) = (if validLimits (ub_ReadLimits body)
          then takeLast (nat (ringCap i)) (contentsAt i (ub_Deployment body) @ makeRows clock (map iter events))
          else contentsAt i (ub_Deployment body))"
        "\<forall>m. m \<noteq> ub_Deployment body \<longrightarrow> contentsAt i' m = contentsAt i m \<and> limitsAt i' m = limitsAt i m"
        using Ingest_spec [OF assms] by meson
      show ?thesis
      proof (cases "validLimits (ub_ReadLimits body)")
        case True
        then show ?thesis
          using False Inr Some ev i' raw by (auto simp: handleUsageIngest_def intro!: exI [of _ body])
      next
        case bad: False
        then have "i' = i" using i'(1) by (simp add: Ingest_def)
        then show ?thesis using False Inr Some ev i' bad by (simp add: handleUsageIngest_def)
      qed
    qed
  qed
qed

text \<open>A store with rows of a second deployment, and a query.\<close>

definition otherStore :: Insights where
  "otherStore = sampleStore\<lparr>mem := mem sampleStore @ [(''prod'', \<lparr>rows = [sampleConflict ''m.js:h''], start = 0, limits = sampleLimits\<rparr>)]\<rparr>"

definition sampleQuery :: "string \<Rightarrow> (string \<times> string) list" where
  "sampleQuery d = [(''deploymentName'', d), (''from'', ''2024-02-29''), (''to'', ''2024-03-01'')]"

text \<open>
  C4: a usage token only reaches its own deployment. No request panics; what a query answers
  depends only on the rows and limits of deployments whose token the request carries, and an
  ingest request changes those of at most one such deployment: a refused request (any status
  but 200) changes nothing.
\<close>

theorem usage_isolated:
  assumes "ins_inv i" and "ins_inv j"
    and "\<forall>d. bearerOK sha tokens header d \<longrightarrow> contentsAt i d = contentsAt j d \<and> limitsAt i d = limitsAt j d"
  shows "handleUsageQuery sha go now tokens header q i = handleUsageQuery sha go now tokens header q j
    \<and> (\<exists>i' code reply. handleUsageIngest sha clock iter tokens header rd i = Some (i', code, reply)
        \<and> ins_inv i' \<and> (code \<noteq> 200 \<longrightarrow> i' = i)
        \<and> (\<forall>d. \<not> bearerOK sha tokens header d \<longrightarrow> contentsAt i' d = contentsAt i d \<and> limitsAt i' d = limitsAt i d)
        \<and> (\<exists>n. \<forall>d. d \<noteq> n \<longrightarrow> contentsAt i' d = contentsAt i d \<and> limitsAt i' d = limitsAt i d))"
proof -
  have "handleUsageQuery sha go now tokens header q i = handleUsageQuery sha go now tokens header q j"
    using assms(3) Query_cong [of i _ j] by (simp add: handleUsageQuery_def Let_def)
  moreover obtain i' code reply where i': "handleUsageIngest sha clock iter tokens header rd i = Some (i', code, reply)"
    "ins_inv i'" "i' = i \<and> code \<noteq> 200 \<or> code = 200 \<and> (\<exists>n. bearerOK sha tokens header n
      \<and> (\<forall>m. m \<noteq> n \<longrightarrow> contentsAt i' m = contentsAt i m \<and> limitsAt i' m = limitsAt i m))"
    using ingest_spec [OF assms(1), of sha clock iter tokens header rd] by blast
  then have "(code \<noteq> 200 \<longrightarrow> i' = i)
      \<and> (\<forall>d. \<not> bearerOK sha tokens header d \<longrightarrow> contentsAt i' d = contentsAt i d \<and> limitsAt i' d = limitsAt i d)
      \<and> (\<exists>n. \<forall>d. d \<noteq> n \<longrightarrow> contentsAt i' d = contentsAt i d \<and> limitsAt i' d = limitsAt i d)" by metis
  ultimately show ?thesis using i'(1,2) by blast
qed

theorem usage_isolated_witness:
  "handleUsageQuery (\<lambda>s. s) sampleGo 0 [(''dev'', ''t'')] ''Bearer t'' (sampleQuery ''prod'') otherStore
     = (401, UsageError ''invalid usage token'')
   \<and> contentsAt sampleStore ''prod'' \<noteq> contentsAt otherStore ''prod'' \<and> length (contentsAt sampleStore ''dev'') = 3
   \<and> handleUsageQuery (\<lambda>s. s) sampleGo 0 [(''dev'', ''t'')] ''Bearer t'' (sampleQuery ''dev'') sampleStore
     = handleUsageQuery (\<lambda>s. s) sampleGo 0 [(''dev'', ''t'')] ''Bearer t'' (sampleQuery ''dev'') otherStore"
proof -
  have "\<not> bearerOK (\<lambda>s. s) [(''dev'', ''t'')] ''Bearer t'' ''prod''" by (simp add: bearerOK_def gget_def)
  then have "handleUsageQuery (\<lambda>s. s) sampleGo 0 [(''dev'', ''t'')] ''Bearer t'' (sampleQuery ''prod'') otherStore
      = (401, UsageError ''invalid usage token'')"
    by (simp add: handleUsageQuery_def sampleQuery_def gget_def)
  moreover have same: "\<forall>d. bearerOK (\<lambda>s. s) [(''dev'', ''t'')] ''Bearer t'' d \<longrightarrow>
      contentsAt sampleStore d = contentsAt otherStore d \<and> limitsAt sampleStore d = limitsAt otherStore d"
    by (simp add: contentsAt_def limitsAt_def sampleStore_def otherStore_def bearerOK_def gget_def)
  have "contentsAt sampleStore ''prod'' \<noteq> contentsAt otherStore ''prod''" "length (contentsAt sampleStore ''dev'') = 3"
    by (simp_all add: contentsAt_def contentsOf_def sampleStore_def otherStore_def)
  moreover have "ins_inv sampleStore" "ins_inv otherStore"
    by (simp_all add: ins_inv_def ring_inv_def sampleStore_def otherStore_def NewInsights_def)
  note usage_isolated [OF this same, THEN conjunct1]
  ultimately show ?thesis by blast
qed


section \<open>The default range of a query\<close>

lemma Query_Inr:
  assumes "parseDate f = Some a" and "parseDate t = Some b" and "a \<le> b"
  shows "Query go i n f t =
    (case rowsOf i n (toUnixMilli a) (toUnixMilli (b + inclusiveEnd)) of
       (rs, l) \<Rightarrow> Inr (sort (aggregateOCC go rs @ aggregateRead go rs l)))"
  using query_range [OF assms(1,2)] assms by (simp add: Query_def Let_def sortRows_sort)

lemma day_ns: "nsPerDay = 86400000000000"
  by (simp add: nsPerDay_def second_def)

lemma printable_range:
  assumes "printable t"
  shows "- 1000 * nsPerDay \<le> t \<and> t \<le> 10000001 * nsPerDay"
proof -
  obtain a where a: "parseDate (fmtDate t) = Some (a * nsPerDay)" "a = t div nsPerDay"
    using parse_fmtDate [OF assms] by blast
  have "- 1000 \<le> a \<and> a \<le> 10000000"
    using parseDate_range [OF a(1)] daysFrom_range by (auto simp: nsPerDay_def second_def)
  then show ?thesis unfolding a(2) day_ns by linarith
qed

text \<open>
  A query without dates always works: on every day of the years 0 to 9999 an authorised query
  that names neither \<open>from\<close> nor \<open>to\<close> is answered with 200 (the dates bigbrain prints for its
  clock are dates it parses back), and the rows it covers are those from the midnight three days
  ago until the end of today, so every row of the last three days is among them.
\<close>

theorem default_window:
  assumes "bearerOK sha tokens header dep" and "gget q ''deploymentName'' '''' = dep" and "dep \<noteq> ''''"
    and "gget q ''from'' '''' = ''''" and "gget q ''to'' '''' = ''''"
    and "printable now" and "printable (now - 3 * nsPerDay)"
  shows "\<exists>out rs l fromMs toMs. handleUsageQuery sha go now tokens header q i = (200, UsageRows out)
    \<and> rowsOf i dep fromMs toMs = (rs, l) \<and> sorted out \<and> mset out = occReply go rs + readReply go (bytesDimension l) rs + readReply go (docsDimension l) rs
    \<and> fromMs = toUnixMilli ((now - 3 * nsPerDay) div nsPerDay * nsPerDay)
    \<and> toMs = toUnixMilli ((now div nsPerDay + 1) * nsPerDay)
    \<and> (\<forall>t. now - 3 * nsPerDay \<le> t \<and> t \<le> now \<longrightarrow> fromMs \<le> toUnixMilli t \<and> toUnixMilli t < toMs)"
proof -
  let ?a = "(now - 3 * nsPerDay) div nsPerDay * nsPerDay" and ?b = "now div nsPerDay * nsPerDay"
  have day: "?b + inclusiveEnd = (now div nsPerDay + 1) * nsPerDay"
    by (simp add: inclusiveEnd_def nsPerDay_def second_def algebra_simps)
  have P: "parseDate (fmtDate (now - 3 * nsPerDay)) = Some ?a" "parseDate (fmtDate now) = Some ?b"
    by (rule parse_fmtDate [OF assms(7)], rule parse_fmtDate [OF assms(6)])
  have le: "?a \<le> ?b" unfolding day_ns by linarith
  obtain rs l where r: "rowsOf i dep (toUnixMilli ?a) (toUnixMilli ((now div nsPerDay + 1) * nsPerDay)) = (rs, l)"
    by (cases "rowsOf i dep (toUnixMilli ?a) (toUnixMilli ((now div nsPerDay + 1) * nsPerDay))")
  have "handleUsageQuery sha go now tokens header q i =
      (200, UsageRows (sort (aggregateOCC go rs @ aggregateRead go rs l)))"
    using assms(1-5) Query_Inr [OF P le, of go i dep] r
    by (simp add: handleUsageQuery_def Let_def day)
  moreover have "toUnixMilli ?a \<le> toUnixMilli t \<and> toUnixMilli t < toUnixMilli ((now div nsPerDay + 1) * nsPerDay)"
    if t: "now - 3 * nsPerDay \<le> t" "t \<le> now" for t
  proof
    note R = printable_range [OF assms(6), THEN conjunct1] printable_range [OF assms(6), THEN conjunct2]
      printable_range [OF assms(7), THEN conjunct1]
    have big: "(2 :: int) ^ 62 = 4611686018427387904" "(10 :: int) ^ 24 = 1000000000000000000000000" by simp_all
    have a: "- (2 ^ 62) \<le> ?a" "?a \<le> t" "t \<le> 10 ^ 24"
      using R t unfolding day_ns big by linarith+
    show "toUnixMilli ?a \<le> toUnixMilli t" using toUnixMilli_mono [OF a] by simp
    let ?e = "(now div nsPerDay + 1) * nsPerDay"
    have f: "now < ?e" "?e \<le> now + nsPerDay"
      using div_mult_mod_eq [of now nsPerDay] pos_mod_bound [of nsPerDay now] pos_mod_sign [of nsPerDay now]
      unfolding distrib_right by (simp_all add: day_ns)
    have e: "- (2 ^ 62) \<le> t" "t \<le> ?e" "?e \<le> 10 ^ 24"
      using R t a f unfolding day_ns big by linarith+
    define k where "k = (now div nsPerDay + 1) * 86400000 - 62135596800000"
    have k: "?e - unixEpoch = k * 1000000"
      by (simp add: k_def day_ns unixEpoch_def second_def algebra_simps)
    have "t - unixEpoch < k * 1000000" using f(1) t(2) unfolding k [symmetric] by simp
    then have "(t - unixEpoch) div 1000000 < k" by linarith
    then have "(t - unixEpoch) div millisecond < (?e - unixEpoch) div millisecond"
      unfolding k millisecond_def by simp
    then show "toUnixMilli t < toUnixMilli ?e"
      using toUnixMilli_mono [OF e] toUnixMilli_mono [of ?e ?e] e by simp
  qed
  ultimately show ?thesis using r by (force simp: aggregateOCC_mset aggregateRead_mset)
qed

theorem default_window_witness:
  "\<exists>out. handleUsageQuery (\<lambda>s. s) sampleGo unixEpoch [(''dev'', ''t'')] ''Bearer t''
     [(''deploymentName'', ''dev'')] (NewInsights 1) = (200, UsageRows out)"
proof -
  have b: "bearerOK (\<lambda>s. s) [(''dev'', ''t'')] ''Bearer t'' ''dev''" by code_simp
  have p: "printable unixEpoch" "printable (unixEpoch - 3 * nsPerDay)" by code_simp+
  show ?thesis
    using default_window [OF b _ _ _ _ p, where q = "[(''deploymentName'', ''dev'')]" and go = sampleGo and i = "NewInsights 1"]
    by (auto simp: gget_def)
qed

end
