(* ===== verification/GoNet.thy ===== *)
theory GoNet
  imports Json
begin

text \<open>
  The parts of Go's standard library usher uses on paths, hosts and headers: \<open>strings.ToLower\<close>,
  \<open>path.Clean\<close> of a rooted path, \<open>net.SplitHostPort\<close>, and \<open>http.Header\<close>.
\<close>

section \<open>Lower case\<close>

text \<open>
  \<open>strings.ToLower\<close> maps rune by rune; what it makes of a rune beyond ASCII is the Unicode table
  \<open>tbl\<close>, an argument. A byte that is not part of an encoded rune becomes U+FFFD.
\<close>

definition runeError :: string where "runeError = [CHR 0xEF, CHR 0xBF, CHR 0xBD]"

function ToLower :: "(string \<Rightarrow> string) \<Rightarrow> string \<Rightarrow> string" where
  "ToLower tbl s =
     (case s of
        [] \<Rightarrow> []
      | c # r \<Rightarrow>
          if (of_char c :: nat) < 128 then lowerASCII c # ToLower tbl r
          else if runeLen s = 0 then runeError @ ToLower tbl r
          else tbl (take (runeLen s) s) @ ToLower tbl (drop (runeLen s) s))"
  by pat_completeness auto
termination by (relation "measure (\<lambda>(_, s). length s)") auto

declare ToLower.simps [simp del]

definition isASCII :: "string \<Rightarrow> bool" where
  "isASCII s = list_all (\<lambda>c. (of_char c :: nat) < 128) s"

lemma ToLower_Nil [simp]: "ToLower tbl [] = []"
  by (simp add: ToLower.simps)

lemma ToLower_Cons [simp]: "(of_char c :: nat) < 128 \<Longrightarrow> ToLower tbl (c # s) = lowerASCII c # ToLower tbl s"
  by (subst ToLower.simps) simp

lemma ToLower_ascii: "isASCII s \<Longrightarrow> ToLower tbl (s @ t) = map lowerASCII s @ ToLower tbl t"
  by (induction s) (simp_all add: isASCII_def)

lemma ToLower_ascii_only: "isASCII s \<Longrightarrow> ToLower tbl s = map lowerASCII s"
  using ToLower_ascii [of s tbl "[]"] by simp

lemma lowerASCII_idem [simp]: "lowerASCII (lowerASCII c) = lowerASCII c"
  by (simp add: lowerASCII_def)

section \<open>Paths\<close>

text \<open>
  \<open>path.Clean\<close> of a rooted path: empty and \<open>.\<close> segments disappear, \<open>..\<close> takes the segment
  before it away, and at the root there is nothing to take.
\<close>

definition cleanStep :: "string list \<Rightarrow> string \<Rightarrow> string list" where
  "cleanStep st seg =
     (if seg = '''' \<or> seg = ''.'' then st else if seg = ''..'' then butlast st else st @ [seg])"

definition cleanSegments :: "string \<Rightarrow> string list" where
  "cleanSegments p = foldl cleanStep [] (splitOn (CHR ''/'') p)"

definition rooted :: "string list \<Rightarrow> string" where
  "rooted segs = CHR ''/'' # joinWith (CHR ''/'') segs"

definition CleanRooted :: "string \<Rightarrow> string" where
  "CleanRooted p = rooted (cleanSegments p)"

definition goodSegment :: "string \<Rightarrow> bool" where
  "goodSegment seg = (seg \<noteq> '''' \<and> seg \<noteq> ''.'' \<and> seg \<noteq> ''..'' \<and> CHR ''/'' \<notin> set seg)"

lemma cleanSegments_good: "list_all goodSegment (cleanSegments p)"
proof -
  have "list_all goodSegment (foldl cleanStep st segs)"
    if "list_all goodSegment st" "\<forall>g \<in> set segs. CHR ''/'' \<notin> set g" for st segs
    using that
  proof (induction segs arbitrary: st)
    case (Cons g segs)
    have "list_all goodSegment (cleanStep st g)"
      using Cons.prems by (auto simp: cleanStep_def goodSegment_def list_all_iff dest: in_set_butlastD)
    then show ?case using Cons by simp
  qed simp
  then show ?thesis using splitOn_parts by (auto simp: cleanSegments_def)
qed

lemma cleanStep_good: "goodSegment g \<Longrightarrow> cleanStep st g = st @ [g]"
  by (simp add: cleanStep_def goodSegment_def)

lemma foldl_cleanStep_good: "list_all goodSegment gs \<Longrightarrow> foldl cleanStep st gs = st @ gs"
  by (induction gs arbitrary: st) (simp_all add: cleanStep_good)

lemma cleanSegments_rooted:
  assumes "list_all goodSegment gs"
  shows "cleanSegments (rooted gs) = gs"
proof (cases "gs = []")
  case True
  then show ?thesis by (simp add: cleanSegments_def rooted_def cleanStep_def)
next
  case False
  moreover have "\<forall>g \<in> set gs. CHR ''/'' \<notin> set g" using assms by (auto simp: list_all_iff goodSegment_def)
  ultimately have "splitOn (CHR ''/'') (rooted gs) = [] # gs"
    by (simp add: rooted_def splitOn_joinWith)
  then show ?thesis using foldl_cleanStep_good [OF assms] by (simp add: cleanSegments_def cleanStep_def)
qed

text \<open>Cleaning twice is cleaning once.\<close>

lemma CleanRooted_idem: "CleanRooted (CleanRooted p) = CleanRooted p"
  using cleanSegments_rooted [OF cleanSegments_good] by (simp add: CleanRooted_def)

section \<open>Hosts\<close>

definition cutLast :: "char \<Rightarrow> string \<Rightarrow> (string \<times> string) option" where
  "cutLast c s = map_option (\<lambda>(a, b). (rev b, rev a)) (cutAt c (rev s))"

definition SplitHostPort :: "string \<Rightarrow> (string \<times> string) option" where
  "SplitHostPort s =
     (case cutLast (CHR '':'') s of
        None \<Rightarrow> None
      | Some (h, p) \<Rightarrow>
          if s \<noteq> [] \<and> hd s = CHR ''['' then
            (case cutAt (CHR '']'') (tl s) of
               None \<Rightarrow> None
             | Some (inner, r) \<Rightarrow>
                 if r \<noteq> CHR '':'' # p then None
                 else if CHR ''['' \<in> set (tl s) \<or> CHR '']'' \<in> set r then None
                 else Some (inner, p))
          else if CHR '':'' \<in> set h then None
          else if CHR ''['' \<in> set s \<or> CHR '']'' \<in> set s then None
          else Some (h, p))"

definition stripPort :: "string \<Rightarrow> string" where
  "stripPort host = (case SplitHostPort host of Some (h, _) \<Rightarrow> h | None \<Rightarrow> host)"

definition trimDot :: "string \<Rightarrow> string" where
  "trimDot s = (if s \<noteq> [] \<and> last s = CHR ''.'' then butlast s else s)"

lemma cutAt_None: "cutAt c s = None \<longleftrightarrow> c \<notin> set s"
  by (induction s) auto

lemma cutLast_last: "c \<notin> set b \<Longrightarrow> cutLast c (a @ c # b) = Some (a, b)"
  using cutAt_first [of c "rev b" "rev a"] by (simp add: cutLast_def)

lemma stripPort_port:
  assumes "CHR '':'' \<notin> set h" "CHR ''['' \<notin> set h" "CHR '']'' \<notin> set h" "list_all isDigit p"
  shows "stripPort (h @ CHR '':'' # p) = h"
proof -
  have p: "CHR '':'' \<notin> set p" "CHR ''['' \<notin> set p" "CHR '']'' \<notin> set p"
    using assms(4) by (auto simp: list_all_iff isDigit_def)
  have "hd (h @ CHR '':'' # p) \<noteq> CHR ''[''" using assms(2) by (cases h) auto
  then show ?thesis
    using cutLast_last [OF p(1), of h] assms p by (simp add: stripPort_def SplitHostPort_def)
qed

lemma stripPort_bare: "CHR '':'' \<notin> set h \<Longrightarrow> stripPort h = h"
  using cutAt_None [of "CHR '':''" "rev h"] by (simp add: stripPort_def SplitHostPort_def cutLast_def)

text \<open>The address of a bracketed IPv6 literal, with and without its port.\<close>

lemma stripPort_samples:
  "stripPort ''[::1]:8080'' = ''::1'' \<and> stripPort ''[::1]'' = ''[::1]'' \<and> stripPort ''a:b:1'' = ''a:b:1''
    \<and> stripPort ''host:80'' = ''host'' \<and> stripPort ''host:'' = ''host''"
  by code_simp

section \<open>Headers\<close>

text \<open>A header maps canonical names to their values; \<open>Get\<close> is the first value, or empty.\<close>

type_synonym header = "(string, string list) gomap"

definition hValues :: "header \<Rightarrow> string \<Rightarrow> string list" where "hValues h k = gget h k []"

definition hGet :: "header \<Rightarrow> string \<Rightarrow> string" where
  "hGet h k = (case hValues h k of [] \<Rightarrow> '''' | v # _ \<Rightarrow> v)"

definition hSet :: "string \<Rightarrow> string \<Rightarrow> header \<Rightarrow> header" where "hSet k v h = AList.update k [v] h"

definition hDel :: "string \<Rightarrow> header \<Rightarrow> header" where "hDel k h = filter (\<lambda>(j, _). j \<noteq> k) h"

lemma hValues_hSet [simp]: "hValues (hSet k v h) j = (if j = k then [v] else hValues h j)"
  by (simp add: hValues_def hSet_def)

lemma hValues_hDel [simp]: "hValues (hDel k h) j = (if j = k then [] else hValues h j)"
  by (induction h) (auto simp: hValues_def hDel_def gget_def)

end
