(* ===== verification/GoProxy.thy ===== *)
theory GoProxy
  imports GoNet JsonDecode
begin

text \<open>
  What \<open>httputil.ReverseProxy\<close> does to a request before it calls the \<open>Rewrite\<close> hook: the headers that
  belong to a connection and not to the message are removed, an upgrade and the support of trailers
  are passed on, forwarding headers of the client are taken off, and queries that not everybody
  would read alike are written anew.
\<close>

section \<open>Names and tokens of headers\<close>

definition tokenChar :: "char \<Rightarrow> bool" where
  "tokenChar c =
     (let b = (of_char c :: nat) in
      48 \<le> b \<and> b \<le> 57 \<or> 65 \<le> b \<and> b \<le> 90 \<or> 97 \<le> b \<and> b \<le> 122
      \<or> c \<in> set ([CHR 0x27] @ ''!#$%&*+-.^_`|~''))"

fun canonLetters :: "bool \<Rightarrow> string \<Rightarrow> string" where
  "canonLetters up [] = []"
| "canonLetters up (c # s) = (if up then upperASCII c else lowerASCII c) # canonLetters (c = CHR ''-'') s"

text \<open>\<open>http.CanonicalHeaderKey\<close>: anything that is not a token is left as it is.\<close>

definition canonicalKey :: "string \<Rightarrow> string" where
  "canonicalKey k = (if list_all tokenChar k then canonLetters True k else k)"

definition trimChars :: "string \<Rightarrow> string \<Rightarrow> string" where
  "trimChars cs s = rev (dropWhile (\<lambda>c. c \<in> set cs) (rev (dropWhile (\<lambda>c. c \<in> set cs) s)))"

text \<open>\<open>httpguts.HeaderValuesContainsToken\<close>: the values are lists of tokens, in any letter case.\<close>

definition hasToken :: "string list \<Rightarrow> string \<Rightarrow> bool" where
  "hasToken vs tok =
     list_ex (\<lambda>v. list_ex (\<lambda>p. map lowerASCII (trimChars [CHR '' '', CHR 0x09] p) = map lowerASCII tok)
       (splitOn (CHR '','') v)) vs"

section \<open>Headers of the connection\<close>

definition hopHeaders :: "string list" where
  "hopHeaders =
     [''Connection'', ''Proxy-Connection'', ''Keep-Alive'', ''Proxy-Authenticate'', ''Proxy-Authorization'',
      ''Te'', ''Trailer'', ''Transfer-Encoding'', ''Upgrade'']"

text \<open>The headers that \<open>Connection\<close> names.\<close>

definition connectionOptions :: "header \<Rightarrow> string list" where
  "connectionOptions h =
     map canonicalKey (filter (\<lambda>f. f \<noteq> '''')
       (concat (map (\<lambda>v. map (trimChars [CHR '' '', CHR 0x09, CHR 0x0A, CHR 0x0D]) (splitOn (CHR '','') v))
         (hValues h ''Connection''))))"

definition removeHopByHopHeaders :: "header \<Rightarrow> header" where
  "removeHopByHopHeaders h = foldl (\<lambda>h k. hDel k h) h (connectionOptions h @ hopHeaders)"

definition upgradeType :: "header \<Rightarrow> string" where
  "upgradeType h = (if hasToken (hValues h ''Connection'') ''Upgrade'' then hGet h ''Upgrade'' else '''')"

definition stripForwarding :: "header \<Rightarrow> header" where
  "stripForwarding h = hDel ''Forwarded'' (hDel ''X-Forwarded-For'' (hDel ''X-Forwarded-Host'' (hDel ''X-Forwarded-Proto'' h)))"

text \<open>The header of \<open>pr.Out\<close> when \<open>Rewrite\<close> is called.\<close>

definition outgoingHeader :: "header \<Rightarrow> header" where
  "outgoingHeader h =
     (let h1 = removeHopByHopHeaders h;
          h2 = (if hasToken (hValues h ''Te'') ''trailers'' then hSet ''Te'' ''trailers'' h1 else h1);
          h3 = (if upgradeType h \<noteq> ''''
                then hSet ''Upgrade'' (upgradeType h) (hSet ''Connection'' ''Upgrade'' h2) else h2)
      in stripForwarding h3)"

lemma hValues_foldl_hDel:
  "hValues (foldl (\<lambda>h k. hDel k h) h ks) j = (if j \<in> set ks then [] else hValues h j)"
  by (induction ks arbitrary: h) auto

definition forwardingHeaders :: "string set" where
  "forwardingHeaders = {''Forwarded'', ''X-Forwarded-For'', ''X-Forwarded-Host'', ''X-Forwarded-Proto''}"

lemma hValues_outgoing:
  "hValues (outgoingHeader h) k =
     (if k \<in> forwardingHeaders then []
      else if k = ''Te'' then (if hasToken (hValues h ''Te'') ''trailers'' then [''trailers''] else [])
      else if k = ''Connection'' then (if upgradeType h \<noteq> '''' then [''Upgrade''] else [])
      else if k = ''Upgrade'' then (if upgradeType h \<noteq> '''' then [upgradeType h] else [])
      else if k \<in> set hopHeaders \<or> k \<in> set (connectionOptions h) then []
      else hValues h k)"
  by (simp add: outgoingHeader_def Let_def stripForwarding_def forwardingHeaders_def removeHopByHopHeaders_def
      hValues_foldl_hDel hopHeaders_def)

section \<open>Queries\<close>

text \<open>
  A query with a semicolon or a broken escape is parsed and encoded again (\<open>reencode\<close>, which drops
  what cannot be parsed); any other is left alone.
\<close>

fun ambiguousQuery :: "string \<Rightarrow> bool" where
  "ambiguousQuery [] = False"
| "ambiguousQuery (c # s) =
     (if c = CHR '';'' then True
      else if c = CHR ''%''
      then (case s of
              a # b # r \<Rightarrow> if hexVal a = None \<or> hexVal b = None then True else ambiguousQuery r
            | _ \<Rightarrow> True)
      else ambiguousQuery s)"

definition cleanQueryParams :: "(string \<Rightarrow> string) \<Rightarrow> string \<Rightarrow> string" where
  "cleanQueryParams reencode s = (if ambiguousQuery s then reencode s else s)"

end
