(* ===== verification/UsherHttp.thy ===== *)
theory UsherHttp
  imports Tracker GoProxy
begin

text \<open>
  The HTTP front end of usher (\<open>usher/main.go\<close>): the checks a request passes before it is
  forwarded, the routing by host, the probes, and the hooks of the reverse proxy (rewriting a
  request, gating a response, handling an error). Copying bodies is not modelled; a body that
  turns out larger than allowed arrives as an error of its own kind. \<open>tbl\<close> is the Unicode
  lower-case table; clock readings are arguments.
\<close>

section \<open>Requests\<close>

record request =
  rq_Host :: string
  rq_Method :: string
  rq_Path :: string
  rq_RawQuery :: string
  rq_ContentLength :: int
  rq_Header :: header
  rq_RemoteAddr :: string
  rq_TLS :: bool

text \<open>What becomes of a request: an error (with \<open>Retry-After\<close> or not), the probe's answer, or a target.\<close>

datatype verdict =
    Rejected int string bool
  | ProbeOk
  | ProxyTo url

section \<open>Checks\<close>

definition instancePrefix :: string where "instancePrefix = ''/instance''"
definition maxClientVersionBytes :: nat where "maxClientVersionBytes = 128"

definition blockedCandidate :: "(string \<Rightarrow> string) \<Rightarrow> string \<Rightarrow> bool" where
  "blockedCandidate tbl candidate =
     (let c = ToLower tbl candidate in
      c = instancePrefix \<or> HasPrefix c (instancePrefix @ ''/'') \<or> c = ''/http''
      \<or> HasPrefix c ''/http/'' \<or> c = ''/metrics'')"

definition isBlockedAPIPath :: "(string \<Rightarrow> string) \<Rightarrow> string \<Rightarrow> bool" where
  "isBlockedAPIPath tbl p = (blockedCandidate tbl p \<or> blockedCandidate tbl (CleanRooted (CHR ''/'' # p)))"

definition allowedMethod :: "string \<Rightarrow> bool" where
  "allowedMethod m =
     (m \<in> {''GET'', ''HEAD'', ''POST'', ''PUT'', ''PATCH'', ''DELETE'', ''OPTIONS''})"

definition serveHTTP ::
  "(string \<Rightarrow> string) \<Rightarrow> instant \<Rightarrow> instant \<Rightarrow> tracker \<Rightarrow> request \<Rightarrow> bool \<Rightarrow> tracker \<times> verdict" where
  "serveHTTP tbl now1 now2 t r site =
     (if \<not> site \<and> isBlockedAPIPath tbl (rq_Path r) then (t, Rejected 404 ''not found'' False)
      else if \<not> allowedMethod (rq_Method r) then (t, Rejected 405 ''method not allowed'' False)
      else if list_ex (\<lambda>v. length v > maxClientVersionBytes) (hValues (rq_Header r) ''Convex-Client'')
      then (t, Rejected 400 ''convex-client header too long'' False)
      else if maxBody t > 0 \<and> rq_ContentLength r > maxBody t
      then (t, Rejected 413 ''request entity too large'' False)
      else (case currentLeader t site of
              None \<Rightarrow> (t\<lparr>noLeaderLog := fst (allow (noLeaderLog t) now1 now2)\<rparr>,
                       Rejected 503 ''service unavailable'' True)
            | Some u \<Rightarrow> (t, ProxyTo u)))"

section \<open>Routing\<close>

text \<open>A route names a tracker by its position among the deployments.\<close>

record route =
  rt_tracker :: nat
  rt_site :: bool

definition healthzPath :: string where "healthzPath = ''/usher/healthz''"
definition readyzPath :: string where "readyzPath = ''/usher/readyz''"

definition isProbePath :: "string \<Rightarrow> bool" where
  "isProbePath p = (p = healthzPath \<or> p = readyzPath)"

definition serveProbe :: "request \<Rightarrow> tracker list \<Rightarrow> verdict" where
  "serveProbe r trackers =
     (if \<not> isProbePath (rq_Path r) then Rejected 404 ''unknown deployment host'' False
      else if rq_Method r \<noteq> ''GET'' \<and> rq_Method r \<noteq> ''HEAD'' then Rejected 405 ''method not allowed'' False
      else if rq_Path r = readyzPath \<and> list_ex (\<lambda>t. \<not> resolved t) trackers
      then Rejected 503 ''resolving leader'' False
      else ProbeOk)"

definition hostKey :: "(string \<Rightarrow> string) \<Rightarrow> string \<Rightarrow> string" where
  "hostKey tbl host = trimDot (ToLower tbl (stripPort host))"

definition routeOf ::
  "(string \<Rightarrow> string) \<Rightarrow> (string, route) gomap \<Rightarrow> string \<Rightarrow> request \<Rightarrow> route option" where
  "routeOf tbl routes monoHost r =
     (case map_of routes (hostKey tbl (rq_Host r)) of
        Some rt \<Rightarrow> Some rt
      | None \<Rightarrow>
          if monoHost \<noteq> '''' \<and> \<not> isProbePath (rq_Path r) then map_of routes monoHost else None)"

definition newMux ::
  "(string \<Rightarrow> string) \<Rightarrow> (string, route) gomap \<Rightarrow> string \<Rightarrow> instant \<Rightarrow> instant \<Rightarrow> tracker list \<Rightarrow> request
    \<Rightarrow> tracker list \<times> verdict" where
  "newMux tbl routes monoHost now1 now2 trackers r =
     (case routeOf tbl routes monoHost r of
        None \<Rightarrow> (trackers, serveProbe r trackers)
      | Some rt \<Rightarrow>
          (case serveHTTP tbl now1 now2 (trackers ! rt_tracker rt) r (rt_site rt) of
             (t, v) \<Rightarrow> (trackers[rt_tracker rt := t], v)))"

section \<open>The reverse proxy\<close>

definition followerGateHeader :: string where "followerGateHeader = ''X-Concave-Follower-Gate''"

text \<open>
  \<open>ProxyRequest.SetURL\<close> joins the paths with exactly one slash between them, and the queries. The
  escaped spelling of a path (\<open>RawPath\<close>), which \<open>SetURL\<close> joins in the same way, is not kept here.
\<close>

definition joinPath :: "string \<Rightarrow> string \<Rightarrow> string" where
  "joinPath a b =
     (if (a \<noteq> [] \<and> last a = CHR ''/'') \<and> HasPrefix b ''/'' then a @ tl b
      else if \<not> (a \<noteq> [] \<and> last a = CHR ''/'') \<and> \<not> HasPrefix b ''/'' then a @ ''/'' @ b
      else a @ b)"

definition joinQuery :: "string \<Rightarrow> string \<Rightarrow> string" where
  "joinQuery a b = (if a = '''' \<or> b = '''' then a @ b else a @ ''&'' @ b)"

record outRequest =
  out_Scheme :: string
  out_URLHost :: string
  out_Path :: string
  out_RawQuery :: string
  out_Host :: string
  out_Header :: header

text \<open>
  \<open>Rewrite\<close>, on the outgoing request as the proxy has prepared it (\<open>GoProxy\<close>): the headers of the
  connection and the forwarding headers are gone. \<open>SetXForwarded\<close> appends the address of the
  client to the chain it finds. A request for an upgrade to a protocol with an unprintable name is
  refused by the proxy before.
\<close>

definition joinValues :: "string list \<Rightarrow> string" where
  "joinValues vs = concat (map (\<lambda>v. v @ '', '') vs)"

definition setXForwarded :: "request \<Rightarrow> string list \<Rightarrow> header \<Rightarrow> header" where
  "setXForwarded r prior h =
     (let h1 = (case SplitHostPort (rq_RemoteAddr r) of
                  Some (ip, _) \<Rightarrow> hSet ''X-Forwarded-For'' (joinValues prior @ ip) h
                | None \<Rightarrow> hDel ''X-Forwarded-For'' h);
          h2 = hSet ''X-Forwarded-Host'' (rq_Host r) h1
      in hSet ''X-Forwarded-Proto'' (if rq_TLS r then ''https'' else ''http'') h2)"

definition Rewrite :: "(string \<Rightarrow> string) \<Rightarrow> url \<Rightarrow> request \<Rightarrow> outRequest" where
  "Rewrite reencode u r =
     (let h0 = outgoingHeader (rq_Header r);
          prior = hValues (rq_Header r) ''X-Forwarded-For'';
          h1 = setXForwarded r prior (AList.update ''X-Forwarded-For'' prior h0);
          proto = hGet (rq_Header r) ''X-Forwarded-Proto'';
          h2 = (if proto \<noteq> '''' then hSet ''X-Forwarded-Proto'' proto h1 else h1)
      in \<lparr>out_Scheme = u_Scheme u, out_URLHost = u_Host u, out_Path = joinPath (u_Path u) (rq_Path r),
          out_RawQuery = joinQuery (u_RawQuery u) (cleanQueryParams reencode (rq_RawQuery r)),
          out_Host = rq_Host r, out_Header = h2\<rparr>)"

record response =
  rs_StatusCode :: int
  rs_Header :: header
  rs_Body :: string

definition unavailableBody :: string where "unavailableBody = ''service unavailable'' @ [CHR 0x0A]"

definition ModifyResponse :: "instant \<Rightarrow> instant \<Rightarrow> tracker \<Rightarrow> response \<Rightarrow> tracker \<times> response" where
  "ModifyResponse now1 now2 t resp =
     (let gated = hGet (rs_Header resp) followerGateHeader \<noteq> '''';
          resp1 = resp\<lparr>rs_Header := hDel followerGateHeader (rs_Header resp)\<rparr>
      in if rs_StatusCode resp1 \<noteq> 421 \<or> \<not> gated then (t, resp1)
         else (nudgeResolve t now1 now2,
               resp1\<lparr>rs_StatusCode := 503,
                     rs_Header := hSet ''Retry-After'' ''1''
                       (hSet ''Content-Length'' (formatNat (length unavailableBody))
                         (hSet ''Content-Type'' ''text/plain; charset=utf-8'' [])),
                     rs_Body := unavailableBody\<rparr>))"

datatype upstreamError = BodyTooLarge | OtherError

text \<open>A client that has gone gets no answer.\<close>

definition ErrorHandler ::
  "instant \<Rightarrow> instant \<Rightarrow> instant \<Rightarrow> instant \<Rightarrow> tracker \<Rightarrow> bool \<Rightarrow> upstreamError \<Rightarrow> tracker \<times> verdict option" where
  "ErrorHandler now1 now2 now3 now4 t gone err =
     (if gone then (t, None)
      else if err = BodyTooLarge then (t, Some (Rejected 413 ''request entity too large'' False))
      else (let t1 = t\<lparr>upstreamErrLog := fst (allow (upstreamErrLog t) now1 now2)\<rparr> in
            (nudgeResolve t1 now3 now4, Some (Rejected 503 ''service unavailable'' True))))"

section \<open>Reserved paths\<close>

text \<open>The backend's internal endpoints: everything under two prefixes, and one path.\<close>

definition reserved :: "string list \<Rightarrow> bool" where
  "reserved segs =
     (case segs of [] \<Rightarrow> False
      | g # gs \<Rightarrow> map lowerASCII g \<in> {''instance'', ''http''} \<or> map lowerASCII g = ''metrics'' \<and> gs = [])"

lemma lowerASCII_ascii: "(of_char (lowerASCII c) :: nat) < 128 \<longleftrightarrow> (of_char c :: nat) < 128"
  by (auto simp: lowerASCII_def)

lemma map_lower_ascii: "isASCII (map lowerASCII s) \<longleftrightarrow> isASCII s"
  by (induction s) (simp_all add: isASCII_def lowerASCII_ascii)

lemma cleanSegments_slash [simp]: "cleanSegments (CHR ''/'' # p) = cleanSegments p"
  by (simp add: cleanSegments_def cleanStep_def)

lemma rooted_Cons: "rooted (g # gs) = CHR ''/'' # g @ (if gs = [] then '''' else rooted gs)"
  by (cases gs) (simp_all add: rooted_def)

lemma slash_lower [simp]: "lowerASCII (CHR ''/'') = CHR ''/''"
  by (simp add: lowerASCII_def)

lemma lower_rooted:
  assumes "isASCII g"
  shows "ToLower tbl (rooted (g # gs)) = CHR ''/'' # map lowerASCII g @ (if gs = [] then '''' else ToLower tbl (rooted gs))"
  using ToLower_ascii [OF assms] by (simp add: rooted_Cons)

lemma lower_rooted_head: "gs \<noteq> [] \<Longrightarrow> \<exists>t. ToLower tbl (rooted gs) = CHR ''/'' # t"
  by (simp add: rooted_def)

lemma candidate_reserved: "reserved segs \<Longrightarrow> blockedCandidate tbl (rooted segs)"
proof (cases segs)
  case Nil
  then show "reserved segs \<Longrightarrow> ?thesis" by (simp add: reserved_def)
next
  case (Cons g gs)
  assume "reserved segs"
  then have g: "map lowerASCII g \<in> {''instance'', ''http''} \<or> map lowerASCII g = ''metrics'' \<and> gs = []"
    using Cons by (simp add: reserved_def)
  then have "isASCII (map lowerASCII g)" by (auto simp: isASCII_def)
  then have a: "isASCII g" by (simp only: map_lower_ascii)
  obtain t where t: "gs \<noteq> [] \<Longrightarrow> ToLower tbl (rooted gs) = CHR ''/'' # t" using lower_rooted_head by blast
  show ?thesis
    unfolding Cons blockedCandidate_def lower_rooted [OF a] Let_def
    using g t by (cases "gs = []") (auto simp: instancePrefix_def HasPrefix_iff)
qed

text \<open>On a clean ASCII path the check is exact.\<close>

lemma split_slash:
  assumes "CHR ''/'' \<notin> set a" "CHR ''/'' \<notin> set b" "x = '''' \<or> hd x = CHR ''/''" "y = '''' \<or> hd y = CHR ''/''"
  shows "a @ x = b @ y \<Longrightarrow> a = b \<and> x = y"
  using assms
proof (induction a arbitrary: b)
  case Nil
  then show ?case by (cases b) auto
next
  case (Cons c a)
  then show ?case by (cases b) auto
qed

lemma lower_slash: "CHR ''/'' \<notin> set g \<Longrightarrow> CHR ''/'' \<notin> set (map lowerASCII g)"
proof
  assume g: "CHR ''/'' \<notin> set g" and "CHR ''/'' \<in> set (map lowerASCII g)"
  then obtain c where c: "c \<in> set g" "lowerASCII c = CHR ''/''" by auto
  then have "c = CHR ''/''"
    by (auto simp: lowerASCII_def char_of_eq_iff take_bit_eq_mod split: if_splits)
  then show False using c g by simp
qed

lemma candidate_exact:
  assumes "isASCII (rooted segs)" "list_all goodSegment segs"
  shows "blockedCandidate tbl (rooted segs) \<longleftrightarrow> reserved segs"
proof
  assume b: "blockedCandidate tbl (rooted segs)"
  show "reserved segs"
  proof (cases segs)
    case Nil
    then show ?thesis using b by (simp add: blockedCandidate_def rooted_def instancePrefix_def)
  next
    case (Cons g gs)
    have a: "isASCII g" using assms(1) by (simp add: Cons rooted_Cons isASCII_def)
    have ns: "CHR ''/'' \<notin> set (map lowerASCII g)" using assms(2) Cons by (intro lower_slash) (simp add: goodSegment_def)
    define x where "x = (if gs = [] then '''' else ToLower tbl (rooted gs))"
    have x: "x = '''' \<or> hd x = CHR ''/''" using lower_rooted_head [of gs tbl] by (auto simp: x_def)
    have xe: "x = '''' \<longleftrightarrow> gs = []" using lower_rooted_head [of gs tbl] by (auto simp: x_def)
    have c: "map lowerASCII g @ x = w @ y \<Longrightarrow> CHR ''/'' \<notin> set w \<Longrightarrow> y = '''' \<or> hd y = CHR ''/'' \<Longrightarrow>
        map lowerASCII g = w \<and> x = y" for w y
      using split_slash [OF ns] x by blast
    have "\<exists>y. map lowerASCII g @ x = ''instance'' @ y \<and> (y = '''' \<or> hd y = CHR ''/'')
        \<or> map lowerASCII g @ x = ''http'' @ y \<and> (y = '''' \<or> hd y = CHR ''/'')
        \<or> map lowerASCII g @ x = ''metrics'' \<and> y = ''''"
      using b unfolding Cons blockedCandidate_def lower_rooted [OF a] Let_def x_def [symmetric]
      by (fastforce simp: instancePrefix_def HasPrefix_iff)
    then have "map lowerASCII g = ''instance'' \<or> map lowerASCII g = ''http'' \<or> map lowerASCII g = ''metrics'' \<and> x = ''''"
      using c [of "''instance''"] c [of "''http''"] c [of "''metrics''" "''''"] by auto
    then show ?thesis using Cons xe by (auto simp: reserved_def)
  qed
qed (rule candidate_reserved)

lemma blocked_reserved: "reserved (cleanSegments p) \<Longrightarrow> isBlockedAPIPath tbl p"
  using candidate_reserved by (simp add: isBlockedAPIPath_def CleanRooted_def)

lemma blocked_clean:
  assumes "isASCII p" "p = CleanRooted p"
  shows "isBlockedAPIPath tbl p \<longleftrightarrow> reserved (cleanSegments p)"
proof -
  have "CleanRooted (CHR ''/'' # p) = p" using assms(2) by (simp add: CleanRooted_def)
  then show ?thesis
    using candidate_exact [OF _ cleanSegments_good, of p tbl] assms
    by (simp add: isBlockedAPIPath_def CleanRooted_def)
qed

text \<open>
  C7: what usher forwards on an API host never reaches an internal endpoint of the backend, in
  whatever way its path is spelt (letter case, repeated slashes, dot segments), while a clean
  path is refused only if it names such an endpoint; a forwarded request has a known method, a
  client header of bounded length and no declared body above the limit, and goes to the current
  leader; without a leader it is refused with \<open>Retry-After\<close>.
\<close>

theorem forwarded_requests_checked:
  assumes "serveHTTP tbl now1 now2 t r site = (t', v)"
  shows "(v = ProxyTo u \<longrightarrow> t' = t \<and> currentLeader t site = Some u \<and> allowedMethod (rq_Method r)
        \<and> (\<forall>w \<in> set (hValues (rq_Header r) ''Convex-Client''). length w \<le> maxClientVersionBytes)
        \<and> (0 < maxBody t \<longrightarrow> rq_ContentLength r \<le> maxBody t)
        \<and> (\<not> site \<longrightarrow> \<not> reserved (cleanSegments (rq_Path r))))
    \<and> (v = Rejected 404 ''not found'' False \<and> isASCII (rq_Path r) \<and> rq_Path r = CleanRooted (rq_Path r) \<longrightarrow>
        \<not> site \<and> reserved (cleanSegments (rq_Path r)))
    \<and> (currentLeader t site = None \<longrightarrow> (\<exists>code msg retry. v = Rejected code msg retry \<and> (retry \<longleftrightarrow> code = 503)))"
proof -
  have "v = ProxyTo u \<longrightarrow> t' = t \<and> currentLeader t site = Some u \<and> allowedMethod (rq_Method r)
        \<and> (\<forall>w \<in> set (hValues (rq_Header r) ''Convex-Client''). length w \<le> maxClientVersionBytes)
        \<and> (0 < maxBody t \<longrightarrow> rq_ContentLength r \<le> maxBody t)
        \<and> (\<not> site \<longrightarrow> \<not> isBlockedAPIPath tbl (rq_Path r))"
    using assms by (auto simp: serveHTTP_def list_ex_iff not_less split: if_splits option.splits)
  moreover have "v = Rejected 404 ''not found'' False \<longrightarrow> \<not> site \<and> isBlockedAPIPath tbl (rq_Path r)"
    using assms by (auto simp: serveHTTP_def split: if_splits option.splits)
  moreover have "currentLeader t site = None \<longrightarrow> (\<exists>code msg retry. v = Rejected code msg retry \<and> (retry \<longleftrightarrow> code = 503))"
    using assms by (auto simp: serveHTTP_def split: if_splits)
  ultimately show ?thesis
    using blocked_reserved [of "rq_Path r" tbl] blocked_clean [of "rq_Path r" tbl] by blast
qed

definition sampleRequest :: "string \<Rightarrow> string \<Rightarrow> request" where
  "sampleRequest host p =
     \<lparr>rq_Host = host, rq_Method = ''GET'', rq_Path = p, rq_RawQuery = '''', rq_ContentLength = 0, rq_Header = [],
      rq_RemoteAddr = ''10.0.0.1:4711'', rq_TLS = False\<rparr>"

theorem forwarded_requests_checked_witness:
  "reserved (cleanSegments ''/x/..//INSTANCE/./admin'')
   \<and> (\<forall>u. snd (serveHTTP (\<lambda>s. s) 0 0 sampleTracker (sampleRequest ''dev.example'' ''/x/..//INSTANCE/./admin'') False) \<noteq> ProxyTo u)"
proof -
  have "reserved (cleanSegments ''/x/..//INSTANCE/./admin'')" by code_simp
  moreover obtain t' v where
    s: "serveHTTP (\<lambda>s. s) 0 0 sampleTracker (sampleRequest ''dev.example'' ''/x/..//INSTANCE/./admin'') False = (t', v)"
    by (cases "serveHTTP (\<lambda>s. s) 0 0 sampleTracker (sampleRequest ''dev.example'' ''/x/..//INSTANCE/./admin'') False")
  ultimately show ?thesis
    using forwarded_requests_checked [OF s] by (auto simp: sampleRequest_def)
qed

section \<open>The follower gate\<close>

text \<open>
  C19: the follower gate. The gate header never reaches a client; a misdirected reply of a gated
  backend becomes a retryable 503 that says nothing of the backend's own headers, and wakes the
  resolver unless a nudge happened within the last interval; any other reply keeps its status,
  its body and all other headers, and the tracker is left alone.
\<close>

theorem follower_gate:
  "(case ModifyResponse now1 now2 t resp of (t', resp') \<Rightarrow>
      hValues (rs_Header resp') followerGateHeader = []
      \<and> (if rs_StatusCode resp = 421 \<and> hGet (rs_Header resp) followerGateHeader \<noteq> ''''
         then rs_StatusCode resp' = 503 \<and> hGet (rs_Header resp') ''Retry-After'' = ''1''
           \<and> (\<forall>k. hValues (rs_Header resp') k \<noteq> [] \<longrightarrow> k \<in> {''Retry-After'', ''Content-Length'', ''Content-Type''})
           \<and> (nextResolve t \<le> now1 \<longrightarrow> resolvePending t')
           \<and> curURL t' = curURL t
         else t' = t \<and> rs_StatusCode resp' = rs_StatusCode resp \<and> rs_Body resp' = rs_Body resp
           \<and> (\<forall>k. k \<noteq> followerGateHeader \<longrightarrow> hValues (rs_Header resp') k = hValues (rs_Header resp) k)))"
proof (cases "rs_StatusCode resp = 421 \<and> hGet (rs_Header resp) followerGateHeader \<noteq> ''''")
  case True
  have "hValues [] k = []" for k by (simp add: hValues_def)
  then show ?thesis
    using True
    by (simp add: ModifyResponse_def Let_def nudgeResolve_def wakeResolve_def followerGateHeader_def hGet_def)
next
  case False
  then show ?thesis by (auto simp: ModifyResponse_def Let_def)
qed


definition gatedReply :: response where
  "gatedReply = \<lparr>rs_StatusCode = 421, rs_Header = [(followerGateHeader, [''1'']), (''Server'', [''convex''])], rs_Body = ''follower''\<rparr>"

theorem follower_gate_witness:
  "rs_StatusCode (snd (ModifyResponse 0 0 sampleTracker gatedReply)) = 503
   \<and> hValues (rs_Header (snd (ModifyResponse 0 0 sampleTracker gatedReply))) ''Server'' = []"
proof -
  have g: "rs_StatusCode gatedReply = 421" "hGet (rs_Header gatedReply) followerGateHeader \<noteq> ''''"
    by (simp_all add: gatedReply_def followerGateHeader_def hGet_def hValues_def gget_def)
  show ?thesis
    using follower_gate [where ?now1.0 = 0 and ?now2.0 = 0 and t = sampleTracker and resp = gatedReply] g by (auto split: prod.splits)
qed


section \<open>What a backend is told\<close>

lemma joinPath_rooted:
  assumes "HasPrefix p ''/''" and "a = '''' \<or> last a \<noteq> CHR ''/''"
  shows "joinPath a p = a @ p"
  using assms by (auto simp: joinPath_def)

text \<open>
  C13: the request to a leader, as the hook \<open>Rewrite\<close> leaves it. It names the host the client asked for and goes
  to the target, under its path joined to the target's and with its query (joined to the target's, if
  that has one; queries that are not read alike everywhere are encoded anew). The address of the
  connection is appended to the client's chain of \<open>X-Forwarded-For\<close> (which is dropped if there is no
  such address), \<open>X-Forwarded-Host\<close> is the host the client asked for, \<open>X-Forwarded-Proto\<close> is the
  client's or else how usher was reached, and \<open>Forwarded\<close> never passes. Of the headers that belong to
  the connection (the fixed ones, and those \<open>Connection\<close> names) only an upgrade and \<open>trailers\<close>
  pass; all other headers are those of the client.
\<close>

theorem rewrite_exact:
  "out_Host (Rewrite reencode u r) = rq_Host r \<and> out_Scheme (Rewrite reencode u r) = u_Scheme u
    \<and> out_URLHost (Rewrite reencode u r) = u_Host u
    \<and> (HasPrefix (rq_Path r) ''/'' \<and> (u_Path u = '''' \<or> last (u_Path u) \<noteq> CHR ''/'') \<longrightarrow>
         out_Path (Rewrite reencode u r) = u_Path u @ rq_Path r)
    \<and> (\<not> ambiguousQuery (rq_RawQuery r) \<and> u_RawQuery u = '''' \<longrightarrow>
         out_RawQuery (Rewrite reencode u r) = rq_RawQuery r)
    \<and> (\<not> ambiguousQuery (rq_RawQuery r) \<and> u_RawQuery u \<noteq> '''' \<and> rq_RawQuery r \<noteq> '''' \<longrightarrow>
         out_RawQuery (Rewrite reencode u r) = u_RawQuery u @ ''&'' @ rq_RawQuery r)
    \<and> hValues (out_Header (Rewrite reencode u r)) ''X-Forwarded-For'' =
        (case SplitHostPort (rq_RemoteAddr r) of
           None \<Rightarrow> []
         | Some (ip, _) \<Rightarrow> [joinValues (hValues (rq_Header r) ''X-Forwarded-For'') @ ip])
    \<and> hValues (out_Header (Rewrite reencode u r)) ''X-Forwarded-Host'' = [rq_Host r]
    \<and> hValues (out_Header (Rewrite reencode u r)) ''X-Forwarded-Proto'' =
        [if hGet (rq_Header r) ''X-Forwarded-Proto'' \<noteq> '''' then hGet (rq_Header r) ''X-Forwarded-Proto''
         else if rq_TLS r then ''https'' else ''http'']
    \<and> hValues (out_Header (Rewrite reencode u r)) ''Forwarded'' = []
    \<and> hValues (out_Header (Rewrite reencode u r)) ''Te'' =
        (if hasToken (hValues (rq_Header r) ''Te'') ''trailers'' then [''trailers''] else [])
    \<and> hValues (out_Header (Rewrite reencode u r)) ''Connection'' =
        (if hasToken (hValues (rq_Header r) ''Connection'') ''Upgrade'' \<and> hGet (rq_Header r) ''Upgrade'' \<noteq> ''''
         then [''Upgrade''] else [])
    \<and> hValues (out_Header (Rewrite reencode u r)) ''Upgrade'' =
        (if hasToken (hValues (rq_Header r) ''Connection'') ''Upgrade'' \<and> hGet (rq_Header r) ''Upgrade'' \<noteq> ''''
         then [hGet (rq_Header r) ''Upgrade''] else [])
    \<and> (\<forall>k. k \<notin> {''Forwarded'', ''X-Forwarded-For'', ''X-Forwarded-Host'', ''X-Forwarded-Proto'', ''Te'', ''Connection'', ''Upgrade''} \<longrightarrow>
         hValues (out_Header (Rewrite reencode u r)) k =
           (if k \<in> {''Proxy-Connection'', ''Keep-Alive'', ''Proxy-Authenticate'', ''Proxy-Authorization'', ''Trailer'',
                  ''Transfer-Encoding''} \<or> k \<in> set (connectionOptions (rq_Header r))
            then [] else hValues (rq_Header r) k))"
proof -
  have upd: "hValues (AList.update k vs h) j = (if j = k then vs else hValues h j)" for k vs h j
    by (simp add: hValues_def gget_def)
  have out: "hValues (out_Header (Rewrite reencode u r)) k =
      (if k = ''X-Forwarded-Proto''
       then [if hGet (rq_Header r) ''X-Forwarded-Proto'' \<noteq> '''' then hGet (rq_Header r) ''X-Forwarded-Proto''
             else if rq_TLS r then ''https'' else ''http'']
       else if k = ''X-Forwarded-Host'' then [rq_Host r]
       else if k = ''X-Forwarded-For''
       then (case SplitHostPort (rq_RemoteAddr r) of
               None \<Rightarrow> []
             | Some (ip, _) \<Rightarrow> [joinValues (hValues (rq_Header r) ''X-Forwarded-For'') @ ip])
       else hValues (outgoingHeader (rq_Header r)) k)" for k
    by (simp add: Rewrite_def Let_def setXForwarded_def upd split: option.splits)
  show ?thesis
    unfolding out hValues_outgoing
    by (auto simp: Rewrite_def Let_def joinPath_rooted joinQuery_def cleanQueryParams_def forwardingHeaders_def
        upgradeType_def hopHeaders_def)
qed

text \<open>A request to open a web socket, over a connection that also names a header of its own.\<close>

definition sampleUpgrade :: request where
  "sampleUpgrade = (sampleRequest ''site.example'' ''/x'')\<lparr>rq_RawQuery := ''a=1'', rq_Header :=
     [(''Connection'', [''keep-alive, x-hop'', ''upgrade'']), (''Upgrade'', [''websocket'']), (''X-Hop'', [''1'']),
      (''Keep-Alive'', [''timeout=5'']), (''X-Forwarded-For'', [''192.0.2.7'']), (''Cookie'', [''k=v''])]\<rparr>"

theorem rewrite_exact_witness:
  "let q = Rewrite (\<lambda>s. s) \<lparr>u_Scheme = ''http'', u_Host = ''a:3210'', u_Path = ''/http'', u_RawQuery = ''''\<rparr> sampleUpgrade in
     out_Path q = ''/http/x'' \<and> out_RawQuery q = ''a=1'' \<and> hValues (out_Header q) ''Cookie'' = [''k=v'']
     \<and> hValues (out_Header q) ''X-Hop'' = [] \<and> hValues (out_Header q) ''Keep-Alive'' = []
     \<and> hValues (out_Header q) ''Upgrade'' = [''websocket'']"
proof -
  have s: "connectionOptions (rq_Header sampleUpgrade) = [''Keep-Alive'', ''X-Hop'', ''Upgrade'']"
    "hasToken (hValues (rq_Header sampleUpgrade) ''Connection'') ''Upgrade''" "hGet (rq_Header sampleUpgrade) ''Upgrade'' = ''websocket''"
    "\<not> ambiguousQuery (rq_RawQuery sampleUpgrade)" "hValues (rq_Header sampleUpgrade) ''Cookie'' = [''k=v'']"
    by code_simp+
  have p: "HasPrefix (rq_Path sampleUpgrade) ''/''" "rq_Path sampleUpgrade = ''/x''" "rq_RawQuery sampleUpgrade = ''a=1''"
    by (simp_all add: sampleUpgrade_def sampleRequest_def)
  note R = rewrite_exact [of "\<lambda>s. s" "\<lparr>u_Scheme = ''http'', u_Host = ''a:3210'', u_Path = ''/http'', u_RawQuery = ''''\<rparr>" sampleUpgrade]
  show ?thesis using R s p by (simp add: Let_def)
qed

end
