(* ===== verification/GoRegexp.thy ===== *)
theory GoRegexp
  imports GoStd
begin

text \<open>
  Anchored regular expressions (package \<open>regexp\<close>): the operators the code's patterns use, a
  matcher by derivatives, and the language of an expression. The patterns only name ASCII
  characters, so matching bytes and matching runes agree.
\<close>

datatype regex =
    Eps
  | Void
  | Cls "char \<Rightarrow> bool"
  | Alt regex regex
  | Cat regex regex
  | Star regex

definition Opt :: "regex \<Rightarrow> regex" where "Opt r = Alt Eps r"

text \<open>The repetition \<open>r{0,n}\<close>.\<close>

fun upTo :: "nat \<Rightarrow> regex \<Rightarrow> regex" where
  "upTo 0 r = Eps"
| "upTo (Suc n) r = Opt (Cat r (upTo n r))"

fun nullable :: "regex \<Rightarrow> bool" where
  "nullable Eps = True"
| "nullable Void = False"
| "nullable (Cls P) = False"
| "nullable (Alt r s) = (nullable r \<or> nullable s)"
| "nullable (Cat r s) = (nullable r \<and> nullable s)"
| "nullable (Star r) = True"

fun derive :: "char \<Rightarrow> regex \<Rightarrow> regex" where
  "derive c Eps = Void"
| "derive c Void = Void"
| "derive c (Cls P) = (if P c then Eps else Void)"
| "derive c (Alt r s) = Alt (derive c r) (derive c s)"
| "derive c (Cat r s) =
     (if nullable r then Alt (Cat (derive c r) s) (derive c s) else Cat (derive c r) s)"
| "derive c (Star r) = Cat (derive c r) (Star r)"

definition MatchString :: "regex \<Rightarrow> string \<Rightarrow> bool" where
  "MatchString r s = nullable (foldl (\<lambda>q c. derive c q) r s)"

section \<open>The language of an expression\<close>

fun lang :: "regex \<Rightarrow> string set" where
  "lang Eps = {''''}"
| "lang Void = {}"
| "lang (Cls P) = {[c] | c. P c}"
| "lang (Alt r s) = lang r \<union> lang s"
| "lang (Cat r s) = {u @ v | u v. u \<in> lang r \<and> v \<in> lang s}"
| "lang (Star r) = {concat ws | ws. set ws \<subseteq> lang r}"

lemma lang_CatI: "u \<in> lang r \<Longrightarrow> v \<in> lang s \<Longrightarrow> u @ v \<in> lang (Cat r s)"
  by auto

lemma lang_consI: "P c \<Longrightarrow> v \<in> lang s \<Longrightarrow> c # v \<in> lang (Cat (Cls P) s)"
  using lang_CatI [of "[c]" "Cls P"] by simp

lemma lang_StarI: "set ws \<subseteq> lang r \<Longrightarrow> concat ws \<in> lang (Star r)"
  by auto

lemma nullable_lang: "nullable r \<longleftrightarrow> [] \<in> lang r"
proof (induction r)
  case (Star r)
  then show ?case using lang_StarI [of "[]" r] by simp
qed auto

lemma star_head: "set ws \<subseteq> L \<Longrightarrow> concat ws = c # w \<Longrightarrow> \<exists>u vs. c # u \<in> L \<and> set vs \<subseteq> L \<and> w = u @ concat vs"
proof (induction ws)
  case (Cons x ws)
  show ?case
  proof (cases x)
    case Nil
    then show ?thesis using Cons by simp
  next
    case x: (Cons d u)
    then have "d = c" "w = u @ concat ws" using Cons.prems(2) by simp_all
    then show ?thesis using Cons.prems(1) x by (intro exI [of _ u] exI [of _ ws]) simp
  qed
qed simp

lemma derive_star:
  assumes IH: "\<And>w. w \<in> lang (derive c r) \<longleftrightarrow> c # w \<in> lang r"
  shows "w \<in> lang (derive c (Star r)) \<longleftrightarrow> c # w \<in> lang (Star r)"
proof
  assume "w \<in> lang (derive c (Star r))"
  then obtain u ws where u: "c # u \<in> lang r" "set ws \<subseteq> lang r" "w = u @ concat ws" using IH by auto
  then have "c # w = concat ((c # u) # ws)" "set ((c # u) # ws) \<subseteq> lang r" by simp_all
  then show "c # w \<in> lang (Star r)" unfolding lang.simps by blast
next
  assume "c # w \<in> lang (Star r)"
  then obtain ws where "set ws \<subseteq> lang r" "concat ws = c # w" by auto
  from star_head [OF this] show "w \<in> lang (derive c (Star r))" using IH by auto
qed

lemma derive_lang: "w \<in> lang (derive c r) \<longleftrightarrow> c # w \<in> lang r"
proof (induction r arbitrary: w)
  case (Cat r s)
  have split: "c # w \<in> lang (Cat r s) \<longleftrightarrow>
      ([] \<in> lang r \<and> c # w \<in> lang s) \<or> (\<exists>u v. w = u @ v \<and> c # u \<in> lang r \<and> v \<in> lang s)"
    by (auto simp: Cons_eq_append_conv)
  show ?case unfolding split using Cat by (auto simp: nullable_lang)
next
  case (Star r)
  then show ?case by (intro derive_star)
qed auto

text \<open>The matcher decides the language.\<close>

lemma MatchString_lang: "MatchString r s \<longleftrightarrow> s \<in> lang r"
  by (induction s arbitrary: r) (simp_all add: MatchString_def nullable_lang derive_lang)

section \<open>Shapes of the code's patterns\<close>

lemma lang_Opt: "lang (Opt r) = {''''} \<union> lang r"
  by (simp add: Opt_def)

lemma lang_upTo_Cls: "lang (upTo n (Cls P)) = {s. length s \<le> n \<and> list_all P s}"
proof (induction n)
  case (Suc n)
  have "lang (upTo (Suc n) (Cls P)) = {''''} \<union> {c # v | c v. P c \<and> length v \<le> n \<and> list_all P v}"
  proof (intro set_eqI iffI)
    fix s assume "s \<in> lang (upTo (Suc n) (Cls P))"
    then show "s \<in> {''''} \<union> {c # v | c v. P c \<and> length v \<le> n \<and> list_all P v}"
      using Suc by (auto simp: lang_Opt)
  next
    fix s assume "s \<in> {''''} \<union> {c # v | c v. P c \<and> length v \<le> n \<and> list_all P v}"
    then show "s \<in> lang (upTo (Suc n) (Cls P))"
      using Suc by (auto simp: lang_Opt simp del: lang.simps intro: lang_consI)
  qed
  also have "\<dots> = {s. length s \<le> Suc n \<and> list_all P s}"
  proof (intro set_eqI)
    fix s
    show "s \<in> {''''} \<union> {c # v | c v. P c \<and> length v \<le> n \<and> list_all P v} \<longleftrightarrow> s \<in> {s. length s \<le> Suc n \<and> list_all P s}"
      by (cases s) auto
  qed
  finally show ?case .
qed auto

lemma lang_Star_Cls: "lang (Star (Cls P)) = {s. list_all P s}"
proof (intro set_eqI iffI)
  fix s assume "s \<in> lang (Star (Cls P))"
  then obtain ws where "s = concat ws" "set ws \<subseteq> {[c] | c. P c}" by auto
  then show "s \<in> {s. list_all P s}" by (fastforce simp: list_all_iff)
next
  fix s assume "s \<in> {s. list_all P s}"
  then have "s = concat (map (\<lambda>c. [c]) s)" "set (map (\<lambda>c. [c]) s) \<subseteq> lang (Cls P)"
    by (auto simp: list_all_iff)
  then show "s \<in> lang (Star (Cls P))" unfolding lang.simps(6) by blast
qed

text \<open>A text whose ends are in \<open>P\<close> and whose characters are in \<open>Q\<close>.\<close>

lemma lang_ends:
  assumes "\<And>c. P c \<Longrightarrow> Q c" and M: "lang m = {s. list_all Q s \<and> length s \<le> n}"
  shows "lang (Cat (Cls P) (Opt (Cat m (Cls P)))) =
    {s. s \<noteq> [] \<and> P (hd s) \<and> P (last s) \<and> list_all Q s \<and> length s \<le> n + 2}"
proof (intro set_eqI iffI)
  fix s assume "s \<in> lang (Cat (Cls P) (Opt (Cat m (Cls P))))"
  then show "s \<in> {s. s \<noteq> [] \<and> P (hd s) \<and> P (last s) \<and> list_all Q s \<and> length s \<le> n + 2}"
    using assms by (auto simp: lang_Opt)
next
  fix s assume s: "s \<in> {s. s \<noteq> [] \<and> P (hd s) \<and> P (last s) \<and> list_all Q s \<and> length s \<le> n + 2}"
  then obtain c t where ct: "s = c # t" by (cases s) auto
  show "s \<in> lang (Cat (Cls P) (Opt (Cat m (Cls P))))"
  proof (cases "t = []")
    case True
    then show ?thesis using s ct by (auto simp: lang_Opt)
  next
    case False
    then have t: "t = butlast t @ [last t]" by simp
    have "list_all Q (butlast t)" "length (butlast t) \<le> n" "P (last t)"
      using s ct False by (auto simp: list_all_iff dest: in_set_butlastD)
    then have "butlast t @ [last t] \<in> lang (Cat m (Cls P))" using M by (intro lang_CatI) simp_all
    then have "t \<in> lang (Opt (Cat m (Cls P)))" using t by (simp only: lang_Opt) simp
    then show ?thesis using s unfolding ct by (intro lang_consI) simp_all
  qed
qed

lemma lang_ends_star:
  assumes "\<And>c. P c \<Longrightarrow> Q c"
  shows "lang (Cat (Cls P) (Opt (Cat (Star (Cls Q)) (Cls P)))) =
    {s. s \<noteq> [] \<and> P (hd s) \<and> P (last s) \<and> list_all Q s}"
proof (intro set_eqI iffI)
  fix s assume "s \<in> lang (Cat (Cls P) (Opt (Cat (Star (Cls Q)) (Cls P))))"
  then show "s \<in> {s. s \<noteq> [] \<and> P (hd s) \<and> P (last s) \<and> list_all Q s}"
    using assms unfolding lang.simps(5) lang_Opt lang_Star_Cls by auto
next
  fix s assume s: "s \<in> {s. s \<noteq> [] \<and> P (hd s) \<and> P (last s) \<and> list_all Q s}"
  then obtain c t where ct: "s = c # t" by (cases s) auto
  show "s \<in> lang (Cat (Cls P) (Opt (Cat (Star (Cls Q)) (Cls P))))"
  proof (cases "t = []")
    case True
    then show ?thesis using s ct by (auto simp: lang_Opt)
  next
    case False
    then have t: "t = butlast t @ [last t]" by simp
    have "list_all Q (butlast t)" "P (last t)"
      using s ct False by (auto simp: list_all_iff dest: in_set_butlastD)
    then have "butlast t @ [last t] \<in> lang (Cat (Star (Cls Q)) (Cls P))"
      using lang_Star_Cls [of Q] by (intro lang_CatI) (blast, simp)
    then have "t \<in> lang (Opt (Cat (Star (Cls Q)) (Cls P)))" using t by (simp only: lang_Opt) simp
    then show ?thesis using s unfolding ct by (intro lang_consI) simp_all
  qed
qed

text \<open>Parts separated by a character that no part holds.\<close>

lemma star_separated:
  "lang (Star (Cat (Cls (\<lambda>d. d = c)) r)) = {concat (map (\<lambda>p. c # p) ps) | ps. set ps \<subseteq> lang r}"
proof (intro set_eqI iffI)
  fix s assume "s \<in> lang (Star (Cat (Cls (\<lambda>d. d = c)) r))"
  then obtain ws where ws: "s = concat ws" "set ws \<subseteq> {c # p | p. p \<in> lang r}" by auto
  then have "ws = map (\<lambda>p. c # p) (map tl ws)" by (auto intro!: nth_equalityI dest: nth_mem)
  moreover have "set (map tl ws) \<subseteq> lang r" using ws(2) by auto
  ultimately have "s = concat (map (\<lambda>p. c # p) (map tl ws)) \<and> set (map tl ws) \<subseteq> lang r" using ws(1) by argo
  then show "s \<in> {concat (map (\<lambda>p. c # p) ps) | ps. set ps \<subseteq> lang r}" by blast
next
  fix s assume "s \<in> {concat (map (\<lambda>p. c # p) ps) | ps. set ps \<subseteq> lang r}"
  then obtain ps where "s = concat (map (\<lambda>p. c # p) ps)" "set (map (\<lambda>p. c # p) ps) \<subseteq> lang (Cat (Cls (\<lambda>d. d = c)) r)"
    by auto
  then show "s \<in> lang (Star (Cat (Cls (\<lambda>d. d = c)) r))" unfolding lang.simps(6) by blast
qed

lemma joinWith_concat: "joinWith c (p # ps) = p @ concat (map (\<lambda>q. c # q) ps)"
  by (induction ps arbitrary: p) simp_all

lemma lang_parts:
  assumes "\<And>p. p \<in> lang r \<Longrightarrow> c \<notin> set p"
  shows "s \<in> lang (Cat r (Star (Cat (Cls (\<lambda>d. d = c)) r))) \<longleftrightarrow> set (splitOn c s) \<subseteq> lang r"
proof
  assume "s \<in> lang (Cat r (Star (Cat (Cls (\<lambda>d. d = c)) r)))"
  then obtain p ps where p: "s = joinWith c (p # ps)" "set (p # ps) \<subseteq> lang r"
    unfolding lang.simps(5) star_separated joinWith_concat by auto
  then have "\<forall>q \<in> set (p # ps). c \<notin> set q" using assms by blast
  then have "splitOn c s = p # ps" unfolding p(1) by (intro splitOn_joinWith) simp_all
  then show "set (splitOn c s) \<subseteq> lang r" using p(2) by simp
next
  assume a: "set (splitOn c s) \<subseteq> lang r"
  obtain p ps where p: "splitOn c s = p # ps" by (cases "splitOn c s") simp_all
  then have "s = p @ concat (map (\<lambda>q. c # q) ps)" using joinWith_splitOn [of c s] joinWith_concat [of c p ps] by simp
  then show "s \<in> lang (Cat r (Star (Cat (Cls (\<lambda>d. d = c)) r)))"
    using a p unfolding lang.simps(5) star_separated by auto
qed

end
