(* ===== verification/UsherConfig.thy ===== *)
theory UsherConfig
  imports UsherHttp GoRegexp JsonFacts
begin

text \<open>
  The configuration of usher (\<open>usher/main.go\<close>): decoding the file, validating it, the routes
  and trackers \<open>run\<close> builds from it, and the start of the program. What reading the file and
  listening return are arguments;
  \<open>tbl\<close> is the Unicode lower-case table and \<open>parse\<close> is \<open>url.ParseRequestURI\<close>.
\<close>

section \<open>Patterns\<close>

definition inRange8 :: "nat \<Rightarrow> nat \<Rightarrow> char \<Rightarrow> bool" where
  "inRange8 lo hi c = (lo \<le> (of_char c :: nat) \<and> (of_char c :: nat) \<le> hi)"

definition alnum :: "char \<Rightarrow> bool" where
  "alnum c = (inRange8 65 90 c \<or> inRange8 97 122 c \<or> inRange8 48 57 c)"

definition labelChar :: "char \<Rightarrow> bool" where
  "labelChar c = (alnum c \<or> c = CHR ''.'' \<or> c = CHR ''_'' \<or> c = CHR ''-'')"

definition hostAlnum :: "char \<Rightarrow> bool" where "hostAlnum c = (inRange8 97 122 c \<or> inRange8 48 57 c)"
definition hostChar :: "char \<Rightarrow> bool" where "hostChar c = (hostAlnum c \<or> c = CHR ''-'')"

definition labelValueRe :: regex where
  "labelValueRe = Cat (Cls alnum) (Opt (Cat (upTo 61 (Cls labelChar)) (Cls alnum)))"

definition hostPartRe :: regex where
  "hostPartRe = Cat (Cls hostAlnum) (Opt (Cat (Star (Cls hostChar)) (Cls hostAlnum)))"

definition hostnameRe :: regex where
  "hostnameRe = Cat hostPartRe (Star (Cat (Cls (\<lambda>c. c = CHR ''.'')) hostPartRe))"

text \<open>What the patterns say: a Kubernetes label value, and a host name.\<close>

definition labelValue :: "string \<Rightarrow> bool" where
  "labelValue s = (s \<noteq> '''' \<and> alnum (hd s) \<and> alnum (last s) \<and> list_all labelChar s \<and> length s \<le> 63)"

definition hostPart :: "string \<Rightarrow> bool" where
  "hostPart s = (s \<noteq> '''' \<and> hostAlnum (hd s) \<and> hostAlnum (last s) \<and> list_all hostChar s)"

definition hostName :: "string \<Rightarrow> bool" where
  "hostName s = list_all hostPart (splitOn (CHR ''.'') s)"

lemma labelValueRe_iff: "MatchString labelValueRe s \<longleftrightarrow> labelValue s"
proof -
  have "lang labelValueRe = {s. s \<noteq> [] \<and> alnum (hd s) \<and> alnum (last s) \<and> list_all labelChar s \<and> length s \<le> 61 + 2}"
    unfolding labelValueRe_def by (rule lang_ends) (auto simp: labelChar_def lang_upTo_Cls)
  then show ?thesis unfolding MatchString_lang labelValue_def by simp
qed

lemma hostPartRe_iff: "s \<in> lang hostPartRe \<longleftrightarrow> hostPart s"
proof -
  have "lang hostPartRe = {s. s \<noteq> [] \<and> hostAlnum (hd s) \<and> hostAlnum (last s) \<and> list_all hostChar s}"
    unfolding hostPartRe_def by (rule lang_ends_star) (simp add: hostChar_def)
  then show ?thesis by (simp add: hostPart_def)
qed

lemma hostChar_no_dot: "\<not> hostChar (CHR ''.'')"
  by (simp add: hostChar_def hostAlnum_def inRange8_def)

lemma hostnameRe_iff: "MatchString hostnameRe s \<longleftrightarrow> hostName s"
proof -
  have "CHR ''.'' \<notin> set p" if "p \<in> lang hostPartRe" for p
    using that hostChar_no_dot by (auto simp: hostPartRe_iff hostPart_def list_all_iff)
  then have "s \<in> lang hostnameRe \<longleftrightarrow> set (splitOn (CHR ''.'') s) \<subseteq> lang hostPartRe"
    unfolding hostnameRe_def by (rule lang_parts)
  then show ?thesis
    by (simp only: MatchString_lang hostName_def list_all_iff subset_iff hostPartRe_iff Ball_def)
qed

section \<open>The configuration file\<close>

record deploymentCfg =
  d_Host :: string
  d_SiteHost :: string
  d_Name :: string

definition noDeployment :: deploymentCfg where
  "noDeployment = \<lparr>d_Host = '''', d_SiteHost = '''', d_Name = ''''\<rparr>"

definition deploymentFields :: "deploymentCfg field list" where
  "deploymentFields =
     [(''host'', \<lambda>v d. map_option (\<lambda>s. d\<lparr>d_Host := s\<rparr>) (decodeString v (d_Host d))),
      (''siteHost'', \<lambda>v d. map_option (\<lambda>s. d\<lparr>d_SiteHost := s\<rparr>) (decodeString v (d_SiteHost d))),
      (''name'', \<lambda>v d. map_option (\<lambda>s. d\<lparr>d_Name := s\<rparr>) (decodeString v (d_Name d)))]"

text \<open>
  Unknown fields are refused, and so is anything after the object. (A repeated \<open>deployments\<close> key
  is decoded into fresh elements here.)
\<close>

definition configFields :: "deploymentCfg list field list" where
  "configFields =
     [(''deployments'', \<lambda>v ds.
        (case v of
           JNull \<Rightarrow> Some []
         | JArr vs \<Rightarrow> those (map (\<lambda>x. decodeStruct True deploymentFields x noDeployment) vs)
         | _ \<Rightarrow> None))]"

definition decodeConfig :: "string \<Rightarrow> deploymentCfg list option" where
  "decodeConfig data = do { v \<leftarrow> parseJson data; decodeStruct True configFields v [] }"

section \<open>Validation\<close>

datatype configError =
    NoDeployments
  | MonoNeedsOne
  | BadBigbrainURL
  | EmptyHost
  | BadName string string
  | DuplicateName string string string
  | BadHost string
  | DuplicateHost string

definition validateHost :: "(string \<Rightarrow> string) \<Rightarrow> string \<Rightarrow> configError option" where
  "validateHost tbl host = (if \<not> MatchString hostnameRe (ToLower tbl host) then Some (BadHost host) else None)"

text \<open>The inner loop: the hosts seen so far, or the error.\<close>

fun addHosts :: "(string \<Rightarrow> string) \<Rightarrow> string list \<Rightarrow> string list \<Rightarrow> configError + string list" where
  "addHosts tbl [] hosts = Inr hosts"
| "addHosts tbl (host # hs) hosts =
     (if host = '''' then addHosts tbl hs hosts
      else (case validateHost tbl host of
              Some e \<Rightarrow> Inl e
            | None \<Rightarrow>
                (let h = ToLower tbl host in
                 if h \<in> set hosts then Inl (DuplicateHost h) else addHosts tbl hs (h # hosts))))"

fun validateLoop ::
  "(string \<Rightarrow> string) \<Rightarrow> deploymentCfg list \<Rightarrow> string list \<Rightarrow> (string, string) gomap \<Rightarrow> configError option" where
  "validateLoop tbl [] hosts names = None"
| "validateLoop tbl (d # ds) hosts names =
     (if d_Host d = '''' then Some EmptyHost
      else if \<not> MatchString labelValueRe (d_Name d) then Some (BadName (d_Host d) (d_Name d))
      else (case map_of names (d_Name d) of
              Some prev \<Rightarrow> Some (DuplicateName prev (d_Host d) (d_Name d))
            | None \<Rightarrow>
                (case addHosts tbl [d_Host d, d_SiteHost d] hosts of
                   Inl e \<Rightarrow> Some e
                 | Inr hosts' \<Rightarrow> validateLoop tbl ds hosts' (AList.update (d_Name d) (d_Host d) names))))"

definition validateDeployments :: "(string \<Rightarrow> string) \<Rightarrow> deploymentCfg list \<Rightarrow> configError option" where
  "validateDeployments tbl ds = validateLoop tbl ds [] []"

definition validateConfig ::
  "(string \<Rightarrow> string) \<Rightarrow> (string \<Rightarrow> url option) \<Rightarrow> deploymentCfg list \<Rightarrow> string \<Rightarrow> bool \<Rightarrow> configError option" where
  "validateConfig tbl parse ds bigbrain single =
     (if ds = [] then Some NoDeployments
      else if single \<and> length ds \<noteq> 1 then Some MonoNeedsOne
      else (case parse bigbrain of
              None \<Rightarrow> Some BadBigbrainURL
            | Some u \<Rightarrow>
                if u_Scheme u \<noteq> ''http'' \<and> u_Scheme u \<noteq> ''https'' \<or> u_Host u = '''' then Some BadBigbrainURL
                else validateDeployments tbl ds))"

definition defaultMaxBodyBytes :: int where "defaultMaxBodyBytes = 200000000"

definition parseMaxBodyBytes :: "string \<Rightarrow> int option" where
  "parseMaxBodyBytes v =
     (if v = '''' then Some defaultMaxBodyBytes
      else (case ParseInt v of None \<Rightarrow> None | Some n \<Rightarrow> if n < 0 then None else Some n))"

section \<open>Routes\<close>

definition addRoutes ::
  "(string \<Rightarrow> string) \<Rightarrow> nat \<Rightarrow> deploymentCfg \<Rightarrow> (string, route) gomap \<Rightarrow> (string, route) gomap" where
  "addRoutes tbl i d routes =
     (let r1 = AList.update (ToLower tbl (d_Host d)) \<lparr>rt_tracker = i, rt_site = False\<rparr> routes in
      if d_SiteHost d \<noteq> ''''
      then AList.update (ToLower tbl (d_SiteHost d)) \<lparr>rt_tracker = i, rt_site = True\<rparr> r1 else r1)"

text \<open>The loop of \<open>run\<close>: routes, trackers, the host every request goes to in mono mode.\<close>

fun buildLoop ::
  "(string \<Rightarrow> string) \<Rightarrow> string \<Rightarrow> int \<Rightarrow> bool \<Rightarrow> deploymentCfg list
    \<Rightarrow> (string, route) gomap \<times> tracker list \<times> string \<Rightarrow> (string, route) gomap \<times> tracker list \<times> string" where
  "buildLoop tbl bigbrain maxB single [] acc = acc"
| "buildLoop tbl bigbrain maxB single (d # ds) (routes, trackers, monoHost) =
     buildLoop tbl bigbrain maxB single ds
       (addRoutes tbl (length trackers) d routes,
        trackers @ [newTracker (d_SiteHost d) bigbrain (d_Name d) maxB],
        if single then ToLower tbl (d_Host d) else monoHost)"

definition buildRoutes ::
  "(string \<Rightarrow> string) \<Rightarrow> string \<Rightarrow> int \<Rightarrow> bool \<Rightarrow> deploymentCfg list
    \<Rightarrow> (string, route) gomap \<times> tracker list \<times> string" where
  "buildRoutes tbl bigbrain maxB single ds = buildLoop tbl bigbrain maxB single ds ([], [], '''')"

section \<open>What validation accepts\<close>

definition hostsOf :: "deploymentCfg \<Rightarrow> string list" where
  "hostsOf d = filter (\<lambda>h. h \<noteq> '''') [d_Host d, d_SiteHost d]"

definition keysOf :: "(string \<Rightarrow> string) \<Rightarrow> deploymentCfg \<Rightarrow> string list" where
  "keysOf tbl d = map (ToLower tbl) (hostsOf d)"

lemma addHosts_iff:
  "addHosts tbl hs hosts = Inr hosts' \<longleftrightarrow>
     (let ks = map (ToLower tbl) (filter (\<lambda>h. h \<noteq> '''') hs) in
      list_all hostName ks \<and> distinct ks \<and> set ks \<inter> set hosts = {} \<and> hosts' = rev ks @ hosts)"
proof (induction hs arbitrary: hosts)
  case (Cons h hs)
  then show ?case
    by (auto simp: Let_def validateHost_def hostnameRe_iff)
qed (auto simp: Let_def)

lemma addHosts_None: "(\<forall>hosts'. addHosts tbl hs hosts \<noteq> Inr hosts') \<longleftrightarrow> (\<exists>e. addHosts tbl hs hosts = Inl e)"
  by (cases "addHosts tbl hs hosts") auto

lemma validateLoop_iff:
  "validateLoop tbl ds hosts names = None \<longleftrightarrow>
     (\<forall>d \<in> set ds. d_Host d \<noteq> '''' \<and> labelValue (d_Name d) \<and> list_all hostName (keysOf tbl d))
     \<and> distinct (map d_Name ds) \<and> set (map d_Name ds) \<inter> fst ` set names = {}
     \<and> distinct (concat (map (keysOf tbl) ds)) \<and> set (concat (map (keysOf tbl) ds)) \<inter> set hosts = {}"
proof (induction ds arbitrary: hosts names)
  case (Cons d ds)
  have none: "map_of names n = None \<longleftrightarrow> n \<notin> fst ` set names" for n by (simp add: map_of_eq_None_iff)
  have keys: "fst ` set (AList.update n x names) = insert n (fst ` set names)" for n x
    by (simp add: dom_update)
  show ?case
  proof (cases "d_Host d \<noteq> '''' \<and> labelValue (d_Name d) \<and> d_Name d \<notin> fst ` set names")
    case False
    then show ?thesis by (auto simp: labelValueRe_iff none split: option.splits)
  next
    case True
    then have n: "map_of names (d_Name d) = None" by (simp add: none)
    show ?thesis
    proof (cases "\<exists>hosts'. addHosts tbl [d_Host d, d_SiteHost d] hosts = Inr hosts'")
      case False
      then obtain e where e: "addHosts tbl [d_Host d, d_SiteHost d] hosts = Inl e" using addHosts_None by blast
      have "\<not> (list_all hostName (keysOf tbl d) \<and> distinct (keysOf tbl d) \<and> set (keysOf tbl d) \<inter> set hosts = {})"
        using False by (simp only: addHosts_iff Let_def keysOf_def hostsOf_def) blast
      then have "\<not> ((\<forall>d \<in> set (d # ds). list_all hostName (keysOf tbl d))
          \<and> distinct (concat (map (keysOf tbl) (d # ds))) \<and> set (concat (map (keysOf tbl) (d # ds))) \<inter> set hosts = {})"
        by auto
      moreover have "validateLoop tbl (d # ds) hosts names \<noteq> None"
        using True n e by (simp add: labelValueRe_iff del: addHosts.simps)
      ultimately show ?thesis by auto
    next
      case ok: True
      then obtain hosts' where h: "addHosts tbl [d_Host d, d_SiteHost d] hosts = Inr hosts'" by blast
      have k: "list_all hostName (keysOf tbl d)" "distinct (keysOf tbl d)" "set (keysOf tbl d) \<inter> set hosts = {}"
        "hosts' = rev (keysOf tbl d) @ hosts"
        using h by (simp_all only: addHosts_iff Let_def keysOf_def hostsOf_def)
      have "validateLoop tbl (d # ds) hosts names
          = validateLoop tbl ds hosts' (AList.update (d_Name d) (d_Host d) names)"
        using True n h by (simp add: labelValueRe_iff del: addHosts.simps)
      then show ?thesis using True k by (auto simp: Cons.IH keys)
    qed
  qed
qed simp

text \<open>
  C23: what validation accepts. A configuration is accepted exactly when every deployment has a
  host, its name is a Kubernetes label value of at most 63 characters, every host and site host
  is a bare host name in lower case, no two deployments share a name and no two routes a host;
  so is the name pattern and the host pattern, whose regular expressions mean just that.
\<close>

theorem validation_exact:
  "(validateDeployments tbl ds = None \<longleftrightarrow>
      (\<forall>d \<in> set ds. d_Host d \<noteq> '''' \<and> labelValue (d_Name d) \<and> list_all hostName (keysOf tbl d))
      \<and> distinct (map d_Name ds) \<and> distinct (concat (map (keysOf tbl) ds)))
   \<and> (MatchString labelValueRe s \<longleftrightarrow> labelValue s) \<and> (MatchString hostnameRe s \<longleftrightarrow> hostName s)"
  by (simp add: validateDeployments_def validateLoop_iff labelValueRe_iff hostnameRe_iff)

theorem validation_exact_witness:
  "validateDeployments (\<lambda>s. s) [\<lparr>d_Host = ''A.example'', d_SiteHost = ''a.example'', d_Name = ''dev''\<rparr>] \<noteq> None
   \<and> validateDeployments (\<lambda>s. s) [\<lparr>d_Host = ''A.example'', d_SiteHost = ''b.example'', d_Name = ''dev''\<rparr>] = None"
proof -
  have l: "ToLower (\<lambda>s. s) ''A.example'' = ''a.example''" "ToLower (\<lambda>s. s) ''a.example'' = ''a.example''"
    "ToLower (\<lambda>s. s) ''b.example'' = ''b.example''" "labelValue ''dev''" "hostName ''a.example''" "hostName ''b.example''"
    by code_simp+
  show ?thesis
    using validation_exact [of "\<lambda>s. s" "[\<lparr>d_Host = ''A.example'', d_SiteHost = ''a.example'', d_Name = ''dev''\<rparr>]"]
      validation_exact [of "\<lambda>s. s" "[\<lparr>d_Host = ''A.example'', d_SiteHost = ''b.example'', d_Name = ''dev''\<rparr>]"] l
    by (simp add: keysOf_def hostsOf_def)
qed

section \<open>Routing\<close>

lemma addRoutes_conv:
  "map_of (addRoutes tbl i d routes) k =
     (if d_SiteHost d \<noteq> '''' \<and> k = ToLower tbl (d_SiteHost d) then Some \<lparr>rt_tracker = i, rt_site = True\<rparr>
      else if k = ToLower tbl (d_Host d) then Some \<lparr>rt_tracker = i, rt_site = False\<rparr>
      else map_of routes k)"
  by (simp add: addRoutes_def Let_def update_conv)

lemma buildLoop_trackers:
  "buildLoop tbl big maxB single ds (routes, ts, m) = (routes', ts', m') \<Longrightarrow>
     ts' = ts @ map (\<lambda>d. newTracker (d_SiteHost d) big (d_Name d) maxB) ds
     \<and> m' = (if single \<and> ds \<noteq> [] then ToLower tbl (d_Host (last ds)) else m)"
proof (induction ds arbitrary: routes ts m)
  case (Cons d ds)
  from Cons.IH [of "addRoutes tbl (length ts) d routes" "ts @ [newTracker (d_SiteHost d) big (d_Name d) maxB]"
      "if single then ToLower tbl (d_Host d) else m"] Cons.prems
  show ?case by auto
qed simp

lemma buildLoop_other:
  "buildLoop tbl big maxB single ds (routes, ts, m) = (routes', ts', m') \<Longrightarrow> \<forall>d \<in> set ds. d_Host d \<noteq> '''' \<Longrightarrow>
     k \<notin> set (concat (map (keysOf tbl) ds)) \<Longrightarrow> map_of routes' k = map_of routes k"
proof (induction ds arbitrary: routes ts m)
  case (Cons d ds)
  then have "map_of routes' k = map_of (addRoutes tbl (length ts) d routes) k" by simp
  also have "\<dots> = map_of routes k"
    using Cons.prems(2,3) by (simp add: addRoutes_conv keysOf_def hostsOf_def split: if_splits)
  finally show ?case .
qed simp

lemma buildLoop_route:
  assumes "buildLoop tbl big maxB single ds (routes, ts, m) = (routes', ts', m')" "\<forall>d \<in> set ds. d_Host d \<noteq> ''''"
    and "distinct (concat (map (keysOf tbl) ds))" "i < length ds"
    and "(host, site) = (d_Host (ds ! i), False) \<or> (host, site) = (d_SiteHost (ds ! i), True) \<and> host \<noteq> ''''"
  shows "map_of routes' (ToLower tbl host) = Some \<lparr>rt_tracker = length ts + i, rt_site = site\<rparr>"
  using assms
proof (induction ds arbitrary: routes ts m i)
  case (Cons d ds)
  show ?case
  proof (cases i)
    case 0
    have host: "d_Host d \<noteq> ''''" using Cons.prems(2) by simp
    have "ToLower tbl host \<in> set (keysOf tbl d)"
      using Cons.prems(5) 0 host by (auto simp: keysOf_def hostsOf_def)
    then have "ToLower tbl host \<notin> set (concat (map (keysOf tbl) ds))" using Cons.prems(3) by auto
    then have "map_of routes' (ToLower tbl host) = map_of (addRoutes tbl (length ts) d routes) (ToLower tbl host)"
      using buildLoop_other Cons.prems(1,2) by fastforce
    moreover have "d_SiteHost d \<noteq> '''' \<Longrightarrow> ToLower tbl (d_Host d) \<noteq> ToLower tbl (d_SiteHost d)"
      using Cons.prems(3) host by (auto simp: keysOf_def hostsOf_def)
    ultimately show ?thesis using Cons.prems(5) 0 by (auto simp: addRoutes_conv)
  next
    case (Suc j)
    then show ?thesis
      using Cons.prems
        Cons.IH [of "addRoutes tbl (length ts) d routes" "ts @ [newTracker (d_SiteHost d) big (d_Name d) maxB]"
          "if single then ToLower tbl (d_Host d) else m" j] by auto
  qed
qed simp

text \<open>A host name in any spelling: letter case, a trailing dot, a port.\<close>

lemma hostName_chars: "hostName s \<Longrightarrow> c \<in> set s \<Longrightarrow> hostChar c \<or> c = CHR ''.''"
proof -
  assume h: "hostName s" and c: "c \<in> set s"
  have "c \<in> set (joinWith (CHR ''.'') ps) \<Longrightarrow> c = CHR ''.'' \<or> (\<exists>p \<in> set ps. c \<in> set p)" for ps
    by (induction ps rule: joinWith.induct) auto
  from this [of "splitOn (CHR ''.'') s"] show ?thesis
    using h c by (auto simp: hostName_def hostPart_def list_all_iff)
qed

lemma hostName_last: "hostName s \<Longrightarrow> s \<noteq> [] \<and> last s \<noteq> CHR ''.''"
proof -
  assume h: "hostName s"
  have j: "ps \<noteq> [] \<Longrightarrow> last ps \<noteq> [] \<Longrightarrow> joinWith c ps \<noteq> [] \<and> last (joinWith c ps) = last (last ps)" for c ps
    by (induction ps rule: list_nonempty_induct) (simp_all add: joinWith_Cons)
  have "hostPart (last (splitOn (CHR ''.'') s))" using h by (simp add: hostName_def list_all_iff)
  then have "last (splitOn (CHR ''.'') s) \<noteq> []" "last (last (splitOn (CHR ''.'') s)) \<noteq> CHR ''.''"
    using hostChar_no_dot by (auto simp: hostPart_def hostChar_def)
  then show ?thesis using j [of "splitOn (CHR ''.'') s" "CHR ''.''"] by simp
qed

definition portSuffix :: "string \<Rightarrow> bool" where
  "portSuffix s = (s = '''' \<or> (\<exists>p. s = CHR '':'' # p \<and> list_all isDigit p))"

lemma hostKey_variant:
  assumes "hostName (map lowerASCII h)" "isASCII h" "dot = '''' \<or> dot = ''.''" "portSuffix port"
  shows "hostKey tbl (h @ dot @ port) = map lowerASCII h"
proof -
  have c: "hostChar (lowerASCII x) \<or> lowerASCII x = CHR ''.''" if "x \<in> set h" for x
    using hostName_chars [OF assms(1)] that by simp
  have bad: "lowerASCII (CHR '':'') = CHR '':''" "lowerASCII (CHR ''['') = CHR ''[''" "lowerASCII (CHR '']'') = CHR '']''"
    "\<not> hostChar (CHR '':'')" "\<not> hostChar (CHR ''['')" "\<not> hostChar (CHR '']'')"
    by (simp_all add: lowerASCII_def hostChar_def hostAlnum_def inRange8_def)
  have no: "x \<notin> set (h @ dot)" if "x \<in> {CHR '':'', CHR ''['', CHR '']''}" for x
    using that c [of x] bad assms(3) by auto
  have "stripPort (h @ dot @ port) = h @ dot"
  proof (cases "port = ''''")
    case True
    then show ?thesis using stripPort_bare [OF no] by simp
  next
    case False
    then obtain p where "port = CHR '':'' # p" "list_all isDigit p" using assms(4) by (auto simp: portSuffix_def)
    then show ?thesis using stripPort_port [OF no no no, of p] by simp
  qed
  moreover have "isASCII (h @ dot)" using assms(2,3) by (auto simp: isASCII_def)
  ultimately have "hostKey tbl (h @ dot @ port) = trimDot (map lowerASCII (h @ dot))"
    by (simp add: hostKey_def ToLower_ascii_only)
  moreover have "lowerASCII (CHR ''.'') = CHR ''.''" by (simp add: lowerASCII_def)
  moreover have "map lowerASCII h \<noteq> []" "last (map lowerASCII h) \<noteq> CHR ''.''"
    using hostName_last [OF assms(1)] by simp_all
  ultimately show ?thesis using assms(3) by (auto simp: trimDot_def)
qed

text \<open>
  C12: routing. With an accepted configuration, a request whose host names a configured API or
  site host, in any letter case, with or without a trailing dot and a port, goes to the tracker
  of this very deployment, and no other tracker has the deployment's name; a request for any
  other host goes to the only deployment in mono mode (probes excepted) and otherwise reaches
  no tracker: it is answered by the probe or with 404.
\<close>

theorem routing_exact:
  assumes "validateConfig tbl parse ds bigbrain single = None"
    and "buildRoutes tbl bigbrain maxB single ds = (routes, trackers, monoHost)"
    and "i < length ds" and "host \<noteq> ''''"
    and "(host, site) = (d_Host (ds ! i), False) \<or> (host, site) = (d_SiteHost (ds ! i), True)"
    and "isASCII host" and "map lowerASCII h = map lowerASCII host" and "dot = '''' \<or> dot = ''.''" and "portSuffix port"
  shows "(rq_Host r = h @ dot @ port \<longrightarrow> routeOf tbl routes monoHost r = Some \<lparr>rt_tracker = i, rt_site = site\<rparr>)
    \<and> length trackers = length ds \<and> t_name (trackers ! i) = d_Name (ds ! i)
    \<and> (\<forall>j < length trackers. t_name (trackers ! j) = d_Name (ds ! i) \<longrightarrow> j = i)
    \<and> (hostKey tbl (rq_Host r) \<notin> set (concat (map (keysOf tbl) ds)) \<longrightarrow>
        (if single \<and> \<not> isProbePath (rq_Path r)
         then routeOf tbl routes monoHost r = Some \<lparr>rt_tracker = 0, rt_site = False\<rparr>
         else newMux tbl routes monoHost now1 now2 trackers r = (trackers, serveProbe r trackers)
           \<and> (isProbePath (rq_Path r) \<or> serveProbe r trackers = Rejected 404 ''unknown deployment host'' False)))"
proof -
  have v: "validateDeployments tbl ds = None" "single \<longrightarrow> length ds = 1"
    using assms(1) by (auto simp: validateConfig_def split: if_splits option.splits)
  have ok: "\<forall>d \<in> set ds. d_Host d \<noteq> '''' \<and> labelValue (d_Name d) \<and> list_all hostName (keysOf tbl d)"
    "distinct (map d_Name ds)" "distinct (concat (map (keysOf tbl) ds))"
    using v(1) by (simp_all add: validateDeployments_def validateLoop_iff)
  have hosts: "\<forall>d \<in> set ds. d_Host d \<noteq> ''''" using ok(1) by simp
  note loop = assms(2) [unfolded buildRoutes_def]
  have tr: "trackers = map (\<lambda>d. newTracker (d_SiteHost d) bigbrain (d_Name d) maxB) ds"
    and mh: "monoHost = (if single \<and> ds \<noteq> [] then ToLower tbl (d_Host (last ds)) else '''')"
    using buildLoop_trackers [OF loop] by simp_all
  have name: "t_name (trackers ! j) = d_Name (ds ! j)" if "j < length ds" for j
    using that by (simp add: tr newTracker_def)
  have route: "map_of routes (ToLower tbl host) = Some \<lparr>rt_tracker = i, rt_site = site\<rparr>"
    using buildLoop_route [OF loop hosts ok(3) assms(3)] assms(4,5) by auto
  have low: "ToLower tbl host = map lowerASCII h" using assms(6,7) by (simp add: ToLower_ascii_only)
  have "ToLower tbl host \<in> set (keysOf tbl (ds ! i))"
    using assms(4,5) by (auto simp: keysOf_def hostsOf_def)
  then have "hostName (map lowerASCII h)" using ok(1) assms(3) low by (auto simp: list_all_iff)
  moreover have "isASCII h" using assms(6,7) map_lower_ascii by metis
  ultimately have "hostKey tbl (h @ dot @ port) = map lowerASCII h" using assms(8,9) by (intro hostKey_variant)
  then have one: "rq_Host r = h @ dot @ port \<longrightarrow> routeOf tbl routes monoHost r = Some \<lparr>rt_tracker = i, rt_site = site\<rparr>"
    using route low by (simp add: routeOf_def)
  have uniq: "\<forall>j < length trackers. t_name (trackers ! j) = d_Name (ds ! i) \<longrightarrow> j = i"
    using ok(2) assms(3) name by (auto simp: tr nth_eq_iff_index_eq distinct_conv_nth)
  have other: "if single \<and> \<not> isProbePath (rq_Path r)
      then routeOf tbl routes monoHost r = Some \<lparr>rt_tracker = 0, rt_site = False\<rparr>
      else newMux tbl routes monoHost now1 now2 trackers r = (trackers, serveProbe r trackers)
        \<and> (isProbePath (rq_Path r) \<or> serveProbe r trackers = Rejected 404 ''unknown deployment host'' False)"
    if k: "hostKey tbl (rq_Host r) \<notin> set (concat (map (keysOf tbl) ds))"
  proof -
    have none: "map_of routes (hostKey tbl (rq_Host r)) = None"
      using buildLoop_other [OF loop hosts k] by simp
    show ?thesis
    proof (cases "single \<and> \<not> isProbePath (rq_Path r)")
      case True
      then obtain d where d: "ds = [d]" using v(2) by (cases ds) auto
      then have m: "monoHost = ToLower tbl (d_Host d)" using True mh by simp
      have "hostName (ToLower tbl (d_Host d))" using ok(1) d by (auto simp: keysOf_def hostsOf_def)
      then have "monoHost \<noteq> ''''" using hostName_last m by auto
      moreover have "map_of routes monoHost = Some \<lparr>rt_tracker = 0, rt_site = False\<rparr>"
        using buildLoop_route [OF loop hosts ok(3), of 0 "d_Host d" False] d m by simp
      ultimately show ?thesis using True none by (simp add: routeOf_def)
    next
      case False
      then have "routeOf tbl routes monoHost r = None" using none mh by (auto simp: routeOf_def)
      then have "newMux tbl routes monoHost now1 now2 trackers r = (trackers, serveProbe r trackers)"
        by (simp add: newMux_def)
      then show ?thesis using False by (auto simp: serveProbe_def)
    qed
  qed
  have "length trackers = length ds" by (simp add: tr)
  then show ?thesis using one uniq other name [OF assms(3)] by blast
qed

definition sampleConfig :: "deploymentCfg list" where
  "sampleConfig =
     [\<lparr>d_Host = ''dev.example'', d_SiteHost = '''', d_Name = ''dev''\<rparr>,
      \<lparr>d_Host = ''prod.example'', d_SiteHost = ''Prod.site'', d_Name = ''prod''\<rparr>]"

theorem routing_exact_witness:
  "case buildRoutes (\<lambda>s. s) ''http://bigbrain:8081'' 0 False sampleConfig of (routes, trackers, m) \<Rightarrow>
     routeOf (\<lambda>s. s) routes m (sampleRequest ''PROD.SITE.:8443'' ''/hook'') = Some \<lparr>rt_tracker = 1, rt_site = True\<rparr>
     \<and> t_name (trackers ! 1) = ''prod''"
proof -
  obtain routes trackers m where b: "buildRoutes (\<lambda>s. s) ''http://bigbrain:8081'' 0 False sampleConfig = (routes, trackers, m)"
    by (cases "buildRoutes (\<lambda>s. s) ''http://bigbrain:8081'' 0 False sampleConfig")
  have v: "validateConfig (\<lambda>s. s) sampleParse sampleConfig ''http://bigbrain:8081'' False = None" by code_simp
  have s: "sampleConfig ! 1 = \<lparr>d_Host = ''prod.example'', d_SiteHost = ''Prod.site'', d_Name = ''prod''\<rparr>"
    "length sampleConfig = 2" by (simp_all add: sampleConfig_def)
  have l: "map lowerASCII ''PROD.SITE'' = map lowerASCII ''Prod.site''" "isASCII ''Prod.site''" by code_simp+
  have p: "portSuffix '':8443''" by (simp add: portSuffix_def isDigit_def)
  have q: "rq_Host (sampleRequest ''PROD.SITE.:8443'' ''/hook'') = ''PROD.SITE'' @ ''.'' @ '':8443''"
    by (simp add: sampleRequest_def)
  show ?thesis
    using routing_exact [OF v b, of 1 "''Prod.site''" True "''PROD.SITE''" "''.''" "'':8443''"
        "sampleRequest ''PROD.SITE.:8443'' ''/hook''"] s l p q b
    by simp
qed


section \<open>Start-up\<close>

datatype usherError =
    UnreadableConfig
  | UnparsableConfig
  | InvalidConfig configError
  | InvalidMaxBody
  | ListenFailed

text \<open>
  \<open>main\<close> up to the point where \<open>run\<close> starts to serve: the content of the file (if it can be read),
  the flags, the environment variable, and whether the address can be listened on.
\<close>

definition startUsher ::
  "(string \<Rightarrow> string) \<Rightarrow> (string \<Rightarrow> url option) \<Rightarrow> string option \<Rightarrow> string \<Rightarrow> bool \<Rightarrow> string \<Rightarrow> bool
    \<Rightarrow> usherError + (string, route) gomap \<times> tracker list \<times> string" where
  "startUsher tbl parse file bigbrain single maxBodyEnv listens =
     (case file of
        None \<Rightarrow> Inl UnreadableConfig
      | Some data \<Rightarrow>
          (case decodeConfig data of
             None \<Rightarrow> Inl UnparsableConfig
           | Some ds \<Rightarrow>
               (case validateConfig tbl parse ds bigbrain single of
                  Some e \<Rightarrow> Inl (InvalidConfig e)
                | None \<Rightarrow>
                    (case parseMaxBodyBytes maxBodyEnv of
                       None \<Rightarrow> Inl InvalidMaxBody
                     | Some maxB \<Rightarrow>
                         if \<not> listens then Inl ListenFailed
                         else Inr (buildRoutes tbl bigbrain maxB single ds)))))"

text \<open>Every route points to a tracker, a site route to one with a site.\<close>

definition route_ok :: "tracker list \<Rightarrow> route \<Rightarrow> bool" where
  "route_ok ts rt = (rt_tracker rt < length ts \<and> (rt_site rt \<longrightarrow> siteHost (ts ! rt_tracker rt) \<noteq> ''''))"

lemma route_ok_more: "route_ok ts rt \<Longrightarrow> route_ok (ts @ us) rt"
  by (auto simp: route_ok_def nth_append)

lemma buildLoop_routes_ok:
  assumes "buildLoop tbl big maxB single ds (routes, ts, m) = (routes', ts', m')"
    and "\<forall>k rt. map_of routes k = Some rt \<longrightarrow> route_ok ts rt"
  shows "\<forall>k rt. map_of routes' k = Some rt \<longrightarrow> route_ok ts' rt"
  using assms
proof (induction ds arbitrary: routes ts m)
  case (Cons d ds)
  let ?ts = "ts @ [newTracker (d_SiteHost d) big (d_Name d) maxB]"
  have "\<forall>k rt. map_of routes k = Some rt \<longrightarrow> route_ok ?ts rt"
    using Cons.prems(2) by (simp add: route_ok_more)
  moreover have "route_ok ?ts \<lparr>rt_tracker = length ts, rt_site = False\<rparr>"
    and "d_SiteHost d \<noteq> '''' \<Longrightarrow> route_ok ?ts \<lparr>rt_tracker = length ts, rt_site = True\<rparr>"
    by (simp_all add: route_ok_def newTracker_def nth_append)
  ultimately have "\<forall>k rt. map_of (addRoutes tbl (length ts) d routes) k = Some rt \<longrightarrow> route_ok ?ts rt"
    by (auto simp: addRoutes_conv split: if_splits)
  then show ?case using Cons.IH Cons.prems(1) by simp
qed simp


definition sampleFile :: string where
  "sampleFile = encodeJson (JObj [(''deployments'', JArr [JObj [(''host'', JStr ''dev.example''), (''name'', JStr ''dev'')]])])"


end
