(* ===== verification/ServerApi.thy ===== *)
theory ServerApi
  imports UsageApi LeaderFeed UsherConfig
begin

text \<open>
  The HTTP interface of bigbrain as a whole (\<open>Handler\<close>, \<open>logging\<close>, \<open>statusWriter\<close>, \<open>writeJSON\<close> of
  \<open>server/server.go\<close>): which request reaches which handler, what a handler writes, what the
  client gets and what is logged.

  \<open>http.ServeMux\<close> is modelled for the patterns the code registers. The path of a request is its
  escaped path. The content of a redirect and its code (which depends on the version of Go) play
  no role; the code is the argument \<open>moved\<close>.
\<close>

section \<open>Routing (http.ServeMux)\<close>

text \<open>\<open>url.PathUnescape\<close>; the mux keeps a segment that cannot be unescaped.\<close>

fun PathUnescape :: "string \<Rightarrow> string option" where
  "PathUnescape [] = Some []"
| "PathUnescape (c # s) =
     (if c \<noteq> CHR ''%'' then map_option ((#) c) (PathUnescape s)
      else (case s of
              a # b # r \<Rightarrow>
                (case (hexVal a, hexVal b) of
                   (Some x, Some y) \<Rightarrow> map_option ((#) (char_of (16 * x + y))) (PathUnescape r)
                 | _ \<Rightarrow> None)
            | _ \<Rightarrow> None))"

definition pathUnescape :: "string \<Rightarrow> string" where
  "pathUnescape s = (case PathUnescape s of None \<Rightarrow> s | Some t \<Rightarrow> t)"

definition muxClean :: "string \<Rightarrow> string" where
  "muxClean p =
     (let p1 = (if p = '''' then ''/'' else if hd p \<noteq> CHR ''/'' then CHR ''/'' # p else p);
          np = CleanRooted p1
      in if last p1 = CHR ''/'' \<and> np \<noteq> ''/'' then np @ ''/'' else np)"

text \<open>The segments of a path; a trailing slash is a segment of its own.\<close>

definition segmentsOf :: "string \<Rightarrow> string list" where
  "segmentsOf p = map (\<lambda>s. if s = '''' then ''/'' else pathUnescape s) (splitOn (CHR ''/'') (tl p))"

datatype patternSegment = Literal string | Wildcard

fun matchSegments :: "patternSegment list \<Rightarrow> string list \<Rightarrow> string list option" where
  "matchSegments [] [] = Some []"
| "matchSegments (Literal l # ps) (s # ss) = (if s = l then matchSegments ps ss else None)"
| "matchSegments (Wildcard # ps) (s # ss) = (if s \<noteq> ''/'' then map_option ((#) s) (matchSegments ps ss) else None)"
| "matchSegments _ _ = None"

datatype endpoint = Healthz | Readyz | GetLeader | LeaderStream | UsageIngest | UsageQuery

definition patterns :: "(string \<times> patternSegment list \<times> endpoint) list" where
  "patterns =
     [(''GET'', [Literal ''healthz''], Healthz),
      (''GET'', [Literal ''readyz''], Readyz),
      (''GET'', [Literal ''registry'', Literal ''deployments'', Wildcard, Literal ''leader''], GetLeader),
      (''GET'', [Literal ''registry'', Literal ''deployments'', Wildcard, Literal ''leader-stream''], LeaderStream),
      (''POST'', [Literal ''internal'', Literal ''usage''], UsageIngest),
      (''GET'', map Literal [''api'', ''dashboard'', ''teams'', ''0'', ''usage'', ''query''], UsageQuery)]"

fun muxFind :: "(string \<times> patternSegment list \<times> endpoint) list \<Rightarrow> string \<Rightarrow> string list \<Rightarrow> (endpoint \<times> string list) option" where
  "muxFind [] meth segs = None"
| "muxFind ((m, ps, e) # rest) meth segs =
     (case (if m = meth then matchSegments ps segs else None) of
        Some vals \<Rightarrow> Some (e, vals)
      | None \<Rightarrow> muxFind rest meth segs)"

definition muxMatch :: "string \<Rightarrow> string list \<Rightarrow> (endpoint \<times> string list) option" where
  "muxMatch meth segs =
     (case muxFind patterns meth segs of
        Some x \<Rightarrow> Some x
      | None \<Rightarrow> if meth = ''HEAD'' then muxFind patterns ''GET'' segs else None)"

definition otherMethods :: "string list \<Rightarrow> string list" where
  "otherMethods segs =
     remdups (concat (map (\<lambda>(m, ps, e). if matchSegments ps segs = None then []
                                         else if m = ''GET'' then [''GET'', ''HEAD''] else [m]) patterns))"

text \<open>A handler gets the value of its wildcard, if it has one.\<close>

datatype muxResult =
    ToHandler endpoint string
  | Moved
  | NotAllowed "string list"
  | NotFound
  | BadTarget

definition serveMux :: "string \<Rightarrow> string \<Rightarrow> muxResult" where
  "serveMux meth path =
     (if path = ''*'' then BadTarget
      else (let p = (if meth = ''CONNECT'' then path else muxClean path) in
            if p \<noteq> path then Moved
            else (case muxMatch meth (segmentsOf p) of
                    Some (e, vals) \<Rightarrow> ToHandler e (case vals of [] \<Rightarrow> '''' | v # _ \<Rightarrow> v)
                  | None \<Rightarrow>
                      (case otherMethods (segmentsOf p) of
                         [] \<Rightarrow> NotFound
                       | ms \<Rightarrow> NotAllowed ms))))"

section \<open>Writing a response\<close>

text \<open>
  What a handler does to its \<open>ResponseWriter\<close>, and the writer of \<open>net/http\<close>: the first header
  counts, and a write or a flush without a header sends 200.
\<close>

datatype writeCall = WriteHeader int | WriteBody string | Flush

record httpResponse =
  hr_Status :: "int option"
  hr_Body :: string

definition rawHeader :: "int \<Rightarrow> httpResponse \<Rightarrow> httpResponse" where
  "rawHeader code h = (case hr_Status h of None \<Rightarrow> h\<lparr>hr_Status := Some code\<rparr> | Some _ \<Rightarrow> h)"

definition rawWrite :: "string \<Rightarrow> httpResponse \<Rightarrow> httpResponse" where
  "rawWrite b h = (rawHeader 200 h)\<lparr>hr_Body := hr_Body h @ b\<rparr>"

record statusWriter =
  sw_Response :: httpResponse
  sw_status :: int
  sw_wrote :: bool

definition newStatusWriter :: statusWriter where
  "newStatusWriter = \<lparr>sw_Response = \<lparr>hr_Status = None, hr_Body = ''''\<rparr>, sw_status = 200, sw_wrote = False\<rparr>"

text \<open>\<open>WriteHeader\<close> and \<open>Write\<close> of \<open>statusWriter\<close>; a flush goes past it (\<open>Unwrap\<close>).\<close>

fun swCall :: "statusWriter \<Rightarrow> writeCall \<Rightarrow> statusWriter" where
  "swCall w (WriteHeader code) =
     (if sw_wrote w then w
      else w\<lparr>sw_status := code, sw_wrote := True, sw_Response := rawHeader code (sw_Response w)\<rparr>)"
| "swCall w (WriteBody b) = w\<lparr>sw_wrote := True, sw_Response := rawWrite b (sw_Response w)\<rparr>"
| "swCall w Flush = w\<lparr>sw_Response := rawHeader 200 (sw_Response w)\<rparr>"

definition writeJSON :: "int \<Rightarrow> json \<Rightarrow> writeCall list" where
  "writeJSON code v = [WriteHeader code, WriteBody (encodeJson v @ [newline])]"

definition writeErr :: "int \<Rightarrow> string \<Rightarrow> writeCall list" where
  "writeErr code msg = writeJSON code (JObj [(''error'', JStr msg)])"

fun writePayload :: "reply \<Rightarrow> writeCall list" where
  "writePayload (code, OkText) = [WriteHeader code, WriteBody ''ok'']"
| "writePayload (code, ErrorMessage m) = writeErr code m"
| "writePayload (code, LeaderPayload ev) = writeJSON code (eventJson ev)"

fun writeUsage :: "int \<times> usageReply \<Rightarrow> writeCall list" where
  "writeUsage (code, UsageError m) = writeErr code m"
| "writeUsage (code, Ingested n) = writeJSON code (jsonMap [(''ingested'', jsonInt (int n))])"
| "writeUsage (code, UsageRows out) = writeJSON code (JArr (map (\<lambda>row. JArr (map JStr row)) out))"

fun writeStart :: "streamStart \<Rightarrow> writeCall list" where
  "writeStart (StreamRefused code m) = writeErr code m"
| "writeStart StreamHead = [WriteHeader 200]"
| "writeStart (StreamOpen c) = [WriteHeader 200, Flush]"

section \<open>Serving a request\<close>

record apiRequest =
  ar_Method :: string
  ar_Path :: string
  ar_Query :: "(string, string) gomap"
  ar_Authorization :: string
  ar_Body :: "string \<times> bool"

record bigbrain =
  bs_reg :: Registry
  bs_ins :: Insights

text \<open>
  The calls of a handler, the new state, and the channel of a stream that follows. \<open>None\<close> is a
  panic.
\<close>

definition runEndpoint ::
  "(string \<Rightarrow> 'h) \<Rightarrow> (nat \<Rightarrow> instant) \<Rightarrow> (AnyEvent \<Rightarrow> AnyEvent) \<Rightarrow> choices \<Rightarrow> instant
    \<Rightarrow> (string, string) gomap \<Rightarrow> endpoint \<Rightarrow> string \<Rightarrow> apiRequest \<Rightarrow> bigbrain
    \<Rightarrow> (bigbrain \<times> writeCall list \<times> nat option) option" where
  "runEndpoint sha clock iter go now tokens e name rq s =
     (case e of
        Healthz \<Rightarrow> Some (s, writePayload healthz, None)
      | Readyz \<Rightarrow> Some (s, writePayload (readyz (bs_reg s)), None)
      | GetLeader \<Rightarrow> Some (s, writePayload (handleGetLeader (bs_reg s) name), None)
      | LeaderStream \<Rightarrow>
          (case openLeaderStream (bs_reg s) name (ar_Method rq = ''HEAD'') of
             (r', opened) \<Rightarrow> Some (s\<lparr>bs_reg := r'\<rparr>, writeStart opened,
                                 (case opened of StreamOpen c \<Rightarrow> Some c | _ \<Rightarrow> None)))
      | UsageIngest \<Rightarrow>
          (case handleUsageIngest sha clock iter tokens (ar_Authorization rq) (ar_Body rq) (bs_ins s) of
             None \<Rightarrow> None
           | Some (i', code, reply) \<Rightarrow> Some (s\<lparr>bs_ins := i'\<rparr>, writeUsage (code, reply), None))
      | UsageQuery \<Rightarrow>
          Some (s, writeUsage (handleUsageQuery sha go now tokens (ar_Authorization rq) (ar_Query rq) (bs_ins s)), None))"

text \<open>What the mux itself writes when no handler runs.\<close>

fun muxCalls :: "int \<Rightarrow> muxResult \<Rightarrow> writeCall list" where
  "muxCalls moved Moved = [WriteHeader moved]"
| "muxCalls moved (NotAllowed ms) = [WriteHeader 405, WriteBody (''Method Not Allowed'' @ [newline])]"
| "muxCalls moved NotFound = [WriteHeader 404, WriteBody (''404 page not found'' @ [newline])]"
| "muxCalls moved BadTarget = [WriteHeader 400]"
| "muxCalls moved (ToHandler e n) = []"

datatype logLevel = LevelDebug | LevelInfo

text \<open>
  \<open>Handler\<close> with \<open>logging\<close>: the new state, the response, what is logged, and a stream to follow. A
  request by \<open>HEAD\<close> gets no body.
\<close>

record served =
  sv_State :: bigbrain
  sv_Response :: httpResponse
  sv_Log :: "logLevel \<times> string \<times> int"
  sv_Stream :: "nat option"

definition serveApi ::
  "int \<Rightarrow> (string \<Rightarrow> 'h) \<Rightarrow> (nat \<Rightarrow> instant) \<Rightarrow> (AnyEvent \<Rightarrow> AnyEvent) \<Rightarrow> choices \<Rightarrow> instant
    \<Rightarrow> (string, string) gomap \<Rightarrow> apiRequest \<Rightarrow> bigbrain \<Rightarrow> served option" where
  "serveApi moved sha clock iter go now tokens rq s =
     (let res = serveMux (ar_Method rq) (ar_Path rq) in
      case (case res of
              ToHandler e name \<Rightarrow> runEndpoint sha clock iter go now tokens e name rq s
            | _ \<Rightarrow> Some (s, muxCalls moved res, None)) of
        None \<Rightarrow> None
      | Some (s', calls, stream) \<Rightarrow>
          (let w = foldl swCall newStatusWriter calls in
           Some \<lparr>sv_State = s',
                 sv_Response = (if ar_Method rq = ''HEAD'' then (sw_Response w)\<lparr>hr_Body := ''''\<rparr> else sw_Response w),
                 sv_Log = (if sw_status w < 400 then LevelDebug else LevelInfo, ar_Method rq, sw_status w),
                 sv_Stream = stream\<rparr>))"

section \<open>What is logged is what was sent\<close>

text \<open>A handler that sets a status first, and a status writer that tells the truth.\<close>

fun sends :: "int \<Rightarrow> writeCall list \<Rightarrow> bool" where
  "sends code (WriteHeader c # calls) = (c = code)"
| "sends code _ = False"

lemma swCall_sent:
  "hr_Status (sw_Response w) = Some (sw_status w) \<Longrightarrow> sw_wrote w \<Longrightarrow>
    hr_Status (sw_Response (foldl swCall w calls)) = Some (sw_status w) \<and> sw_status (foldl swCall w calls) = sw_status w"
proof (induction calls arbitrary: w)
  case (Cons c calls)
  then show ?case using Cons.IH [of "swCall w c"] by (cases c) (auto simp: rawHeader_def rawWrite_def)
qed simp

lemma sends_sent:
  assumes "sends code calls"
  shows "hr_Status (sw_Response (foldl swCall newStatusWriter calls)) = Some code
    \<and> sw_status (foldl swCall newStatusWriter calls) = code"
proof -
  obtain rest where c: "calls = WriteHeader code # rest"
    using assms by (cases "(code, calls)" rule: sends.cases) auto
  have "hr_Status (sw_Response (swCall newStatusWriter (WriteHeader code))) = Some code"
    "sw_status (swCall newStatusWriter (WriteHeader code)) = code" "sw_wrote (swCall newStatusWriter (WriteHeader code))"
    by (simp_all add: newStatusWriter_def rawHeader_def)
  then show ?thesis using swCall_sent [of "swCall newStatusWriter (WriteHeader code)" rest] c by simp
qed

lemma sends_json [simp]: "sends code (writeJSON c v) = (c = code)" "sends code (writeErr c m) = (c = code)"
  by (simp_all add: writeJSON_def writeErr_def)

lemma sends_payload [simp]: "sends code (writePayload (c, p)) = (c = code)"
  by (cases p) simp_all

lemma sends_usage [simp]: "sends code (writeUsage (c, u)) = (c = code)"
  by (cases u) simp_all

lemma sends_start [simp]: "sends code (writeStart st) = (code = (case st of StreamRefused c m \<Rightarrow> c | _ \<Rightarrow> 200))"
  by (cases st) auto

text \<open>The body that these calls send.\<close>

lemma writePayload_response:
  "sw_Response (foldl swCall newStatusWriter (writePayload (code, p))) = \<lparr>hr_Status = Some code, hr_Body = replyBody p\<rparr>"
  by (cases p) (simp_all add: writeErr_def writeJSON_def newStatusWriter_def rawHeader_def rawWrite_def encodeLeader_def)

section \<open>Which handler a path reaches\<close>

lemma pathUnescape_plain: "CHR ''%'' \<notin> set s \<Longrightarrow> pathUnescape s = s"
proof -
  assume "CHR ''%'' \<notin> set s"
  then have "PathUnescape s = Some s" by (induction s) auto
  then show ?thesis by (simp add: pathUnescape_def)
qed

definition plainSegment :: "string \<Rightarrow> bool" where
  "plainSegment s = (goodSegment s \<and> CHR ''%'' \<notin> set s)"

lemma splitOn_rooted:
  assumes "gs \<noteq> []" and "list_all plainSegment gs"
  shows "splitOn (CHR ''/'') (tl (rooted gs)) = gs"
  using assms splitOn_joinWith [of gs "CHR ''/''"]
  by (simp add: rooted_def list_all_iff plainSegment_def goodSegment_def)

lemma segmentsOf_rooted:
  assumes "gs \<noteq> []" and "list_all plainSegment gs"
  shows "segmentsOf (rooted gs) = gs"
  unfolding segmentsOf_def splitOn_rooted [OF assms]
  using assms(2) by (intro map_idI) (auto simp: list_all_iff plainSegment_def goodSegment_def pathUnescape_plain)

lemma last_rooted:
  assumes "gs \<noteq> []" and "list_all plainSegment gs"
  shows "last (rooted gs) \<noteq> CHR ''/''"
proof -
  have "last (joinWith (CHR ''/'') gs) \<in> set (last gs) \<and> joinWith (CHR ''/'') gs \<noteq> []"
    using assms
  proof (induction gs rule: list_nonempty_induct)
    case (single g)
    then show ?case by (simp add: plainSegment_def goodSegment_def)
  next
    case (cons g gs)
    then show ?case by (simp add: joinWith_Cons)
  qed
  moreover have "CHR ''/'' \<notin> set (last gs)"
    using assms by (auto simp: list_all_iff plainSegment_def goodSegment_def)
  ultimately show ?thesis by (auto simp: rooted_def)
qed

lemma muxClean_rooted:
  assumes "gs \<noteq> []" and "list_all plainSegment gs"
  shows "muxClean (rooted gs) = rooted gs"
proof -
  have "list_all goodSegment gs" using assms(2) by (auto simp: list_all_iff plainSegment_def)
  then have "CleanRooted (rooted gs) = rooted gs" using cleanSegments_rooted by (simp add: CleanRooted_def)
  moreover have "rooted gs \<noteq> ''''" "hd (rooted gs) = CHR ''/''" by (simp_all add: rooted_def)
  ultimately show ?thesis using last_rooted [OF assms] by (simp add: muxClean_def Let_def)
qed

lemma serveMux_rooted:
  assumes "gs \<noteq> []" and "list_all plainSegment gs"
  shows "serveMux meth (rooted gs) =
    (case muxMatch meth gs of
       Some (e, vals) \<Rightarrow> ToHandler e (case vals of [] \<Rightarrow> '''' | v # _ \<Rightarrow> v)
     | None \<Rightarrow> (case otherMethods gs of [] \<Rightarrow> NotFound | ms \<Rightarrow> NotAllowed ms))"
proof -
  have "rooted gs \<noteq> ''*''" by (simp add: rooted_def)
  then show ?thesis
    by (simp add: serveMux_def muxClean_rooted [OF assms] segmentsOf_rooted [OF assms] cong: option.case_cong)
qed

text \<open>A name usher accepts is a plain segment.\<close>

lemma label_plain:
  assumes "labelValue n"
  shows "plainSegment n"
proof -
  have "\<not> labelChar (CHR ''/'')" "\<not> labelChar (CHR ''%'')" "\<not> alnum (CHR ''.'')" by code_simp+
  then show ?thesis using assms by (auto simp: plainSegment_def goodSegment_def labelValue_def list_all_iff)
qed

definition deploymentPath :: "string \<Rightarrow> string \<Rightarrow> string" where
  "deploymentPath n leaf = ''/registry/deployments/'' @ n @ CHR ''/'' # leaf"

lemma deployment_route:
  assumes "labelValue n" and "plainSegment leaf"
  shows "serveMux ''GET'' (deploymentPath n leaf) =
    (if leaf = ''leader'' then ToHandler GetLeader n
     else if leaf = ''leader-stream'' then ToHandler LeaderStream n else NotFound)"
proof -
  let ?gs = "[''registry'', ''deployments'', n, leaf]"
  have p: "deploymentPath n leaf = rooted ?gs" by (simp add: deploymentPath_def rooted_def)
  have lit: "plainSegment ''registry''" "plainSegment ''deployments''" by code_simp+
  have ok: "list_all plainSegment ?gs" using label_plain [OF assms(1)] assms(2) lit by simp
  have "n \<noteq> ''/''" using label_plain [OF assms(1)] by (auto simp: plainSegment_def goodSegment_def)
  then show ?thesis
    unfolding p by (subst serveMux_rooted [OF _ ok])
      (auto simp: muxMatch_def patterns_def otherMethods_def)
qed

text \<open>Only \<open>POST\<close> reaches the ingest endpoint, only \<open>GET\<close> and \<open>HEAD\<close> the others.\<close>

lemma muxFind_method:
  "muxFind patterns meth segs = Some (e, vals) \<Longrightarrow> meth = (if e = UsageIngest then ''POST'' else ''GET'')"
  by (auto simp: patterns_def split: option.splits if_splits)

lemma serveMux_method:
  assumes "serveMux meth path = ToHandler e name"
  shows "if e = UsageIngest then meth = ''POST'' else meth = ''GET'' \<or> meth = ''HEAD''"
proof -
  obtain vals where "muxMatch meth (segmentsOf path) = Some (e, vals)"
    using assms by (auto simp: serveMux_def Let_def split: if_splits option.splits list.splits)
  then show ?thesis by (auto simp: muxMatch_def dest!: muxFind_method split: option.splits if_splits)
qed

section \<open>What a request can change\<close>

definition sameLeaders :: "Registry \<Rightarrow> Registry \<Rightarrow> bool" where
  "sameLeaders r r' = (deps r' = deps r \<and> epoch r' = epoch r)"

lemma openLeaderStream_effect:
  assumes "openLeaderStream r n isHead = (r', opened)"
  shows "sameLeaders r r' \<and> (r' \<noteq> r \<longrightarrow> \<not> isHead \<and> isKnown r n \<and> (\<exists>c. opened = StreamOpen c))"
  using assms
  by (auto simp: openLeaderStream_def sameLeaders_def Subscribe_def Namespace_def isKnown_def Let_def
      split: option.splits if_splits)

lemma runEndpoint_effect:
  assumes "ins_inv (bs_ins s)"
  shows "\<exists>s' calls stream code. runEndpoint sha clock iter go now tokens e name rq s = Some (s', calls, stream)
    \<and> sends code calls \<and> ins_inv (bs_ins s') \<and> sameLeaders (bs_reg s) (bs_reg s')
    \<and> (bs_reg s' \<noteq> bs_reg s \<longrightarrow> e = LeaderStream \<and> ar_Method rq \<noteq> ''HEAD'' \<and> isKnown (bs_reg s) name \<and> stream \<noteq> None)
    \<and> (bs_ins s' \<noteq> bs_ins s \<longrightarrow> e = UsageIngest \<and> code = 200)
    \<and> (\<forall>d. \<not> bearerOK sha tokens (ar_Authorization rq) d \<longrightarrow>
         contentsAt (bs_ins s') d = contentsAt (bs_ins s) d \<and> limitsAt (bs_ins s') d = limitsAt (bs_ins s) d)"
proof (cases e)
  case LeaderStream
  obtain r' opened where o: "openLeaderStream (bs_reg s) name (ar_Method rq = ''HEAD'') = (r', opened)"
    by (cases "openLeaderStream (bs_reg s) name (ar_Method rq = ''HEAD'')")
  show ?thesis
    using openLeaderStream_effect [OF o] assms by (auto simp: runEndpoint_def LeaderStream o split: streamStart.splits)
next
  case UsageIngest
  obtain i' code reply where i: "handleUsageIngest sha clock iter tokens (ar_Authorization rq) (ar_Body rq) (bs_ins s)
      = Some (i', code, reply)" "ins_inv i'"
    "i' = bs_ins s \<and> code \<noteq> 200 \<or> code = 200 \<and> (\<exists>n. bearerOK sha tokens (ar_Authorization rq) n
      \<and> (\<forall>m. m \<noteq> n \<longrightarrow> contentsAt i' m = contentsAt (bs_ins s) m \<and> limitsAt i' m = limitsAt (bs_ins s) m))"
    using ingest_spec [OF assms, of sha clock iter tokens "ar_Authorization rq" "ar_Body rq"] by blast
  have "\<forall>d. \<not> bearerOK sha tokens (ar_Authorization rq) d \<longrightarrow>
      contentsAt i' d = contentsAt (bs_ins s) d \<and> limitsAt i' d = limitsAt (bs_ins s) d"
    using i(3) by metis
  then show ?thesis using i by (auto simp: runEndpoint_def UsageIngest sameLeaders_def)
next
  case Healthz
  then show ?thesis using assms by (simp add: runEndpoint_def healthz_def sameLeaders_def)
next
  case Readyz
  then show ?thesis using assms by (cases "readyz (bs_reg s)") (simp add: runEndpoint_def sameLeaders_def)
next
  case GetLeader
  then show ?thesis using assms by (cases "handleGetLeader (bs_reg s) name") (simp add: runEndpoint_def sameLeaders_def)
next
  case UsageQuery
  then show ?thesis
    using assms
    by (cases "handleUsageQuery sha go now tokens (ar_Authorization rq) (ar_Query rq) (bs_ins s)")
      (simp add: runEndpoint_def sameLeaders_def)
qed

lemma muxCalls_sends:
  "(\<forall>e n. res \<noteq> ToHandler e n) \<Longrightarrow> \<exists>code. sends code (muxCalls moved res)"
  by (cases res) auto

text \<open>
  C14: what a request to bigbrain can do. No request panics; nobody can change a leader over HTTP;
  only \<open>POST\<close> requests that were answered with 200 change the usage data, and only of
  deployments whose token they carry; only \<open>GET\<close> requests for the stream of a registered
  deployment take a subscription. The log line has the status the client got, and is written at
  the level of information exactly for errors.
\<close>

theorem api_effects:
  assumes "ins_inv (bs_ins s)"
  shows "\<exists>out. serveApi moved sha clock iter go now tokens rq s = Some out
    \<and> ins_inv (bs_ins (sv_State out))
    \<and> (\<forall>n. Leader (bs_reg (sv_State out)) n = Leader (bs_reg s) n
         \<and> Published (bs_reg (sv_State out)) n = Published (bs_reg s) n)
    \<and> (bs_reg (sv_State out) \<noteq> bs_reg s \<longrightarrow> ar_Method rq = ''GET'' \<and> sv_Stream out \<noteq> None
         \<and> (\<exists>n. isKnown (bs_reg s) n \<and> serveMux (ar_Method rq) (ar_Path rq) = ToHandler LeaderStream n))
    \<and> (bs_ins (sv_State out) \<noteq> bs_ins s \<longrightarrow> ar_Method rq = ''POST'' \<and> hr_Status (sv_Response out) = Some 200)
    \<and> (\<forall>d. \<not> bearerOK sha tokens (ar_Authorization rq) d \<longrightarrow>
         contentsAt (bs_ins (sv_State out)) d = contentsAt (bs_ins s) d
         \<and> limitsAt (bs_ins (sv_State out)) d = limitsAt (bs_ins s) d)
    \<and> (\<exists>level code. sv_Log out = (level, ar_Method rq, code) \<and> hr_Status (sv_Response out) = Some code
         \<and> (level = LevelInfo \<longleftrightarrow> 400 \<le> code))"
proof -
  let ?res = "serveMux (ar_Method rq) (ar_Path rq)"
  have leaders: "Leader r' n = Leader r n \<and> Published r' n = Published r n" if "sameLeaders r r'" for r r' n
    using that by (simp add: sameLeaders_def Leader_def Published_def cong: option.case_cong)
  show ?thesis
  proof (cases "\<exists>e n. ?res = ToHandler e n")
    case True
    then obtain e n where res: "?res = ToHandler e n" by blast
    obtain s' calls stream code where run: "runEndpoint sha clock iter go now tokens e n rq s = Some (s', calls, stream)"
      "sends code calls" "ins_inv (bs_ins s')" "sameLeaders (bs_reg s) (bs_reg s')"
      "bs_reg s' \<noteq> bs_reg s \<longrightarrow> e = LeaderStream \<and> ar_Method rq \<noteq> ''HEAD'' \<and> isKnown (bs_reg s) n \<and> stream \<noteq> None"
      "bs_ins s' \<noteq> bs_ins s \<longrightarrow> e = UsageIngest \<and> code = 200"
      "\<forall>d. \<not> bearerOK sha tokens (ar_Authorization rq) d \<longrightarrow>
         contentsAt (bs_ins s') d = contentsAt (bs_ins s) d \<and> limitsAt (bs_ins s') d = limitsAt (bs_ins s) d"
      using runEndpoint_effect [OF assms] by blast
    show ?thesis
      using run res sends_sent [OF run(2)] serveMux_method [OF res] leaders [OF run(4)]
      by (auto simp: serveApi_def Let_def)
  next
    case False
    then obtain code where "sends code (muxCalls moved ?res)" using muxCalls_sends by blast
    then show ?thesis
      using False sends_sent [of code "muxCalls moved ?res"] assms
      by (auto simp: serveApi_def Let_def split: muxResult.splits)
  qed
qed

section \<open>Polls of the router\<close>

text \<open>
  The network between usher and bigbrain, when it works: a URL that continues the configured one
  (without trailing slashes) is a \<open>GET\<close> for the rest.
\<close>

definition bigbrainGet ::
  "int \<Rightarrow> (string \<Rightarrow> 'h) \<Rightarrow> (nat \<Rightarrow> instant) \<Rightarrow> (AnyEvent \<Rightarrow> AnyEvent) \<Rightarrow> choices \<Rightarrow> instant
    \<Rightarrow> (string, string) gomap \<Rightarrow> bigbrain \<Rightarrow> string \<Rightarrow> string \<Rightarrow> unit + int \<times> string" where
  "bigbrainGet moved sha clock iter go now tokens s base u =
     (if HasPrefix u base
      then (case serveApi moved sha clock iter go now tokens
                   \<lparr>ar_Method = ''GET'', ar_Path = drop (length base) u, ar_Query = [], ar_Authorization = '''',
                    ar_Body = ('''', True)\<rparr> s of
              None \<Rightarrow> Inl ()
            | Some out \<Rightarrow>
                (case hr_Status (sv_Response out) of
                   None \<Rightarrow> Inl ()
                 | Some code \<Rightarrow> Inr (code, hr_Body (sv_Response out))))
      else Inl ())"

lemma bigbrainGet_leader:
  assumes "labelValue n" and "handleGetLeader (bs_reg s) n = (code, p)"
  shows "bigbrainGet moved sha clock iter go now tokens s base (base @ deploymentPath n ''leader'') = Inr (code, replyBody p)"
proof -
  have "plainSegment ''leader''" by code_simp
  then have "serveMux ''GET'' (deploymentPath n ''leader'') = ToHandler GetLeader n"
    using deployment_route [OF assms(1)] by simp
  then show ?thesis
    by (simp add: bigbrainGet_def serveApi_def runEndpoint_def assms(2) writePayload_response Let_def)
qed

text \<open>
  C17: polling works through the real interface. Whatever deployment name usher's validation
  accepts and however bigbrain's URL ends, the request of a poll is routed to the leader handler
  of this very deployment, and the stream request to its stream; the poll then makes the router
  agree with the registry, also after a restart of bigbrain (another epoch), and leaves the
  tracker alone while the deployment is not published.
\<close>

theorem router_polls_bigbrain:
  assumes "registry_reachable (bs_reg s)" and "MatchString labelValueRe (t_name t)"
    and "length (replyBody (snd (handleGetLeader (bs_reg s) (t_name t)))) \<le> bodyReadLimit"
    and "ev = fst (Leader (bs_reg s) (t_name t))" and "validEvent ev" and "usableURL parse (LeaderURL ev)"
    and "tracker_inv parse t" and "Seq ev \<noteq> 0" and "lastEpoch t \<noteq> epoch (bs_reg s) \<or> lastAppliedSeq t < Seq ev"
  shows "(let base = trimRight (CHR ''/'') (bigbrainURL t);
              t' = resolveOnce parse (bigbrainGet moved sha clock iter go now tokens s base) decodeLeaderBody t canceled in
      (\<exists>p. streamURLof t = base @ p \<and> serveMux ''GET'' p = ToHandler LeaderStream (t_name t))
      \<and> (if Published (bs_reg s) (t_name t)
         then curURL t' = LeaderURL ev \<and> lastEpoch t' = epoch (bs_reg s) \<and> lastAppliedSeq t' = Seq ev \<and> resolved t'
           \<and> currentLeader t' False = parsedURL parse (LeaderURL ev)
         else curURL t' = curURL t \<and> resolved t' = resolved t \<and> currentLeader t' False = currentLeader t False))"
proof -
  let ?base = "trimRight (CHR ''/'') (bigbrainURL t)"
  let ?http = "bigbrainGet moved sha clock iter go now tokens s ?base"
  have n: "labelValue (t_name t)" using assms(2) by (simp add: labelValueRe_iff)
  obtain code p where h: "handleGetLeader (bs_reg s) (t_name t) = (code, p)" by (cases "handleGetLeader (bs_reg s) (t_name t)")
  have "leaderURLof t = ?base @ deploymentPath (t_name t) ''leader''"
    by (simp add: leaderURLof_def deploymentPath_def)
  then have "?http (leaderURLof t) = Inr (code, replyBody p)" using bigbrainGet_leader [OF n h] by simp
  note poll = poll_adopts_leader [where http = ?http, OF assms(1) h this _ assms(4-9), of canceled]
  have "streamURLof t = ?base @ deploymentPath (t_name t) ''leader-stream''"
    by (simp add: streamURLof_def deploymentPath_def)
  moreover have "plainSegment ''leader-stream''" by code_simp
  then have "serveMux ''GET'' (deploymentPath (t_name t) ''leader-stream'') = ToHandler LeaderStream (t_name t)"
    using deployment_route [OF n] by simp
  ultimately show ?thesis using poll assms(3) h unfolding Let_def by auto
qed

definition sampleBigbrain :: bigbrain where
  "sampleBigbrain = \<lparr>bs_reg = sampleUpdated, bs_ins = NewInsights 1\<rparr>"

theorem router_polls_bigbrain_witness:
  "curURL (resolveOnce sampleParse (bigbrainGet 301 (\<lambda>s. s) (\<lambda>_. 0) (\<lambda>e. e) sampleGo 0 [] sampleBigbrain
      (trimRight (CHR ''/'') (bigbrainURL sampleTracker))) decodeLeaderBody sampleTracker False) = ''http://a:3210''"
proof -
  have c: "MatchString labelValueRe (t_name sampleTracker)" "t_name sampleTracker = ''dev''"
    "validEvent (fst (Leader sampleUpdated ''dev''))" "Seq (fst (Leader sampleUpdated ''dev'')) \<noteq> 0"
    "usableURL sampleParse (LeaderURL (fst (Leader sampleUpdated ''dev'')))" "Published sampleUpdated ''dev''"
    "LeaderURL (fst (Leader sampleUpdated ''dev'')) = ''http://a:3210''"
    "length (replyBody (snd (handleGetLeader sampleUpdated ''dev''))) \<le> 150"
    "lastEpoch sampleTracker \<noteq> epoch sampleUpdated"
    by code_simp+
  have "tracker_inv sampleParse sampleTracker" unfolding sampleTracker_def by simp
  then show ?thesis
    using router_polls_bigbrain [of sampleBigbrain sampleTracker "fst (Leader sampleUpdated ''dev'')" sampleParse
        301 "\<lambda>s. s" "\<lambda>_. 0" "\<lambda>e. e" sampleGo 0 "[]" False] c sample_reachable(3)
    by (simp add: sampleBigbrain_def bodyReadLimit_def Let_def)
qed

definition sampleApiRequest :: "string \<Rightarrow> string \<Rightarrow> apiRequest" where
  "sampleApiRequest meth path =
     \<lparr>ar_Method = meth, ar_Path = path, ar_Query = [], ar_Authorization = '''', ar_Body = ('''', True)\<rparr>"

theorem api_effects_witness:
  "\<exists>out. serveApi 301 (\<lambda>s. s) (\<lambda>_. 0) (\<lambda>e. e) sampleGo 0 [] (sampleApiRequest ''GET'' ''/internal/usage'') sampleBigbrain
      = Some out \<and> sv_Log out = (LevelInfo, ''GET'', 405) \<and> sv_State out = sampleBigbrain"
proof -
  have inv: "ins_inv (bs_ins sampleBigbrain)" by (simp add: sampleBigbrain_def ins_inv_new)
  have m: "serveMux ''GET'' ''/internal/usage'' = NotAllowed [''POST'']" by code_simp
  obtain out where out: "serveApi 301 (\<lambda>s. s) (\<lambda>_. 0) (\<lambda>e. e) sampleGo 0 [] (sampleApiRequest ''GET'' ''/internal/usage'')
      sampleBigbrain = Some out" "bs_reg (sv_State out) = bs_reg sampleBigbrain" "bs_ins (sv_State out) = bs_ins sampleBigbrain"
    using api_effects [OF inv, of 301 "\<lambda>s. s" "\<lambda>_. 0" "\<lambda>e. e" sampleGo 0 "[]"
        "sampleApiRequest ''GET'' ''/internal/usage''"] m
    by (auto simp: sampleApiRequest_def)
  moreover have "sv_Log out = (LevelInfo, ''GET'', 405)"
    using out(1) by (auto simp: serveApi_def sampleApiRequest_def m newStatusWriter_def)
  ultimately show ?thesis by (auto intro: bigbrain.equality)
qed

end
