(* ===== verification/Metrics.thy ===== *)
theory Metrics
  imports K8sClient Tracker JsonDecode
begin

text \<open>
  The custom-metrics component of bigbrain (\<open>apiserver/scraper.go\<close>, \<open>apiserver/provider.go\<close>): each
  round lists the function-runner pods, reads two gauges of every ready one, and replaces the
  cache the metrics API is answered from.

  Inputs: \<open>list\<close> (the API server: pods of a namespace, or an error), \<open>fetch\<close> (an HTTP GET: no
  answer, or status, body and whether the body ended properly), \<open>hex\<close> (\<open>strconv.ParseFloat\<close> on
  hexadecimal literals), the clock. Pods are scraped concurrently and stored under the cache's
  key under a mutex; the keys of different pods differ, so the order does not matter. A label
  selector is the Kubernetes library's, here the predicate it stands for.
\<close>

section \<open>Floating point\<close>

text \<open>A float64 with its special values (the sign of zero is not kept).\<close>

datatype f64 = Fin rat | Inf bool | NaN

definition finF :: "rat \<Rightarrow> f64" where
  "finF x = (if \<bar>x\<bar> < 2 ^ 1024 then Fin x else Inf (x < 0))"

fun negative :: "f64 \<Rightarrow> bool" where
  "negative (Fin x) = (x < 0)"
| "negative (Inf s) = s"
| "negative NaN = False"

fun mulF :: "f64 \<Rightarrow> f64 \<Rightarrow> f64" where
  "mulF (Fin x) (Fin y) = finF (fmul x y)"
| "mulF NaN y = NaN"
| "mulF x NaN = NaN"
| "mulF x y = (if x = Fin 0 \<or> y = Fin 0 then NaN else Inf (negative x \<noteq> negative y))"

fun divF :: "f64 \<Rightarrow> f64 \<Rightarrow> f64" where
  "divF (Fin x) (Fin y) =
     (if y = 0 then (if x = 0 then NaN else Inf (x < 0)) else finF (fdiv x y))"
| "divF NaN y = NaN"
| "divF x NaN = NaN"
| "divF (Fin x) (Inf s) = Fin 0"
| "divF (Inf s) (Fin y) = Inf (s \<noteq> (y < 0))"
| "divF (Inf s) (Inf t) = NaN"

text \<open>The conversion of a special value to an integer is the one of amd64.\<close>

fun toInt64 :: "f64 \<Rightarrow> int" where
  "toInt64 (Fin x) = truncInt64 x"
| "toInt64 (Inf s) = min_int64"
| "toInt64 NaN = min_int64"

text \<open>\<open>strconv.ParseFloat\<close>: decimal literals, infinities and NaN; an overflow is an error.\<close>

definition readExponent :: "string \<Rightarrow> int option" where
  "readExponent s =
     (case s of
        [] \<Rightarrow> Some 0
      | c # r \<Rightarrow>
          if c = CHR ''e'' \<or> c = CHR ''E''
          then (case splitSign r of (neg, ds) \<Rightarrow> map_option (\<lambda>n. if neg then - int n else int n) (parseNat ds))
          else None)"

definition plainDecimal :: "string \<Rightarrow> rat option" where
  "plainDecimal s =
     (case splitSign s of (neg, s1) \<Rightarrow>
        (let i = takeWhile isDigit s1; r1 = drop (length i) s1;
             f = (if r1 \<noteq> [] \<and> hd r1 = CHR ''.'' then takeWhile isDigit (tl r1) else []);
             r2 = (if r1 \<noteq> [] \<and> hd r1 = CHR ''.'' then drop (length f) (tl r1) else r1)
         in if i @ f = [] then None
            else map_option
              (\<lambda>x. (if neg then - 1 else 1) * (of_nat (digitsVal 0 (i @ f)) * 10 powi (x - int (length f))))
              (readExponent r2)))"

text \<open>An underscore may stand between two digits.\<close>

fun underscoreOK :: "bool \<Rightarrow> string \<Rightarrow> bool" where
  "underscoreOK digit [] = True"
| "underscoreOK digit (c # s) =
     (if c = CHR ''_'' then digit \<and> s \<noteq> [] \<and> isDigit (hd s) \<and> underscoreOK False s
      else underscoreOK (isDigit c) s)"

definition readDecimal :: "string \<Rightarrow> rat option" where
  "readDecimal s = (if underscoreOK False s then plainDecimal (filter (\<lambda>c. c \<noteq> CHR ''_'') s) else None)"

definition parseFloat64 :: "(string \<Rightarrow> f64 option) \<Rightarrow> string \<Rightarrow> f64 option" where
  "parseFloat64 hex s =
     (case splitSign s of (neg, s1) \<Rightarrow>
        (let low = map lowerASCII s1 in
         if low = ''inf'' \<or> low = ''infinity'' then Some (Inf neg)
         else if map lowerASCII s = ''nan'' then Some NaN
         else if HasPrefix low ''0x'' then hex s
         else (case readDecimal s of
                 None \<Rightarrow> None
               | Some q \<Rightarrow> (let x = roundF64 q in if \<bar>x\<bar> < 2 ^ 1024 then Some (Fin x) else None))))"

section \<open>Fields of a line\<close>

fun takeWord :: "string \<Rightarrow> string \<times> string" where
  "takeWord [] = ([], [])"
| "takeWord (c # r) =
     (if stripOne whiteSpace (c # r) \<noteq> None then ([], c # r)
      else (case takeWord r of (w, rest) \<Rightarrow> (c # w, rest)))"

lemma takeWord_split: "takeWord s = (w, r) \<Longrightarrow> s = w @ r"
  by (induction s arbitrary: w) (auto split: if_splits prod.splits)

lemma stripAll_le: "length (stripAll ws s) \<le> length s"
proof (induction ws s rule: stripAll.induct)
  case (1 ws s)
  show ?case
  proof (cases "stripOne ws s")
    case None
    then show ?thesis by (simp add: stripAll.simps [of ws s])
  next
    case (Some t)
    then have "length (stripAll ws t) \<le> length t" by (rule 1)
    then show ?thesis using stripOne_shorter [OF Some] Some by (simp add: stripAll.simps [of ws s])
  qed
qed

lemma takeWord_shorter:
  assumes "stripAll whiteSpace s \<noteq> []" "takeWord (stripAll whiteSpace s) = (w, r)"
  shows "length r < length s"
proof -
  obtain c t where t: "stripAll whiteSpace s = c # t" using assms(1) by (cases "stripAll whiteSpace s") auto
  then have "stripOne whiteSpace (c # t) = None" using stripAll_done [of whiteSpace s] by simp
  then have "w \<noteq> []" using assms(2) t by (auto split: prod.splits)
  then have "length r < length (stripAll whiteSpace s)" using takeWord_split [OF assms(2)] by simp
  then show ?thesis using stripAll_le [of whiteSpace s] by simp
qed

function Fields :: "string \<Rightarrow> string list" where
  "Fields s =
     (if stripAll whiteSpace s = [] then []
      else fst (takeWord (stripAll whiteSpace s)) # Fields (snd (takeWord (stripAll whiteSpace s))))"
  by pat_completeness auto
termination
  by (relation "measure length") (auto intro: takeWord_shorter simp: prod_eq_iff)

declare Fields.simps [simp del]

section \<open>Reading the gauges\<close>

definition isolateGaugePrefix :: string where "isolateGaugePrefix = ''convex_funrun_isolate_''"
definition busyGauge :: string where "busyGauge = isolateGaugePrefix @ ''busy_threads''"
definition totalGauge :: string where "totalGauge = isolateGaugePrefix @ ''total_threads''"
definition scrapeBufferMax :: nat where "scrapeBufferMax = 1048576"
definition funrunHealthPort :: int where "funrunHealthPort = 8091"
definition healthPortName :: string where "healthPortName = ''health''"

definition cutMetricLine :: "string \<Rightarrow> (string \<times> string) option" where
  "cutMetricLine line =
     (case Fields line of
        name # val # _ \<Rightarrow> Some (takeWhile (\<lambda>c. c \<noteq> CHR ''{'') name, val)
      | _ \<Rightarrow> None)"

record gauges =
  g_busy :: "f64 option"
  g_total :: "f64 option"

definition gaugeLine :: "(string \<Rightarrow> f64 option) \<Rightarrow> gauges \<Rightarrow> string \<Rightarrow> gauges" where
  "gaugeLine hex g line =
     (if \<not> HasPrefix line isolateGaugePrefix then g
      else (case cutMetricLine line of
              None \<Rightarrow> g
            | Some (name, val) \<Rightarrow>
                if name = busyGauge
                then (case parseFloat64 hex val of None \<Rightarrow> g | Some v \<Rightarrow> g\<lparr>g_busy := Some v\<rparr>)
                else if name = totalGauge
                then (case parseFloat64 hex val of None \<Rightarrow> g | Some v \<Rightarrow> g\<lparr>g_total := Some v\<rparr>)
                else g))"

text \<open>A line that does not fit the buffer and a broken body are errors of the scanner.\<close>

definition parsePromGauges :: "(string \<Rightarrow> f64 option) \<Rightarrow> string \<Rightarrow> bool \<Rightarrow> (f64 \<times> f64) option" where
  "parsePromGauges hex body ended =
     (let ls = splitLines [] body in
      if list_ex (\<lambda>l. \<not> length l < scrapeBufferMax) ls \<or> \<not> ended then None
      else (case foldl (gaugeLine hex) \<lparr>g_busy = None, g_total = None\<rparr> (map dropCR ls) of
              g \<Rightarrow> (case (g_busy g, g_total g) of (Some b, Some t) \<Rightarrow> Some (b, t) | _ \<Rightarrow> None)))"

fun portIn :: "containerPort list \<Rightarrow> int option" where
  "portIn [] = None"
| "portIn (p # ps) = (if port_Name p = healthPortName then Some (ContainerPort p) else portIn ps)"

fun portOf :: "containerPort list list \<Rightarrow> int" where
  "portOf [] = funrunHealthPort"
| "portOf (ps # pss) = (case portIn ps of Some p \<Rightarrow> p | None \<Rightarrow> portOf pss)"

definition healthPort :: "pod \<Rightarrow> int" where "healthPort p = portOf (Containers p)"

definition scrapePod ::
  "(string \<Rightarrow> f64 option) \<Rightarrow> (string \<Rightarrow> (int \<times> string \<times> bool) option) \<Rightarrow> string \<Rightarrow> int \<Rightarrow> (f64 \<times> f64) option" where
  "scrapePod hex fetch ip port =
     (case fetch (''http://'' @ joinHostPort ip (FormatInt port) @ ''/metrics'') of
        None \<Rightarrow> None
      | Some (status, body, ended) \<Rightarrow> if status \<noteq> 200 then None else parsePromGauges hex body ended)"

section \<open>Samples\<close>

type_synonym podKey = "string \<times> string"

record podSample =
  ps_labels :: "(string, string) gomap"
  ps_value :: int
  ps_ts :: instant

definition milliPercent :: "f64 \<Rightarrow> int" where
  "milliPercent pct = toInt64 (mulF pct (Fin 1000))"

definition eligible :: "pod \<Rightarrow> bool" where
  "eligible p = (DeletionTimestamp p = None \<and> PodIP p \<noteq> '''' \<and> PodReady p)"

definition podKeyOf :: "pod \<Rightarrow> podKey" where "podKeyOf p = (pod_Namespace p, pod_Name p)"

definition podSampleOf ::
  "(string \<Rightarrow> f64 option) \<Rightarrow> (string \<Rightarrow> (int \<times> string \<times> bool) option) \<Rightarrow> instant \<Rightarrow> pod \<Rightarrow> podSample option" where
  "podSampleOf hex fetch now p =
     (case scrapePod hex fetch (PodIP p) (healthPort p) of
        None \<Rightarrow> None
      | Some (busy, tot) \<Rightarrow>
          if tot = Fin 0 then None
          else Some \<lparr>ps_labels = Labels p, ps_value = milliPercent (divF (mulF (Fin 100) busy) tot), ps_ts = now\<rparr>)"

fun collectSamples ::
  "(string \<Rightarrow> f64 option) \<Rightarrow> (string \<Rightarrow> (int \<times> string \<times> bool) option) \<Rightarrow> instant \<Rightarrow> pod list
    \<Rightarrow> (podKey, podSample) gomap \<Rightarrow> (podKey, podSample) gomap" where
  "collectSamples hex fetch now [] out = out"
| "collectSamples hex fetch now (p # ps) out =
     (if \<not> eligible p then collectSamples hex fetch now ps out
      else (case podSampleOf hex fetch now p of
              None \<Rightarrow> collectSamples hex fetch now ps out
            | Some s \<Rightarrow> collectSamples hex fetch now ps (AList.update (podKeyOf p) s out)))"

definition funrunSelector :: string where "funrunSelector = LabelComponent @ ''=funrun''"

definition scrapeNamespace ::
  "(string \<Rightarrow> string \<Rightarrow> 'e + pod list) \<Rightarrow> (string \<Rightarrow> f64 option) \<Rightarrow> (string \<Rightarrow> (int \<times> string \<times> bool) option)
    \<Rightarrow> (string \<Rightarrow> instant) \<Rightarrow> string \<Rightarrow> (podKey, podSample) gomap" where
  "scrapeNamespace list hex fetch clock ns =
     (case list ns funrunSelector of
        Inl _ \<Rightarrow> []
      | Inr items \<Rightarrow> collectSamples hex fetch (clock ns) items [])"

text \<open>\<open>maps.Copy\<close>, and the provider's cache after a round.\<close>

definition copyInto :: "('k, 'v) gomap \<Rightarrow> ('k, 'v) gomap \<Rightarrow> ('k, 'v) gomap" where
  "copyInto m src = foldl (\<lambda>m (k, v). AList.update k v m) m src"

record FunrunProvider =
  cache :: "(podKey, podSample) gomap"

definition NewProvider :: FunrunProvider where "NewProvider = \<lparr>cache = []\<rparr>"

definition replaceCache :: "(podKey, podSample) gomap \<Rightarrow> FunrunProvider \<Rightarrow> FunrunProvider" where
  [simp]: "replaceCache fresh p = p\<lparr>cache := fresh\<rparr>"

definition scrapeAll ::
  "(string \<Rightarrow> string \<Rightarrow> 'e + pod list) \<Rightarrow> (string \<Rightarrow> f64 option) \<Rightarrow> (string \<Rightarrow> (int \<times> string \<times> bool) option)
    \<Rightarrow> (string \<Rightarrow> instant) \<Rightarrow> string list \<Rightarrow> FunrunProvider \<Rightarrow> FunrunProvider" where
  "scrapeAll list hex fetch clock namespaces p =
     replaceCache (foldl (\<lambda>fresh ns. copyInto fresh (scrapeNamespace list hex fetch clock ns)) [] namespaces) p"

section \<open>Answering the metrics API\<close>

definition MetricName :: string where "MetricName = ''funrun_isolate_utilization''"

record metricInfo =
  mi_Group :: string
  mi_Resource :: string
  mi_Metric :: string

record metricValue =
  mv_Namespace :: string
  mv_Name :: string
  mv_Timestamp :: instant
  mv_MilliValue :: int

datatype metricError =
    MetricNotFound
  | MetricNotFoundForSelector string
  | MetricNotFoundFor string

definition knownMetric :: "metricInfo \<Rightarrow> bool" where
  "knownMetric i = (mi_Metric i = MetricName \<and> mi_Group i = '''' \<and> mi_Resource i = ''pods'')"

type_synonym selector = "(string, string) gomap \<Rightarrow> bool"

definition matchesUnlabeledMetric :: "selector \<Rightarrow> bool" where
  "matchesUnlabeledMetric sel = sel []"

definition metricFor :: "podKey \<Rightarrow> podSample \<Rightarrow> metricValue" where
  "metricFor k s = \<lparr>mv_Namespace = fst k, mv_Name = snd k, mv_Timestamp = ps_ts s, mv_MilliValue = ps_value s\<rparr>"

definition GetMetricByName ::
  "FunrunProvider \<Rightarrow> podKey \<Rightarrow> metricInfo \<Rightarrow> selector \<Rightarrow> metricError + metricValue" where
  "GetMetricByName p name info metricSel =
     (if \<not> knownMetric info then Inl MetricNotFound
      else if \<not> matchesUnlabeledMetric metricSel then Inl (MetricNotFoundForSelector (snd name))
      else (case map_of (cache p) name of
              None \<Rightarrow> Inl (MetricNotFoundFor (snd name))
            | Some s \<Rightarrow> Inr (metricFor name s)))"

text \<open>A nil or empty selector (\<open>None\<close>) selects every pod.\<close>

definition GetMetricBySelector ::
  "FunrunProvider \<Rightarrow> string \<Rightarrow> selector option \<Rightarrow> metricInfo \<Rightarrow> selector \<Rightarrow> metricError + metricValue list" where
  "GetMetricBySelector p ns sel info metricSel =
     (if \<not> knownMetric info then Inl MetricNotFound
      else if \<not> matchesUnlabeledMetric metricSel then Inr []
      else Inr (map (\<lambda>(k, s). metricFor k s)
             (filter (\<lambda>(k, s). fst k = ns \<and> (case sel of None \<Rightarrow> True | Some f \<Rightarrow> f (ps_labels s))) (cache p))))"

definition ListAllMetrics :: "metricInfo list" where
  "ListAllMetrics = [\<lparr>mi_Group = '''', mi_Resource = ''pods'', mi_Metric = MetricName\<rparr>]"

section \<open>The cache is the last round\<close>

lemma collectSamples_gwf: "gwf out \<Longrightarrow> gwf (collectSamples hex fetch now ps out)"
  by (induction hex fetch now ps out rule: collectSamples.induct) (auto split: option.splits intro: distinct_update)

lemma collectSamples_iff:
  "distinct (map podKeyOf ps) \<Longrightarrow>
     map_of (collectSamples hex fetch now ps out) k = Some s \<longleftrightarrow>
       (\<exists>p \<in> set ps. podKeyOf p = k \<and> eligible p \<and> podSampleOf hex fetch now p = Some s)
       \<or> map_of out k = Some s \<and> \<not> (\<exists>p \<in> set ps. podKeyOf p = k \<and> eligible p \<and> podSampleOf hex fetch now p \<noteq> None)"
proof (induction ps arbitrary: out)
  case (Cons p ps)
  show ?case
  proof (cases "eligible p \<and> podSampleOf hex fetch now p \<noteq> None")
    case False
    then have "collectSamples hex fetch now (p # ps) out = collectSamples hex fetch now ps out" by auto
    then show ?thesis using Cons False by auto
  next
    case True
    then obtain t where t: "podSampleOf hex fetch now p = Some t" "eligible p" by auto
    then have "collectSamples hex fetch now (p # ps) out
        = collectSamples hex fetch now ps (AList.update (podKeyOf p) t out)" by simp
    moreover have "podKeyOf p \<notin> podKeyOf ` set ps" using Cons.prems by simp
    then have "podKeyOf q \<noteq> podKeyOf p" if "q \<in> set ps" for q using that by (metis imageI)
    ultimately show ?thesis using Cons t by (cases "podKeyOf p = k") (auto simp: update_conv)
  qed
qed simp

lemma copyInto_conv:
  "gwf src \<Longrightarrow> map_of (copyInto m src) k = (case map_of src k of Some v \<Rightarrow> Some v | None \<Rightarrow> map_of m k)"
proof (induction src arbitrary: m)
  case (Cons kv src)
  obtain j v where kv: "kv = (j, v)" by (cases kv)
  have "map_of (copyInto m (kv # src)) k = map_of (copyInto (AList.update j v m) src) k"
    by (simp add: copyInto_def kv)
  also have "\<dots> = (case map_of src k of Some v \<Rightarrow> Some v | None \<Rightarrow> map_of (AList.update j v m) k)"
    using Cons by simp
  finally have r: "map_of (copyInto m (kv # src)) k
      = (case map_of src k of Some v \<Rightarrow> Some v | None \<Rightarrow> map_of (AList.update j v m) k)" .
  show ?case
  proof (cases "k = j")
    case True
    then have "map_of src k = None" using Cons.prems kv by (simp add: map_of_eq_None_iff)
    then show ?thesis using r True kv by (simp add: update_conv)
  next
    case False
    then show ?thesis using r kv by (auto simp: update_conv split: option.split)
  qed
qed (simp add: copyInto_def)

lemma copyInto_gwf: "gwf m \<Longrightarrow> gwf (copyInto m src)"
  by (induction src arbitrary: m) (auto simp: copyInto_def intro: distinct_update)

text \<open>The API server lists the pods of the namespace it is asked for, each once.\<close>

definition listing_ok :: "(string \<Rightarrow> string \<Rightarrow> 'e + pod list) \<Rightarrow> bool" where
  "listing_ok list = (\<forall>ns items. list ns funrunSelector = Inr items \<longrightarrow>
     distinct (map pod_Name items) \<and> (\<forall>p \<in> set items. pod_Namespace p = ns))"

text \<open>What a round finds out about a pod.\<close>

definition found ::
  "(string \<Rightarrow> string \<Rightarrow> 'e + pod list) \<Rightarrow> (string \<Rightarrow> f64 option) \<Rightarrow> (string \<Rightarrow> (int \<times> string \<times> bool) option)
    \<Rightarrow> (string \<Rightarrow> instant) \<Rightarrow> string list \<Rightarrow> podKey \<Rightarrow> podSample \<Rightarrow> bool" where
  "found list hex fetch clock namespaces k s =
     (fst k \<in> set namespaces \<and> (\<exists>items p. list (fst k) funrunSelector = Inr items \<and> p \<in> set items
        \<and> pod_Name p = snd k \<and> eligible p \<and> podSampleOf hex fetch (clock (fst k)) p = Some s))"

lemma scrapeNamespace_iff:
  assumes "listing_ok list"
  shows "map_of (scrapeNamespace list hex fetch clock ns) k = Some s \<longleftrightarrow> found list hex fetch clock [ns] k s"
proof (cases "list ns funrunSelector")
  case (Inl e)
  then show ?thesis by (auto simp: scrapeNamespace_def found_def)
next
  case (Inr items)
  have i: "distinct (map pod_Name items)" "\<forall>p \<in> set items. pod_Namespace p = ns"
    using assms Inr by (auto simp: listing_ok_def)
  then have "distinct (map podKeyOf items)"
    by (auto simp: distinct_map inj_on_def podKeyOf_def)
  from collectSamples_iff [OF this, of hex fetch "clock ns" "[]" k s] show ?thesis
    using Inr i(2) by (cases k) (auto simp: scrapeNamespace_def found_def podKeyOf_def)
qed

lemma scrapeNamespace_gwf: "gwf (scrapeNamespace list hex fetch clock ns)"
  by (simp add: scrapeNamespace_def collectSamples_gwf split: sum.splits)

lemma rounds_iff:
  assumes "listing_ok list" "gwf m"
  shows "gwf (foldl (\<lambda>fresh ns. copyInto fresh (scrapeNamespace list hex fetch clock ns)) m namespaces)
    \<and> (map_of (foldl (\<lambda>fresh ns. copyInto fresh (scrapeNamespace list hex fetch clock ns)) m namespaces) k = Some s \<longleftrightarrow>
        found list hex fetch clock namespaces k s
        \<or> map_of m k = Some s \<and> \<not> (\<exists>t. found list hex fetch clock namespaces k t))"
  using assms(2)
proof (induction namespaces arbitrary: m)
  case Nil
  then show ?case by (simp add: found_def)
next
  case (Cons ns nss)
  let ?S = "scrapeNamespace list hex fetch clock ns"
  have m: "gwf (copyInto m ?S)" using Cons.prems by (rule copyInto_gwf)
  have S: "map_of ?S k = Some t \<longleftrightarrow> found list hex fetch clock [ns] k t" for t
    by (rule scrapeNamespace_iff [OF assms(1)])
  have f: "found list hex fetch clock (ns # nss) k t \<longleftrightarrow>
      found list hex fetch clock [ns] k t \<or> found list hex fetch clock nss k t" for t
    by (auto simp: found_def)
  have one: "found list hex fetch clock [ns] k t \<Longrightarrow> found list hex fetch clock nss k u \<Longrightarrow>
      found list hex fetch clock [ns] k u" for t u by (auto simp: found_def)
  have same: "found list hex fetch clock [ns] k t \<Longrightarrow> found list hex fetch clock [ns] k u \<Longrightarrow> t = u" for t u
    using S [of t] S [of u] by simp
  have copy: "map_of (copyInto m ?S) k = Some t \<longleftrightarrow> found list hex fetch clock [ns] k t
      \<or> map_of m k = Some t \<and> \<not> (\<exists>u. found list hex fetch clock [ns] k u)" for t
  proof (cases "map_of ?S k")
    case None
    then have "\<not> found list hex fetch clock [ns] k u" for u using S [of u] by simp
    then show ?thesis using None by (simp add: copyInto_conv [OF scrapeNamespace_gwf])
  next
    case (Some v)
    then have "found list hex fetch clock [ns] k u \<longleftrightarrow> v = u" for u using S [of u] by simp
    then show ?thesis using Some by (simp add: copyInto_conv [OF scrapeNamespace_gwf])
  qed
  note IH = Cons.IH [OF m]
  show ?case
  proof (cases "\<exists>t. found list hex fetch clock nss k t")
    case True
    then have "found list hex fetch clock [ns] k s \<Longrightarrow> found list hex fetch clock nss k s" using one same by blast
    then show ?thesis using IH f True by auto
  next
    case False
    then show ?thesis using IH f copy by auto
  qed
qed

lemma cache_iff:
  "listing_ok list \<Longrightarrow>
     gwf (cache (scrapeAll list hex fetch clock namespaces p))
     \<and> (map_of (cache (scrapeAll list hex fetch clock namespaces p)) k = Some s \<longleftrightarrow>
         found list hex fetch clock namespaces k s)"
  using rounds_iff [of list "[]"] by (simp add: scrapeAll_def)

text \<open>
  C32: the metrics API serves exactly the last scraping round. Whatever was cached before, after
  a round a pod of a scraped namespace has a metric if and only if it was listed, alive, ready,
  and answered with both gauges and a non-zero number of threads; by name and by selector the
  same values are served, a selector filtering by the labels the pod had; other metrics and
  labelled metrics are refused or empty.
\<close>

theorem metrics_serve_last_round:
  assumes "listing_ok list" and "p' = scrapeAll list hex fetch clock namespaces p"
  shows "(GetMetricByName p' (ns, name) info msel = Inr v \<longleftrightarrow>
      knownMetric info \<and> msel [] \<and> (\<exists>s. found list hex fetch clock namespaces (ns, name) s \<and> v = metricFor (ns, name) s))
    \<and> (knownMetric info \<and> msel [] \<longrightarrow> (\<exists>vs. GetMetricBySelector p' ns sel info msel = Inr vs \<and>
        (v \<in> set vs \<longleftrightarrow> (\<exists>name' s. found list hex fetch clock namespaces (ns, name') s
            \<and> (case sel of None \<Rightarrow> True | Some f \<Rightarrow> f (ps_labels s)) \<and> v = metricFor (ns, name') s))))
    \<and> (\<not> msel [] \<or> \<not> knownMetric info \<longrightarrow> GetMetricBySelector p' ns sel info msel \<in> {Inl MetricNotFound, Inr []})"
proof -
  have c: "gwf (cache p')" "map_of (cache p') k = Some s \<longleftrightarrow> found list hex fetch clock namespaces k s" for k s
    using cache_iff [OF assms(1)] unfolding assms(2) by blast+
  have e: "found list hex fetch clock namespaces k s \<longleftrightarrow> map_of (cache p') k = Some s" for k s
    using c(2) by simp
  have mem: "(k, s) \<in> set (cache p') \<longleftrightarrow> found list hex fetch clock namespaces k s" for k s
    using c by (metis map_of_SomeD map_of_is_SomeI)
  have "GetMetricByName p' (ns, name) info msel = Inr v \<longleftrightarrow>
      knownMetric info \<and> msel [] \<and> (\<exists>s. found list hex fetch clock namespaces (ns, name) s \<and> v = metricFor (ns, name) s)"
    by (auto simp: GetMetricByName_def matchesUnlabeledMetric_def e split: option.splits)
  moreover have "\<exists>vs. GetMetricBySelector p' ns sel info msel = Inr vs \<and>
      (v \<in> set vs \<longleftrightarrow> (\<exists>name' s. found list hex fetch clock namespaces (ns, name') s
            \<and> (case sel of None \<Rightarrow> True | Some f \<Rightarrow> f (ps_labels s)) \<and> v = metricFor (ns, name') s))"
    if "knownMetric info" "msel []"
    using that mem by (force simp: GetMetricBySelector_def matchesUnlabeledMetric_def)
  ultimately show ?thesis by (auto simp: GetMetricBySelector_def matchesUnlabeledMetric_def)
qed

definition sampleFunrun :: pod where
  "sampleFunrun =
     \<lparr>pod_Name = ''funrun-0'', pod_Namespace = ''ns1'', Labels = [], DeletionTimestamp = None, PodIP = ''10.0.0.7'',
      Phase = PodRunning, ContainerStatuses = [], Conditions = [\<lparr>cond_Type = ''Ready'', cond_Status = ConditionTrue\<rparr>],
      Containers = [[\<lparr>port_Name = ''health'', ContainerPort = 8091\<rparr>]]\<rparr>"

definition sampleList :: "string \<Rightarrow> string \<Rightarrow> string + pod list" where
  "sampleList ns sel = (if ns = ''ns1'' then Inr [sampleFunrun] else Inl ''forbidden'')"

definition sampleBody :: string where
  "sampleBody = ''convex_funrun_isolate_busy_threads{pod=1} 3'' @ [CHR 0x0A] @ ''convex_funrun_isolate_total_threads 4'' @ [CHR 0x0A]"

definition sampleFetch :: "string \<Rightarrow> (int \<times> string \<times> bool) option" where
  "sampleFetch u = (if u = ''http://10.0.0.7:8091/metrics'' then Some (200, sampleBody, True) else None)"

lemma sample_round:
  "podSampleOf (\<lambda>_. None) sampleFetch 5 sampleFunrun = Some \<lparr>ps_labels = [], ps_value = 75000, ps_ts = 5\<rparr>"
proof -
  have g: "cutMetricLine ''convex_funrun_isolate_busy_threads{pod=1} 3'' = Some (busyGauge, ''3'')"
    "cutMetricLine ''convex_funrun_isolate_total_threads 4'' = Some (totalGauge, ''4'')"
    "HasPrefix ''convex_funrun_isolate_busy_threads{pod=1} 3'' isolateGaugePrefix"
    "HasPrefix ''convex_funrun_isolate_total_threads 4'' isolateGaugePrefix"
    "busyGauge \<noteq> totalGauge"
    "splitLines [] sampleBody
       = [''convex_funrun_isolate_busy_threads{pod=1} 3'', ''convex_funrun_isolate_total_threads 4'']"
    "map dropCR [''convex_funrun_isolate_busy_threads{pod=1} 3'', ''convex_funrun_isolate_total_threads 4'']
       = [''convex_funrun_isolate_busy_threads{pod=1} 3'', ''convex_funrun_isolate_total_threads 4'']"
    by code_simp+
  have v: "parseFloat64 (\<lambda>_. None) ''3'' = Some (Fin 3)" "parseFloat64 (\<lambda>_. None) ''4'' = Some (Fin 4)"
    using roundF64_int [of 3] roundF64_int [of 4]
    by (simp_all add: parseFloat64_def splitSign_def lowerASCII_def readDecimal_def plainDecimal_def readExponent_def isDigit_def
        digitsVal_def digitVal_def)
  have p: "parsePromGauges (\<lambda>_. None) sampleBody True = Some (Fin 3, Fin 4)"
    using g v by (simp add: parsePromGauges_def gaugeLine_def scrapeBufferMax_def)
  have m: "milliPercent (divF (mulF (Fin 100) (Fin 3)) (Fin 4)) = 75000"
    using roundF64_int [of 300] roundF64_int [of 75] roundF64_int [of 75000]
    by (simp add: milliPercent_def finF_def fmul_def fdiv_def truncInt64_def min_int64_def max_int64_def)
  have "''http://'' @ joinHostPort (PodIP sampleFunrun) (FormatInt (healthPort sampleFunrun)) @ ''/metrics''
      = ''http://10.0.0.7:8091/metrics''"
    by (simp add: sampleFunrun_def healthPort_def healthPortName_def joinHostPort_def FormatInt_def formatNat.simps
        digitChar_def char_of_eq_iff)
  then show ?thesis
    using p m by (simp add: podSampleOf_def scrapePod_def sampleFetch_def sampleFunrun_def)
qed

lemma sampleList_ok: "listing_ok sampleList"
  by (simp add: listing_ok_def sampleList_def sampleFunrun_def)

theorem metrics_serve_last_round_witness:
  "GetMetricByName (scrapeAll sampleList (\<lambda>_. None) sampleFetch (\<lambda>_. 5) [''ns1'', ''ns2''] NewProvider) (''ns1'', ''funrun-0'')
     \<lparr>mi_Group = '''', mi_Resource = ''pods'', mi_Metric = MetricName\<rparr> (\<lambda>_. True)
   = Inr \<lparr>mv_Namespace = ''ns1'', mv_Name = ''funrun-0'', mv_Timestamp = 5, mv_MilliValue = 75000\<rparr>"
proof -
  have "eligible sampleFunrun" by (simp add: eligible_def sampleFunrun_def PodReady_def)
  then have "found sampleList (\<lambda>_. None) sampleFetch (\<lambda>_. 5) [''ns1'', ''ns2''] (''ns1'', ''funrun-0'')
      \<lparr>ps_labels = [], ps_value = 75000, ps_ts = 5\<rparr>"
    using sample_round by (simp add: found_def sampleList_def) (simp add: sampleFunrun_def)
  moreover have "knownMetric \<lparr>mi_Group = '''', mi_Resource = ''pods'', mi_Metric = MetricName\<rparr>" by (simp add: knownMetric_def)
  ultimately show ?thesis
    using metrics_serve_last_round [OF sampleList_ok refl, of "\<lambda>_. None" sampleFetch "\<lambda>_. 5" "[''ns1'', ''ns2'']" NewProvider
        "''ns1''" "''funrun-0''"]
    by (auto simp: metricFor_def)
qed

section \<open>Bounds of the metric\<close>

text \<open>A whole number on a page is read as the float64 it is.\<close>

lemma digits_lower: "list_all isDigit s \<Longrightarrow> map lowerASCII s = s \<and> filter (\<lambda>c. c \<noteq> CHR ''_'') s = s \<and> underscoreOK d s"
  by (induction s arbitrary: d) (auto simp: lowerASCII_def isDigit_def)

lemma parseFloat64_nat:
  assumes "n \<le> 2 ^ 53"
  shows "parseFloat64 hex (formatNat n) = Some (Fin (of_nat n))"
proof -
  let ?s = "formatNat n"
  have d: "list_all isDigit ?s" "?s \<noteq> []" using formatNat_digits by simp_all
  note low = digits_lower [OF d(1)]
  have "isDigit (hd ?s)" using d by (cases ?s) simp_all
  then have sg: "splitSign ?s = (False, ?s)" using d(2) by (simp add: splitSign_digits)
  have tw: "takeWhile isDigit ?s = ?s" using d(1) by (simp add: takeWhile_eq_all_conv list_all_iff)
  have "plainDecimal ?s = Some (of_nat n)"
    unfolding plainDecimal_def sg prod.case tw
    using d(2) by (simp add: Let_def readExponent_def digitsVal_formatNat)
  then have "readDecimal ?s = Some (of_nat n)" using low by (simp add: readDecimal_def)
  moreover have "?s \<notin> {''inf'', ''infinity'', ''nan''}" "\<not> HasPrefix ?s ''0x''"
    using d(1) by (auto simp: HasPrefix_iff isDigit_def)
  moreover have i: "int n \<le> 2 ^ 53"
    using assms by (metis of_nat_le_iff of_nat_numeral of_nat_power)
  then have "roundF64 (of_int (int n)) = of_int (int n)" by (intro roundF64_int) simp_all
  then have "roundF64 (of_nat n) = of_nat n" by (simp only: of_int_of_nat_eq)
  moreover have "(of_int (int n) :: rat) \<le> of_int (2 ^ 53)" using i by (simp only: of_int_le_iff)
  then have "\<bar>of_nat n :: rat\<bar> < 2 ^ 1024" by simp
  ultimately show ?thesis using sg low by (simp add: parseFloat64_def)
qed

section \<open>Reading a page\<close>

text \<open>A line of the text format that gives a gauge a whole number, with labels or without.\<close>

definition gaugeText :: "string \<Rightarrow> nat \<Rightarrow> string \<Rightarrow> bool" where
  "gaugeText name n l =
     (\<exists>lab. (lab = '''' \<or> hd lab = CHR ''{'') \<and> list_all graphic lab \<and> l = name @ lab @ '' '' @ formatNat n)"

lemma takeWord_graphic:
  "list_all graphic w \<Longrightarrow> takeWord (w @ CHR '' '' # s) = (w, CHR '' '' # s)"
  "list_all graphic w \<Longrightarrow> takeWord w = (w, [])"
  by (induction w) (simp_all add: stripOne_graphic stripOne_blank)

lemma Fields_two:
  assumes "list_all graphic w" "w \<noteq> []" "list_all graphic v" "v \<noteq> []"
  shows "Fields (w @ '' '' @ v) = [w, v]"
proof -
  have h: "graphic (hd w)" "graphic (hd v)" using assms by (auto simp: neq_Nil_conv)
  have "stripAll whiteSpace (w @ '' '' @ v) = w @ '' '' @ v"
    using stripAll_blanks(1) [of "w @ '' '' @ v" 0] h(1) assms(2) by simp
  moreover have "stripAll whiteSpace ('' '' @ v) = v"
    using stripAll_blanks(1) [of v 1] h(2) by simp
  moreover have "stripAll whiteSpace [] = []" using stripAll_blanks(1) [of "[]" 0] by simp
  then have "Fields [] = []" by (subst Fields.simps) simp
  ultimately have "Fields ('' '' @ v) = [v]" "Fields (w @ '' '' @ v) = w # Fields ('' '' @ v)"
    using takeWord_graphic(1) [OF assms(1)] takeWord_graphic(2) [OF assms(3)] assms(2,4)
    by (subst Fields.simps, simp)+
  then show ?thesis by simp
qed

lemma digit_graphic: "list_all isDigit s \<Longrightarrow> list_all graphic s"
  by (auto simp: list_all_iff isDigit_def graphic_def)

lemma cut_gaugeText:
  assumes "gaugeText name n l" "list_all graphic name" "name \<noteq> []" "CHR ''{'' \<notin> set name"
  shows "cutMetricLine l = Some (name, formatNat n)"
proof -
  obtain lab where lab: "lab = '''' \<or> hd lab = CHR ''{''" "list_all graphic lab" "l = (name @ lab) @ '' '' @ formatNat n"
    using assms(1) by (auto simp: gaugeText_def)
  have "Fields l = [name @ lab, formatNat n]"
    unfolding lab(3) using assms(2,3) lab(2) formatNat_digits [of n] digit_graphic by (intro Fields_two) auto
  moreover have "takeWhile (\<lambda>c. c \<noteq> CHR ''{'') (name @ lab) = name"
    using assms(4) lab(1) by (cases lab) (auto simp: takeWhile_append)
  ultimately show ?thesis by (simp add: cutMetricLine_def)
qed

lemma gauge_names:
  "list_all graphic busyGauge" "list_all graphic totalGauge" "CHR ''{'' \<notin> set busyGauge" "CHR ''{'' \<notin> set totalGauge"
  "busyGauge \<noteq> totalGauge" "busyGauge \<noteq> []" "totalGauge \<noteq> []"
  "HasPrefix (busyGauge @ s) isolateGaugePrefix" "HasPrefix (totalGauge @ s) isolateGaugePrefix"
  by (simp_all add: busyGauge_def totalGauge_def isolateGaugePrefix_def graphic_def HasPrefix_append)

lemma cut_prefix:
  assumes "cutMetricLine l = Some (name, v)" and "HasPrefix l isolateGaugePrefix"
  shows "HasPrefix l name"
proof -
  obtain t where t: "l = CHR ''c'' # t" using assms(2) by (auto simp: HasPrefix_iff isolateGaugePrefix_def)
  have "stripAll whiteSpace l = l" using stripAll_blanks(1) [of l 0] t by (simp add: graphic_def)
  then have "Fields l = fst (takeWord l) # Fields (snd (takeWord l))" by (subst Fields.simps) (simp add: t)
  then have "name = takeWhile (\<lambda>c. c \<noteq> CHR ''{'') (fst (takeWord l))"
    using assms(1) by (auto simp: cutMetricLine_def split: list.splits)
  then obtain r where "fst (takeWord l) = name @ r" using takeWhile_dropWhile_id by metis
  moreover have "l = fst (takeWord l) @ snd (takeWord l)" using takeWord_split [of l] by (cases "takeWord l") simp
  ultimately show ?thesis unfolding HasPrefix_iff by (metis append.assoc)
qed

lemma gauges_of_lines:
  assumes "busy \<le> 2 ^ 53" "tot \<le> 2 ^ 53"
    and "\<forall>l \<in> set ls. (HasPrefix l busyGauge \<longrightarrow> gaugeText busyGauge busy l) \<and> (HasPrefix l totalGauge \<longrightarrow> gaugeText totalGauge tot l)"
  shows "foldl (gaugeLine hex) g ls =
    \<lparr>g_busy = (if list_ex (\<lambda>l. HasPrefix l busyGauge) ls then Some (Fin (of_nat busy)) else g_busy g),
     g_total = (if list_ex (\<lambda>l. HasPrefix l totalGauge) ls then Some (Fin (of_nat tot)) else g_total g)\<rparr>"
  using assms(3)
proof (induction ls arbitrary: g)
  case (Cons l ls)
  have excl: "\<not> (HasPrefix l busyGauge \<and> HasPrefix l totalGauge)"
    by (auto simp: HasPrefix_iff busyGauge_def totalGauge_def)
  consider (busy) "HasPrefix l busyGauge" | (total) "HasPrefix l totalGauge" | (other) "\<not> HasPrefix l busyGauge" "\<not> HasPrefix l totalGauge"
    by blast
  then show ?case
  proof cases
    case busy
    then have "gaugeText busyGauge busy l" "HasPrefix l isolateGaugePrefix"
      using Cons.prems gauge_names(8) by (auto simp: HasPrefix_iff)
    then have "gaugeLine hex g l = g\<lparr>g_busy := Some (Fin (of_nat busy))\<rparr>"
      using cut_gaugeText gauge_names parseFloat64_nat [OF assms(1)] by (simp add: gaugeLine_def)
    then show ?thesis using Cons busy excl by simp
  next
    case total
    then have "gaugeText totalGauge tot l" "HasPrefix l isolateGaugePrefix"
      using Cons.prems gauge_names(9) by (auto simp: HasPrefix_iff)
    then have "gaugeLine hex g l = g\<lparr>g_total := Some (Fin (of_nat tot))\<rparr>"
      using cut_gaugeText gauge_names parseFloat64_nat [OF assms(2)] by (simp add: gaugeLine_def)
    then show ?thesis using Cons total excl by simp
  next
    case other
    then have "gaugeLine hex g l = g"
      using cut_prefix [of l] by (auto simp: gaugeLine_def split: option.splits)
    then show ?thesis using Cons other by simp
  qed
qed simp

text \<open>A page is a list of lines, each ended by a newline.\<close>

definition pageOf :: "string list \<Rightarrow> string" where
  "pageOf ls = concat (map (\<lambda>l. l @ [CHR 0x0A]) ls)"

lemma splitLines_append: "CHR 0x0A \<notin> set l \<Longrightarrow> splitLines cur (l @ CHR 0x0A # s) = (rev cur @ l) # splitLines [] s"
  by (induction l arbitrary: cur) auto

lemma splitLines_page: "\<forall>l \<in> set ls. CHR 0x0A \<notin> set l \<Longrightarrow> splitLines [] (pageOf ls) = ls"
  by (induction ls) (simp_all add: pageOf_def splitLines_append del: splitLines.simps(2))

text \<open>\<open>busy\<close> and \<open>tot\<close> are the threads that a page reports.\<close>

definition reports :: "string list \<Rightarrow> nat \<Rightarrow> nat \<Rightarrow> bool" where
  "reports ls busy tot =
     ((\<forall>l \<in> set ls. CHR 0x0A \<notin> set l \<and> length l < 1048576
         \<and> (HasPrefix l ''convex_funrun_isolate_busy_threads'' \<longrightarrow> gaugeText ''convex_funrun_isolate_busy_threads'' busy l)
         \<and> (HasPrefix l ''convex_funrun_isolate_total_threads'' \<longrightarrow> gaugeText ''convex_funrun_isolate_total_threads'' tot l))
      \<and> (\<exists>l \<in> set ls. HasPrefix l ''convex_funrun_isolate_busy_threads'')
      \<and> (\<exists>l \<in> set ls. HasPrefix l ''convex_funrun_isolate_total_threads''))"

lemma dropCR_gauge:
  assumes "list_all isDigit d" "d \<noteq> []"
  shows "dropCR (p @ d) = p @ d"
proof -
  have "isDigit (last d)" using assms by (simp add: list_all_iff)
  then have "last d \<noteq> CHR 0x0D" by (auto simp: isDigit_def)
  then show ?thesis using assms(2) by (simp add: dropCR_def)
qed

lemma dropCR_gaugeText: "gaugeText name n l \<Longrightarrow> dropCR l = l"
  using dropCR_gauge [of "formatNat n"] formatNat_digits [of n] by (auto simp: gaugeText_def simp flip: append_assoc append.simps)

lemma HasPrefix_dropCR: "HasPrefix (dropCR l) x \<Longrightarrow> HasPrefix l x"
  by (auto simp: dropCR_def HasPrefix_iff split: if_splits) (metis append_assoc append_butlast_last_id)

lemma reports_parsed:
  assumes "reports ls busy tot" "busy \<le> 2 ^ 53" "tot \<le> 2 ^ 53"
  shows "parsePromGauges hex (pageOf ls) True = Some (Fin (of_nat busy), Fin (of_nat tot))"
proof -
  have names: "busyGauge = ''convex_funrun_isolate_busy_threads''" "totalGauge = ''convex_funrun_isolate_total_threads''"
    by (simp_all add: busyGauge_def totalGauge_def isolateGaugePrefix_def)
  note R = assms(1) [unfolded reports_def, folded names]
  have "\<forall>l \<in> set (map dropCR ls). (HasPrefix l busyGauge \<longrightarrow> gaugeText busyGauge busy l)
      \<and> (HasPrefix l totalGauge \<longrightarrow> gaugeText totalGauge tot l)"
    using R HasPrefix_dropCR dropCR_gaugeText by (metis (no_types, lifting) imageE set_map)
  note F = gauges_of_lines [OF assms(2,3) this, of hex "\<lparr>g_busy = None, g_total = None\<rparr>"]
  have "list_ex (\<lambda>l. HasPrefix l g) (map dropCR ls)" if "\<exists>l \<in> set ls. HasPrefix l g \<and> dropCR l = l" for g
    using that by (fastforce simp: list_ex_iff intro: bexI [rotated])
  then have "list_ex (\<lambda>l. HasPrefix l busyGauge) (map dropCR ls)" "list_ex (\<lambda>l. HasPrefix l totalGauge) (map dropCR ls)"
    using R dropCR_gaugeText by blast+
  moreover have "splitLines [] (pageOf ls) = ls" "\<not> list_ex (\<lambda>l. \<not> length l < scrapeBufferMax) ls"
    using R by (auto simp: splitLines_page list_ex_iff scrapeBufferMax_def)
  ultimately show ?thesis using F by (simp add: parsePromGauges_def)
qed

text \<open>The float64 operations stay between the whole percentages that the exact quotient lies between.\<close>

lemma percent_rounded:
  assumes "0 \<le> busy" "0 < tot" "busy \<le> 2 ^ 36"
  shows "k * tot \<le> 100 * busy \<Longrightarrow> 1000 * k \<le> milliPercent (divF (mulF (Fin 100) (Fin (of_int busy))) (Fin (of_int tot)))"
    and "100 * busy \<le> k * tot \<Longrightarrow> milliPercent (divF (mulF (Fin 100) (Fin (of_int busy))) (Fin (of_int tot))) \<le> 1000 * k"
proof -
  have big: "100 * busy \<le> 2 ^ 43" using assms(3) by simp
  have a: "fmul 100 (of_int busy) = of_int (100 * busy)"
    using roundF64_int [of "100 * busy"] assms(1) big by (simp add: fmul_def)
  define q where "q = (of_int (100 * busy) / of_int tot :: rat)"
  have t: "(0 :: rat) < of_int tot" using assms(2) by simp
  have q0: "0 \<le> q" using assms(1) t by (simp add: q_def)
  have qle: "q \<le> of_int k \<longleftrightarrow> 100 * busy \<le> k * tot" for k
    unfolding q_def pos_divide_le_eq [OF t] of_int_mult [symmetric] of_int_le_iff ..
  have qge: "of_int k \<le> q \<longleftrightarrow> k * tot \<le> 100 * busy" for k
    unfolding q_def pos_le_divide_eq [OF t] of_int_mult [symmetric] of_int_le_iff ..
  have "(2 :: int) ^ 43 * 1 \<le> 2 ^ 43 * tot" using assms(2) by (intro mult_left_mono) simp_all
  then have qmax: "q \<le> of_int (2 ^ 43)" unfolding qle using big by linarith
  define x where "x = roundF64 q"
  define y where "y = roundF64 (x * 1000)"
  have xub: "x \<le> of_int k" if "q \<le> of_int k" "k \<le> 2 ^ 43" for k
    using roundF64_le [OF q0 that(1)] that(2) by (simp add: x_def)
  have x0: "0 \<le> x" "0 \<le> x * 1000" using roundF64_nonneg [OF q0] by (simp_all add: x_def)
  have y0: "0 \<le> y" using roundF64_nonneg [OF x0(2)] by (simp add: y_def)
  have yub: "y \<le> of_int (1000 * k)" if "q \<le> of_int k" "k \<le> 2 ^ 43" for k
  proof -
    have "x * 1000 \<le> of_int (1000 * k)" using xub [OF that] by simp
    from roundF64_le [OF x0(2) this] show ?thesis using that(2) by (simp add: y_def)
  qed
  have ylb: "of_int (1000 * k) \<le> y" if "of_int k \<le> q" for k
  proof -
    have "(of_int k :: rat) \<le> of_int (2 ^ 43)" using that qmax by linarith
    then have k: "k \<le> 2 ^ 43" by (simp only: of_int_le_iff)
    then have "of_int k \<le> x" using roundF64_ge [OF q0 that] by (simp add: x_def)
    then have "of_int (1000 * k) \<le> x * 1000" by simp
    from roundF64_ge [OF x0(2) this] show ?thesis using k by (simp add: y_def)
  qed
  have max: "x \<le> of_int (2 ^ 43)" "y \<le> of_int (1000 * 2 ^ 43)" using xub [OF qmax] yub [OF qmax] by simp_all
  have fin: "\<bar>of_int (100 * busy) :: rat\<bar> < 2 ^ 1024" "\<bar>x\<bar> < 2 ^ 1024" "\<bar>y\<bar> < 2 ^ 1024"
  proof -
    have "(of_int (100 * busy) :: rat) \<le> of_int (2 ^ 43)" using big by (simp only: of_int_le_iff)
    moreover have "(of_int (1000 * 2 ^ 43) :: rat) < 2 ^ 1024" "(of_int (2 ^ 43) :: rat) < 2 ^ 1024" by simp_all
    ultimately show "\<bar>of_int (100 * busy) :: rat\<bar> < 2 ^ 1024" "\<bar>x\<bar> < 2 ^ 1024" "\<bar>y\<bar> < 2 ^ 1024"
      using assms(1) x0 y0 max by linarith+
  qed
  have "\<lfloor>y\<rfloor> \<le> 1000 * 2 ^ 43" using max(2) by (simp add: floor_le_iff)
  then have "truncInt64 y = \<lfloor>y\<rfloor>" using y0 by (simp add: truncInt64_def min_int64_def max_int64_def)
  then have v: "milliPercent (divF (mulF (Fin 100) (Fin (of_int busy))) (Fin (of_int tot))) = \<lfloor>y\<rfloor>"
    using a fin t by (simp add: milliPercent_def finF_def fdiv_def fmul_def x_def y_def q_def)
  show "1000 * k \<le> milliPercent (divF (mulF (Fin 100) (Fin (of_int busy))) (Fin (of_int tot)))"
    if "k * tot \<le> 100 * busy"
    unfolding v le_floor_iff using ylb that qge by blast
  show "milliPercent (divF (mulF (Fin 100) (Fin (of_int busy))) (Fin (of_int tot))) \<le> 1000 * k"
    if "100 * busy \<le> k * tot"
  proof (cases "k \<le> 2 ^ 43")
    case True
    then have "y \<le> of_int (1000 * k)" using yub that qle by blast
    then show ?thesis unfolding v by (simp add: floor_le_iff)
  next
    case False
    then have "(1000 :: int) * 2 ^ 43 \<le> 1000 * k" by simp
    with \<open>\<lfloor>y\<rfloor> \<le> 1000 * 2 ^ 43\<close> show ?thesis unfolding v by (rule order.trans)
  qed
qed

lemma found_unique:
  assumes "listing_ok list" "list ns funrunSelector = Inr items" "ns \<in> set namespaces" "p \<in> set items"
  shows "found list hex fetch clock namespaces (ns, pod_Name p) s \<longleftrightarrow>
    eligible p \<and> podSampleOf hex fetch (clock ns) p = Some s"
proof -
  have "distinct (map pod_Name items)" using assms(1,2) by (auto simp: listing_ok_def)
  then have "q = p" if "q \<in> set items" "pod_Name q = pod_Name p" for q
    using that assms(4) by (auto simp: distinct_map inj_on_def)
  then show ?thesis using assms(2-4) by (auto simp: found_def)
qed

text \<open>
  C37: the metric is the share of busy threads. After a round, a pod that was listed, alive and
  ready and answered with a page that reports \<open>busy\<close> and \<open>tot\<close> threads (in any order, among any
  other lines, up to \<open>2 ^ 36\<close> of them) has a metric if and only if \<open>tot\<close> is not zero. Its value, in
  thousandths of a percent, lies between the whole percentages on both sides of
  \<open>100 * busy / tot\<close> and is exact when this is a whole percentage, whatever the rounding of the
  float64 operations; so it is 0 when no thread is busy, exactly 100 percent when all are, and
  between the two as long as \<open>busy\<close> does not exceed \<open>tot\<close> (a page on which it does is served as
  more than 100 percent: the code does not check it).
\<close>

theorem utilization_bounds:
  assumes "listing_ok list" and "list ns funrunSelector = Inr items" and "ns \<in> set namespaces" and "p \<in> set items"
    and "DeletionTimestamp p = None" and "PodIP p \<noteq> ''''" and "PodReady p"
    and "fetch (''http://'' @ joinHostPort (PodIP p) (FormatInt (healthPort p)) @ ''/metrics'') = Some (200, pageOf ls, True)"
    and "reports ls busy tot" and "busy \<le> 2 ^ 36" and "tot \<le> 2 ^ 36"
    and "knownMetric info" and "msel []"
  shows "(tot = 0 \<longrightarrow> GetMetricByName (scrapeAll list hex fetch clock namespaces prov) (ns, pod_Name p) info msel
            = Inl (MetricNotFoundFor (pod_Name p)))
    \<and> (0 < tot \<longrightarrow> (\<exists>v. GetMetricByName (scrapeAll list hex fetch clock namespaces prov) (ns, pod_Name p) info msel = Inr v
          \<and> 1000 * (100 * int busy div int tot) \<le> mv_MilliValue v
          \<and> mv_MilliValue v \<le> 1000 * ((100 * int busy + int tot - 1) div int tot)
          \<and> (tot dvd 100 * busy \<longrightarrow> mv_MilliValue v = 1000 * (100 * int busy div int tot))
          \<and> (busy \<le> tot \<longrightarrow> 0 \<le> mv_MilliValue v \<and> mv_MilliValue v \<le> 100000)
          \<and> (tot < busy \<longrightarrow> 100000 \<le> mv_MilliValue v)))"
proof -
  let ?prov = "scrapeAll list hex fetch clock namespaces prov"
  let ?v = "milliPercent (divF (mulF (Fin 100) (Fin (of_int (int busy)))) (Fin (of_int (int tot))))"
  have "eligible p" using assms(5-7) by (simp add: eligible_def)
  then have cached: "map_of (cache ?prov) (ns, pod_Name p) = Some s \<longleftrightarrow> podSampleOf hex fetch (clock ns) p = Some s" for s
    using cache_iff [OF assms(1)] found_unique [OF assms(1-4)] by blast
  have "parsePromGauges hex (pageOf ls) True = Some (Fin (of_nat busy), Fin (of_nat tot))"
    using reports_parsed [OF assms(9)] assms(10,11) by simp
  then have sample: "podSampleOf hex fetch (clock ns) p =
      (if tot = 0 then None else Some \<lparr>ps_labels = Labels p, ps_value = ?v, ps_ts = clock ns\<rparr>)"
    using assms(8) by (simp add: podSampleOf_def scrapePod_def)
  show ?thesis
  proof (cases "tot = 0")
    case True
    then have "map_of (cache ?prov) (ns, pod_Name p) \<noteq> Some s" for s using cached [of s] sample by simp
    then have "map_of (cache ?prov) (ns, pod_Name p) = None" by (metis not_Some_eq)
    then show ?thesis using True assms(12,13) by (simp add: GetMetricByName_def matchesUnlabeledMetric_def)
  next
    case False
    then have t: "0 < int tot" by simp
    have "map_of (cache ?prov) (ns, pod_Name p) = Some \<lparr>ps_labels = Labels p, ps_value = ?v, ps_ts = clock ns\<rparr>"
      using False cached sample by simp
    then obtain v where v: "GetMetricByName ?prov (ns, pod_Name p) info msel = Inr v" "mv_MilliValue v = ?v"
      using assms(12,13) by (simp add: GetMetricByName_def matchesUnlabeledMetric_def metricFor_def)
    have b: "0 \<le> int busy" "int busy \<le> 2 ^ 36" using assms(10) by simp_all
    note P = percent_rounded [OF b(1) t b(2)]
    have lower: "100 * int busy div int tot * int tot \<le> 100 * int busy"
      using t by (simp add: minus_mod_eq_div_mult [symmetric])
    have upper: "100 * int busy \<le> (100 * int busy + int tot - 1) div int tot * int tot"
    proof -
      have "(100 * int busy + int tot - 1) mod int tot < int tot" using t by simp
      then show ?thesis using minus_mod_eq_div_mult [of "100 * int busy + int tot - 1" "int tot"] by linarith
    qed
    have exact: "100 * int busy \<le> 100 * int busy div int tot * int tot" if "tot dvd 100 * busy"
    proof -
      have "int tot dvd 100 * int busy" using that by (metis of_nat_dvd_iff of_nat_mult of_nat_numeral)
      then show ?thesis by simp
    qed
    have "100 * int busy \<le> 100 * int tot" if "busy \<le> tot" using that by simp
    then show ?thesis
      using False v P(1) [OF lower] P(2) [OF upper] P(2) [OF exact] P(1) [of 0] P(2) [of 100] P(1) [of 100]
      by (intro conjI impI exI [of _ v]) (auto simp: antisym)
  qed
qed

text \<open>A page with labels, other gauges and comments.\<close>

definition samplePage :: "string list" where
  "samplePage =
     [''# TYPE convex_funrun_isolate_busy_threads gauge'', ''convex_funrun_isolate_total_threads 7'',
      ''convex_funrun_isolate_busy_threads{pod=1} 7'', ''convex_funrun_requests 12'']"

theorem utilization_bounds_witness:
  "\<exists>v. GetMetricByName (scrapeAll sampleList (\<lambda>_. None) (\<lambda>_. Some (200, pageOf samplePage, True)) (\<lambda>_. 5) [''ns1''] NewProvider)
     (''ns1'', ''funrun-0'') \<lparr>mi_Group = '''', mi_Resource = ''pods'', mi_Metric = MetricName\<rparr> (\<lambda>_. True) = Inr v
   \<and> mv_MilliValue v = 100000"
proof -
  have n: "formatNat 7 = ''7''" by code_simp
  have g: "gaugeText ''convex_funrun_isolate_total_threads'' 7 ''convex_funrun_isolate_total_threads 7''"
    unfolding gaugeText_def n by (rule exI [of _ "''''"]) simp
  have b: "gaugeText ''convex_funrun_isolate_busy_threads'' 7 ''convex_funrun_isolate_busy_threads{pod=1} 7''"
    unfolding gaugeText_def n by (rule exI [of _ "''{pod=1}''"]) (simp add: graphic_def)
  have r: "reports samplePage 7 7" using g b by (simp add: reports_def samplePage_def)
  have p: "sampleList ''ns1'' funrunSelector = Inr [sampleFunrun]" "DeletionTimestamp sampleFunrun = None"
    "PodIP sampleFunrun \<noteq> ''''" "PodReady sampleFunrun" "pod_Name sampleFunrun = ''funrun-0''"
    by (simp_all add: sampleList_def sampleFunrun_def PodReady_def)
  have k: "knownMetric \<lparr>mi_Group = '''', mi_Resource = ''pods'', mi_Metric = MetricName\<rparr>" by (simp add: knownMetric_def)
  show ?thesis
    using utilization_bounds [where list = sampleList and ns = "''ns1''" and namespaces = "[''ns1'']" and p = sampleFunrun
        and ls = samplePage and hex = "\<lambda>_. None" and clock = "\<lambda>_. 5" and prov = NewProvider
        and fetch = "\<lambda>_. Some (200, pageOf samplePage, True)" and msel = "\<lambda>_. True", OF sampleList_ok p(1) _ _ p(2-4) _ r _ _ k]
      p(5) by auto
qed

end
