(* ===== verification/BigbrainConfig.thy ===== *)
theory BigbrainConfig
  imports Election UsageApi
begin

text \<open>
  The start-up of bigbrain (\<open>bigbrain/main.go\<close>): its environment, the bootstrap list of
  deployments, the tokens, and the state \<open>run\<close> starts the services with. \<open>getenv\<close> is \<open>os.Getenv\<close>;
  \<open>labelErrs\<close> and \<open>dnsErrs\<close> are the two validators of the Kubernetes library (their lists of
  complaints); \<open>bs\<close> are the random bytes of the registry's epoch. Signals, listeners and logging
  are not modelled.
\<close>

section \<open>Environment\<close>

datatype startError =
    EmptyName string
  | BadLabel string
  | BadNamespace string string
  | DuplicateRef string
  | NoRegistered
  | MissingToken string nat
  | UnsafeToken string
  | NoKubernetes
  | BadRingCap int
  | BadEnv string

definition env :: "(string \<Rightarrow> string) \<Rightarrow> string \<Rightarrow> string \<Rightarrow> string" where
  "env getenv k d = (let v = getenv k in if v \<noteq> '''' then v else d)"

text \<open>A value that does not parse ends the process.\<close>

definition envInt :: "(string \<Rightarrow> string) \<Rightarrow> string \<Rightarrow> int \<Rightarrow> startError + int" where
  "envInt getenv k d =
     (let v = getenv k in
      if v = '''' then Inr d
      else (case ParseInt v of None \<Rightarrow> Inl (BadEnv k) | Some n \<Rightarrow> Inr n))"

definition ParseBool :: "string \<Rightarrow> bool option" where
  "ParseBool v =
     (if v \<in> {''1'', ''t'', ''T'', ''TRUE'', ''true'', ''True''} then Some True
      else if v \<in> {''0'', ''f'', ''F'', ''FALSE'', ''false'', ''False''} then Some False
      else None)"

definition envBool :: "(string \<Rightarrow> string) \<Rightarrow> string \<Rightarrow> bool \<Rightarrow> startError + bool" where
  "envBool getenv k d =
     (let v = getenv k in
      if v = '''' then Inr d
      else (case ParseBool v of None \<Rightarrow> Inl (BadEnv k) | Some b \<Rightarrow> Inr b))"

definition electionConfigFromEnv :: "(string \<Rightarrow> string) \<Rightarrow> startError + Config" where
  "electionConfigFromEnv getenv =
     (case envBool getenv ''BIGBRAIN_FAILBACK_ENABLED'' (FailbackEnabled DefaultConfig) of
        Inl e \<Rightarrow> Inl e
      | Inr b \<Rightarrow> Inr (DefaultConfig\<lparr>FailbackEnabled := b\<rparr>))"

section \<open>Deployments\<close>

record deploymentRef =
  dr_name :: string
  dr_namespace :: string

text \<open>One entry: \<open>name=namespace\<close>, or just a name; \<open>seen\<close> are the names of the entries before.\<close>

definition parseEntry ::
  "(string \<Rightarrow> string list) \<Rightarrow> (string \<Rightarrow> string list) \<Rightarrow> string list \<Rightarrow> string \<Rightarrow> startError + deploymentRef" where
  "parseEntry labelErrs dnsErrs seen part =
     (let (name0, ns0, ok) = (case cutAt (CHR ''='') part of None \<Rightarrow> (part, '''', False) | Some (a, b) \<Rightarrow> (a, b, True));
          name = TrimSpace name0
      in if name = '''' then Inl (EmptyName part)
         else if labelErrs name \<noteq> [] then Inl (BadLabel name)
         else (let ns1 = TrimSpace ns0; ns = (if \<not> ok \<or> ns1 = '''' then name else ns1) in
               if dnsErrs ns \<noteq> [] then Inl (BadNamespace name ns)
               else if name \<in> set seen then Inl (DuplicateRef name)
               else Inr \<lparr>dr_name = name, dr_namespace = ns\<rparr>))"

fun parseParts ::
  "(string \<Rightarrow> string list) \<Rightarrow> (string \<Rightarrow> string list) \<Rightarrow> string list \<Rightarrow> deploymentRef list
    \<Rightarrow> startError + deploymentRef list" where
  "parseParts labelErrs dnsErrs [] out = Inr out"
| "parseParts labelErrs dnsErrs (part # parts) out =
     (if TrimSpace part = '''' then parseParts labelErrs dnsErrs parts out
      else (case parseEntry labelErrs dnsErrs (map dr_name out) (TrimSpace part) of
              Inl e \<Rightarrow> Inl e
            | Inr d \<Rightarrow> parseParts labelErrs dnsErrs parts (out @ [d])))"

definition parseDeployments ::
  "(string \<Rightarrow> string list) \<Rightarrow> (string \<Rightarrow> string list) \<Rightarrow> string \<Rightarrow> startError + deploymentRef list" where
  "parseDeployments labelErrs dnsErrs s = parseParts labelErrs dnsErrs (splitOn (CHR '','') s) []"

text \<open>No rune of a token is a blank, a control character or DEL.\<close>

definition headerSafe :: "string \<Rightarrow> bool" where
  "headerSafe token = list_all (\<lambda>c. (of_char c :: nat) > 32 \<and> (of_char c :: nat) \<noteq> 127) token"

definition controlPlaneTokenName :: "nat \<Rightarrow> string" where
  "controlPlaneTokenName i = ''BIGBRAIN_CONTROL_PLANE_TOKEN_'' @ formatNat i"

definition usageTokenName :: "nat \<Rightarrow> string" where
  "usageTokenName i = ''BIGBRAIN_USAGE_TOKEN_'' @ formatNat i"

fun loadTokens ::
  "(string \<Rightarrow> string) \<Rightarrow> nat \<Rightarrow> deploymentRef list \<Rightarrow> (string, string) gomap \<Rightarrow> (string, string) gomap
    \<Rightarrow> startError + (string, string) gomap \<times> (string, string) gomap" where
  "loadTokens getenv i [] cp us = Inr (cp, us)"
| "loadTokens getenv i (d # ds) cp us =
     (let token = env getenv (controlPlaneTokenName i) '''' in
      if token = '''' then Inl (MissingToken (dr_name d) i)
      else if \<not> headerSafe token then Inl (UnsafeToken (controlPlaneTokenName i))
      else (let cp' = AList.update (dr_name d) token cp; usage = env getenv (usageTokenName i) '''' in
            if usage \<noteq> '''' then
              (if \<not> headerSafe usage then Inl (UnsafeToken (usageTokenName i))
               else loadTokens getenv (Suc i) ds cp' (AList.update (dr_name d) usage us))
            else loadTokens getenv (Suc i) ds cp' us))"

definition loadDeploymentTokens ::
  "(string \<Rightarrow> string) \<Rightarrow> deploymentRef list \<Rightarrow> startError + (string, string) gomap \<times> (string, string) gomap" where
  "loadDeploymentTokens getenv ds = loadTokens getenv 0 ds [] []"

definition registerAll :: "deploymentRef list \<Rightarrow> Registry \<Rightarrow> Registry" where
  "registerAll ds r = foldl (\<lambda>r d. EnsureDeployment r (dr_name d) (dr_namespace d)) r ds"

definition buildRegistry ::
  "(string \<Rightarrow> string list) \<Rightarrow> (string \<Rightarrow> string list) \<Rightarrow> (string \<Rightarrow> string) \<Rightarrow> 8 word list \<Rightarrow> string
    \<Rightarrow> startError + Registry \<times> (string, string) gomap \<times> (string, string) gomap" where
  "buildRegistry labelErrs dnsErrs getenv bs bootstrap =
     (case parseDeployments labelErrs dnsErrs bootstrap of
        Inl e \<Rightarrow> Inl e
      | Inr ds \<Rightarrow>
          if ds = [] then Inl NoRegistered
          else (case loadDeploymentTokens getenv ds of
                  Inl e \<Rightarrow> Inl e
                | Inr (cp, us) \<Rightarrow> Inr (registerAll ds (NewRegistry bs), cp, us)))"

section \<open>Start-up\<close>

definition defaultInsightsRingCap :: int where "defaultInsightsRingCap = 50000"

record services =
  sv_registry :: Registry
  sv_controlTokens :: "(string, string) gomap"
  sv_usageTokens :: "(string, string) gomap"
  sv_config :: Config
  sv_insights :: Insights

definition validateRuntimeConfig :: "int \<Rightarrow> startError option" where
  [simp]: "validateRuntimeConfig ringSize = (if ringSize \<le> 0 then Some (BadRingCap ringSize) else None)"

text \<open>The first half of \<open>run\<close>; \<open>k8s\<close> says whether the Kubernetes client could be made.\<close>

definition startBigbrain ::
  "(string \<Rightarrow> string list) \<Rightarrow> (string \<Rightarrow> string list) \<Rightarrow> (string \<Rightarrow> string) \<Rightarrow> 8 word list \<Rightarrow> bool
    \<Rightarrow> startError + services" where
  "startBigbrain labelErrs dnsErrs getenv bs k8s =
     (case buildRegistry labelErrs dnsErrs getenv bs (env getenv ''BIGBRAIN_DEPLOYMENTS'' '''') of
        Inl e \<Rightarrow> Inl e
      | Inr (r, cp, us) \<Rightarrow>
          if \<not> k8s then Inl NoKubernetes
          else (case electionConfigFromEnv getenv of
                  Inl e \<Rightarrow> Inl e
                | Inr cf \<Rightarrow>
                    (case envInt getenv ''BIGBRAIN_INSIGHTS_RING_CAP'' defaultInsightsRingCap of
                       Inl e \<Rightarrow> Inl e
                     | Inr ringSize \<Rightarrow>
                         (case validateRuntimeConfig ringSize of
                            Some e \<Rightarrow> Inl e
                          | None \<Rightarrow> Inr \<lparr>sv_registry = r, sv_controlTokens = cp, sv_usageTokens = us,
                                     sv_config = cf, sv_insights = NewInsights ringSize\<rparr>))))"

text \<open>The namespaces the metrics scraper visits: each once, in the order of the names.\<close>

fun namespacesLoop :: "Registry \<Rightarrow> string list \<Rightarrow> string list \<Rightarrow> string list" where
  "namespacesLoop r [] out = out"
| "namespacesLoop r (n # ns) out =
     (case Namespace r n of
        None \<Rightarrow> namespacesLoop r ns out
      | Some s \<Rightarrow> if s \<in> set out then namespacesLoop r ns out else namespacesLoop r ns (out @ [s]))"

definition metricsNamespaces :: "Registry \<Rightarrow> string list" where
  "metricsNamespaces r = namespacesLoop r (Names r) []"

definition metricsPort :: "(string \<Rightarrow> string) \<Rightarrow> startError + int option" where
  "metricsPort getenv =
     (case envBool getenv ''BIGBRAIN_METRICS_APISERVER_ENABLED'' False of
        Inl e \<Rightarrow> Inl e
      | Inr False \<Rightarrow> Inr None
      | Inr True \<Rightarrow>
          (case envInt getenv ''BIGBRAIN_METRICS_APISERVER_PORT'' 6443 of
             Inl e \<Rightarrow> Inl e
           | Inr p \<Rightarrow> if p < 1 \<or> p > 65535 then Inl (BadEnv ''BIGBRAIN_METRICS_APISERVER_PORT'') else Inr (Some p)))"

section \<open>What a start-up leaves\<close>

lemma parseEntry_ok:
  assumes "parseEntry labelErrs dnsErrs seen part = Inr d"
  shows "dr_name d \<noteq> '''' \<and> labelErrs (dr_name d) = [] \<and> dnsErrs (dr_namespace d) = [] \<and> dr_name d \<notin> set seen"
  using assms by (auto simp: parseEntry_def Let_def split: option.splits prod.splits if_splits)

definition refs_ok :: "(string \<Rightarrow> string list) \<Rightarrow> (string \<Rightarrow> string list) \<Rightarrow> deploymentRef list \<Rightarrow> bool" where
  "refs_ok labelErrs dnsErrs ds =
     (distinct (map dr_name ds)
      \<and> (\<forall>d \<in> set ds. dr_name d \<noteq> '''' \<and> labelErrs (dr_name d) = [] \<and> dnsErrs (dr_namespace d) = []))"

lemma parseParts_ok:
  "refs_ok labelErrs dnsErrs out \<Longrightarrow> parseParts labelErrs dnsErrs parts out = Inr ds \<Longrightarrow> refs_ok labelErrs dnsErrs ds"
proof (induction parts arbitrary: out)
  case (Cons part parts)
  show ?case
  proof (cases "TrimSpace part = ''''")
    case True
    then show ?thesis using Cons by simp
  next
    case False
    then obtain d where d: "parseEntry labelErrs dnsErrs (map dr_name out) (TrimSpace part) = Inr d"
      "parseParts labelErrs dnsErrs parts (out @ [d]) = Inr ds"
      using Cons.prems(2) by (auto split: sum.splits)
    have "refs_ok labelErrs dnsErrs (out @ [d])"
      using Cons.prems(1) parseEntry_ok [OF d(1)] by (auto simp: refs_ok_def)
    then show ?thesis using Cons.IH d(2) by blast
  qed
qed simp

lemma registerAll_snoc: "registerAll (ds @ [d]) r = EnsureDeployment (registerAll ds r) (dr_name d) (dr_namespace d)"
  by (simp add: registerAll_def)

lemma registerAll_reachable: "registry_reachable r \<Longrightarrow> registry_reachable (registerAll ds r)"
proof (induction ds rule: rev_induct)
  case (snoc d ds)
  then have "registry_reachable (registerAll ds r)" by simp
  from registry_reachable.step [OF this registry_step.ensure] show ?case unfolding registerAll_snoc .
qed (simp add: registerAll_def)

definition freshRecord :: "deploymentRef \<Rightarrow> deployment" where
  "freshRecord d = \<lparr>namespace = dr_namespace d, leaderPod = '''', leaderURL = '''', seq = 0, published = False\<rparr>"

lemma update_snoc: "k \<notin> fst ` set m \<Longrightarrow> AList.update k v m = m @ [(k, v)]"
  by (induction m) auto

lemma registerAll_deps:
  "distinct (map dr_name ds) \<Longrightarrow>
     deps (registerAll ds (NewRegistry bs)) = map (\<lambda>d. (dr_name d, freshRecord d)) ds"
proof (induction ds rule: rev_induct)
  case (snoc d ds)
  then have IH: "deps (registerAll ds (NewRegistry bs)) = map (\<lambda>d. (dr_name d, freshRecord d)) ds"
    and d: "dr_name d \<notin> fst ` set (map (\<lambda>d. (dr_name d, freshRecord d)) ds)" by force+
  then have "map_of (deps (registerAll ds (NewRegistry bs))) (dr_name d) = None"
    by (simp only: map_of_eq_None_iff) simp
  then show ?case
    unfolding registerAll_snoc
    using update_snoc [OF d] by (simp add: EnsureDeployment_def IH freshRecord_def)
qed (simp add: registerAll_def NewRegistry_def)

definition token_ok :: "string \<Rightarrow> bool" where "token_ok t = (t \<noteq> '''' \<and> headerSafe t)"

lemma loadTokens_ok:
  "loadTokens getenv i ds cp us = Inr (cp', us') \<Longrightarrow>
     (\<forall>n. (n \<in> dr_name ` set ds \<longrightarrow> (\<exists>t. map_of cp' n = Some t \<and> token_ok t))
        \<and> (n \<notin> dr_name ` set ds \<longrightarrow> map_of cp' n = map_of cp n \<and> map_of us' n = map_of us n)
        \<and> (n \<in> dr_name ` set ds \<longrightarrow> (\<forall>t. map_of us' n = Some t \<longrightarrow> token_ok t \<or> map_of us n = Some t)))"
proof (induction ds arbitrary: i cp us)
  case (Cons d ds)
  define token where "token = env getenv (controlPlaneTokenName i) ''''"
  define usage where "usage = env getenv (usageTokenName i) ''''"
  have t: "token_ok token" "usage \<noteq> '''' \<longrightarrow> token_ok usage"
    using Cons.prems by (auto simp: token_def usage_def token_ok_def Let_def split: if_splits)
  define us1 where "us1 = (if usage \<noteq> '''' then AList.update (dr_name d) usage us else us)"
  have run: "loadTokens getenv (Suc i) ds (AList.update (dr_name d) token cp) us1 = Inr (cp', us')"
    using Cons.prems by (auto simp: token_def usage_def us1_def Let_def split: if_splits)
  have c1: "map_of (AList.update (dr_name d) token cp) n = (if n = dr_name d then Some token else map_of cp n)" for n
    by (simp add: update_conv)
  have u1: "map_of us1 n = (if n = dr_name d \<and> usage \<noteq> '''' then Some usage else map_of us n)" for n
    by (simp add: us1_def update_conv)
  show ?case
  proof
    fix n
    have IH: "(n \<in> dr_name ` set ds \<longrightarrow> (\<exists>t. map_of cp' n = Some t \<and> token_ok t))
        \<and> (n \<notin> dr_name ` set ds \<longrightarrow>
             map_of cp' n = (if n = dr_name d then Some token else map_of cp n) \<and> map_of us' n = map_of us1 n)
        \<and> (n \<in> dr_name ` set ds \<longrightarrow> (\<forall>t. map_of us' n = Some t \<longrightarrow> token_ok t \<or> map_of us1 n = Some t))"
      using Cons.IH [OF run] unfolding c1 by blast
    have u: "map_of us1 n = Some t' \<Longrightarrow> token_ok t' \<or> map_of us n = Some t'" for t'
      using t(2) u1 [of n] by (simp split: if_splits)
    have o: "n \<noteq> dr_name d \<Longrightarrow> map_of us1 n = map_of us n" using u1 [of n] by simp
    have set: "dr_name ` set (d # ds) = insert (dr_name d) (dr_name ` set ds)" by simp
    show "(n \<in> dr_name ` set (d # ds) \<longrightarrow> (\<exists>t. map_of cp' n = Some t \<and> token_ok t))
        \<and> (n \<notin> dr_name ` set (d # ds) \<longrightarrow> map_of cp' n = map_of cp n \<and> map_of us' n = map_of us n)
        \<and> (n \<in> dr_name ` set (d # ds) \<longrightarrow> (\<forall>t. map_of us' n = Some t \<longrightarrow> token_ok t \<or> map_of us n = Some t))"
    proof (cases "n \<in> dr_name ` set ds")
      case True
      then show ?thesis using IH u unfolding set by blast
    next
      case False
      then show ?thesis using IH u o t(1) unfolding set by (cases "n = dr_name d") simp_all
    qed
  qed
qed simp

lemma startBigbrain_parts:
  assumes "startBigbrain labelErrs dnsErrs getenv bs k8s = Inr sv"
  shows "\<exists>ds ringSize. parseDeployments labelErrs dnsErrs (env getenv ''BIGBRAIN_DEPLOYMENTS'' '''') = Inr ds
    \<and> ds \<noteq> [] \<and> sv_registry sv = registerAll ds (NewRegistry bs)
    \<and> loadDeploymentTokens getenv ds = Inr (sv_controlTokens sv, sv_usageTokens sv)
    \<and> 0 < ringSize \<and> sv_insights sv = NewInsights ringSize"
  using assms
  by (auto simp: startBigbrain_def buildRegistry_def not_le split: sum.splits if_splits prod.splits)

text \<open>
  C24: bigbrain starts in a sound state or not at all. When it starts, the registry is one the
  leader protocol can reach, with at least one deployment, pairwise different names that the
  Kubernetes validators accept, the configured namespaces, and nothing published yet (so it
  reports itself not ready); every deployment has a non-empty control-plane token that is safe
  in a header; usage tokens exist for registered deployments only; the ring of the insights
  has room.
\<close>

theorem startup_sound:
  assumes "startBigbrain labelErrs dnsErrs getenv bs k8s = Inr sv"
  shows "registry_reachable (sv_registry sv) \<and> Names (sv_registry sv) \<noteq> [] \<and> distinct (Names (sv_registry sv))
    \<and> readyz (sv_registry sv) = (503, ErrorMessage ''leadership not yet reconciled'')
    \<and> (\<forall>n \<in> set (Names (sv_registry sv)).
        labelErrs n = [] \<and> (\<exists>ns. Namespace (sv_registry sv) n = Some ns \<and> dnsErrs ns = [])
        \<and> \<not> Published (sv_registry sv) n \<and> (\<exists>t. map_of (sv_controlTokens sv) n = Some t \<and> token_ok t))
    \<and> (\<forall>n t. map_of (sv_usageTokens sv) n = Some t \<longrightarrow> n \<in> set (Names (sv_registry sv)) \<and> token_ok t)
    \<and> ins_inv (sv_insights sv)"
proof -
  obtain ds ringSize where ds: "parseDeployments labelErrs dnsErrs (env getenv ''BIGBRAIN_DEPLOYMENTS'' '''') = Inr ds"
    "ds \<noteq> []" "sv_registry sv = registerAll ds (NewRegistry bs)"
    "loadDeploymentTokens getenv ds = Inr (sv_controlTokens sv, sv_usageTokens sv)"
    "0 < ringSize" "sv_insights sv = NewInsights ringSize"
    using startBigbrain_parts [OF assms] by blast
  have ok: "refs_ok labelErrs dnsErrs ds"
    using parseParts_ok [of labelErrs dnsErrs "[]"] ds(1) by (simp add: parseDeployments_def refs_ok_def)
  then have deps: "deps (sv_registry sv) = map (\<lambda>d. (dr_name d, freshRecord d)) ds"
    using registerAll_deps ds(3) by (simp add: refs_ok_def)
  then have names: "Names (sv_registry sv) = map dr_name ds" by (simp add: Names_def)
  have rec: "map_of (deps (sv_registry sv)) (dr_name d) = Some (freshRecord d)" if "d \<in> set ds" for d
    using that ok deps by (auto simp: refs_ok_def o_def)
  have toks: "(n \<in> dr_name ` set ds \<longrightarrow> (\<exists>t. map_of (sv_controlTokens sv) n = Some t \<and> token_ok t))
      \<and> (n \<notin> dr_name ` set ds \<longrightarrow> map_of (sv_usageTokens sv) n = None)
      \<and> (\<forall>t. map_of (sv_usageTokens sv) n = Some t \<longrightarrow> n \<in> dr_name ` set ds \<longrightarrow> token_ok t)" for n
    using loadTokens_ok [OF ds(4) [unfolded loadDeploymentTokens_def]] by simp
  then have us: "\<forall>n t. map_of (sv_usageTokens sv) n = Some t \<longrightarrow> n \<in> dr_name ` set ds \<and> token_ok t"
    by (metis option.distinct(1))
  have "registry_reachable (sv_registry sv)"
    unfolding ds(3) by (intro registerAll_reachable registry_reachable.new)
  moreover have "\<not> AllPublished (sv_registry sv)"
    using ds(2) by (cases ds) (simp_all add: AllPublished_def deps freshRecord_def)
  ultimately show ?thesis
    using names ds(2,5,6) ok rec us toks
    by (auto simp: refs_ok_def readyz_def Namespace_def Published_def freshRecord_def ins_inv_new)
qed

definition sampleEnv :: "string \<Rightarrow> string" where
  "sampleEnv k =
     (if k = ''BIGBRAIN_DEPLOYMENTS'' then ''dev=ns1, prod''
      else if k = ''BIGBRAIN_CONTROL_PLANE_TOKEN_0'' \<or> k = ''BIGBRAIN_CONTROL_PLANE_TOKEN_1'' then ''secret''
      else if k = ''BIGBRAIN_USAGE_TOKEN_0'' then ''key'' @ [CHR 0xC2, CHR 0xA0]
      else '''')"

lemma sample_start:
  "case startBigbrain (\<lambda>_. []) (\<lambda>_. []) sampleEnv [1] True of
     Inl _ \<Rightarrow> False
   | Inr sv \<Rightarrow> Names (sv_registry sv) = [''dev'', ''prod''] \<and> Namespace (sv_registry sv) ''dev'' = Some ''ns1''
       \<and> sv_usageTokens sv = [(''dev'', ''key'' @ [CHR 0xC2, CHR 0xA0])]"
  by code_simp

theorem startup_sound_witness:
  "\<exists>sv. startBigbrain (\<lambda>_. []) (\<lambda>_. []) sampleEnv [1] True = Inr sv \<and> registry_reachable (sv_registry sv)
     \<and> (\<exists>t. map_of (sv_controlTokens sv) ''prod'' = Some t \<and> token_ok t)"
proof -
  obtain sv where sv: "startBigbrain (\<lambda>_. []) (\<lambda>_. []) sampleEnv [1] True = Inr sv"
    "Names (sv_registry sv) = [''dev'', ''prod'']"
    using sample_start by (auto split: sum.splits)
  show ?thesis using startup_sound [OF sv(1)] sv by auto
qed

section \<open>The bootstrap list round-trips\<close>

definition formatRef :: "deploymentRef \<Rightarrow> string" where
  "formatRef d = dr_name d @ CHR ''='' # dr_namespace d"

definition plainText :: "string \<Rightarrow> bool" where
  "plainText s = (s \<noteq> '''' \<and> list_all (\<lambda>c. graphic c \<and> c \<noteq> CHR '','' \<and> c \<noteq> CHR ''='') s)"

lemma TrimSpace_graphic: "s \<noteq> [] \<Longrightarrow> list_all graphic s \<Longrightarrow> TrimSpace s = s"
  using TrimSpace_blanks [of s 0 0] by (simp add: list_all_iff)

lemma plain_graphic: "plainText s \<Longrightarrow> s \<noteq> [] \<and> list_all graphic s \<and> CHR '','' \<notin> set s \<and> CHR ''='' \<notin> set s"
  by (auto simp: plainText_def list_all_iff)

lemma parseParts_format:
  "refs_ok labelErrs dnsErrs (out @ ds) \<Longrightarrow> \<forall>d \<in> set ds. plainText (dr_name d) \<and> plainText (dr_namespace d) \<Longrightarrow>
     parseParts labelErrs dnsErrs (map formatRef ds) out = Inr (out @ ds)"
proof (induction ds arbitrary: out)
  case (Cons d ds)
  note n = plain_graphic [of "dr_name d"] and s = plain_graphic [of "dr_namespace d"]
  have p: "plainText (dr_name d)" "plainText (dr_namespace d)" using Cons.prems(2) by simp_all
  have "graphic (CHR ''='')" by (simp add: graphic_def)
  then have t: "TrimSpace (formatRef d) = formatRef d" "formatRef d \<noteq> ''''"
    using n s p TrimSpace_graphic [of "formatRef d"] by (simp_all add: formatRef_def)
  have "cutAt (CHR ''='') (formatRef d) = Some (dr_name d, dr_namespace d)"
    using n p by (simp add: formatRef_def cutAt_first)
  then have "parseEntry labelErrs dnsErrs (map dr_name out) (formatRef d) = Inr d"
    using n s p Cons.prems(1) TrimSpace_graphic [of "dr_name d"] TrimSpace_graphic [of "dr_namespace d"]
    by (simp add: parseEntry_def Let_def refs_ok_def)
  then show ?case using Cons.IH [of "out @ [d]"] Cons.prems t by simp
qed simp

text \<open>
  C39: any list of deployments can be configured: written as \<open>name=namespace\<close> entries with
  commas between them, deployments with distinct valid names and namespaces of printable
  characters are read back exactly.
\<close>

theorem deployments_roundtrip:
  assumes "refs_ok labelErrs dnsErrs ds"
    and "\<forall>d \<in> set ds. plainText (dr_name d) \<and> plainText (dr_namespace d)"
  shows "parseDeployments labelErrs dnsErrs (joinWith (CHR '','') (map formatRef ds)) = Inr ds"
proof (cases "ds = []")
  case True
  have "TrimSpace '''' = ''''" by code_simp
  then show ?thesis using True by (simp add: parseDeployments_def)
next
  case False
  have "CHR '','' \<notin> set (formatRef d)" if "d \<in> set ds" for d
    using assms(2) that plain_graphic by (auto simp: formatRef_def)
  then have "splitOn (CHR '','') (joinWith (CHR '','') (map formatRef ds)) = map formatRef ds"
    using False by (intro splitOn_joinWith) auto
  then show ?thesis using parseParts_format [of labelErrs dnsErrs "[]" ds] assms by (simp add: parseDeployments_def)
qed

theorem deployments_roundtrip_witness:
  "parseDeployments (\<lambda>_. []) (\<lambda>_. []) ''dev=ns1,prod=ns2''
     = Inr [\<lparr>dr_name = ''dev'', dr_namespace = ''ns1''\<rparr>, \<lparr>dr_name = ''prod'', dr_namespace = ''ns2''\<rparr>]"
proof -
  have "\<forall>d \<in> set [\<lparr>dr_name = ''dev'', dr_namespace = ''ns1''\<rparr>, \<lparr>dr_name = ''prod'', dr_namespace = ''ns2''\<rparr>].
      plainText (dr_name d) \<and> plainText (dr_namespace d)"
    by (simp add: plainText_def graphic_def)
  moreover have "refs_ok (\<lambda>_. []) (\<lambda>_. [])
      [\<lparr>dr_name = ''dev'', dr_namespace = ''ns1''\<rparr>, \<lparr>dr_name = ''prod'', dr_namespace = ''ns2''\<rparr>]"
    by (simp add: refs_ok_def)
  ultimately show ?thesis
    using deployments_roundtrip
      [of "\<lambda>_. []" "\<lambda>_. []" "[\<lparr>dr_name = ''dev'', dr_namespace = ''ns1''\<rparr>, \<lparr>dr_name = ''prod'', dr_namespace = ''ns2''\<rparr>]"]
    by (simp add: formatRef_def)
qed

section \<open>A token that is accepted and can never be presented\<close>

text \<open>
  \<open>headerSafe\<close> lets white space beyond ASCII pass, \<open>bearerToken\<close> trims it: a usage token that
  ends with a no-break space starts up, and no request is ever authorised by it.
\<close>

lemma bearerToken_trimmed:
  assumes "bearerToken h \<noteq> ''''"
  shows "stripOne (map rev whiteSpace) (rev (bearerToken h)) = None"
proof -
  have "bearerToken h = '''' \<or> (\<exists>rest. bearerToken h = TrimSpace rest)"
    by (auto simp: bearerToken_def Let_def split: option.splits prod.splits)
  then obtain rest where "bearerToken h = TrimSpace rest" using assms by blast
  then show ?thesis by (simp add: TrimSpace_def stripAll_done)
qed

theorem accepted_usage_token_unusable:
  "\<exists>sv. startBigbrain (\<lambda>_. []) (\<lambda>_. []) sampleEnv [1] True = Inr sv
     \<and> map_of (sv_usageTokens sv) ''dev'' \<noteq> None
     \<and> (\<forall>header. \<not> bearerOK (\<lambda>s. s) (sv_usageTokens sv) header ''dev'')"
proof -
  obtain sv where sv: "startBigbrain (\<lambda>_. []) (\<lambda>_. []) sampleEnv [1] True = Inr sv"
    "sv_usageTokens sv = [(''dev'', ''key'' @ [CHR 0xC2, CHR 0xA0])]"
    using sample_start by (auto split: sum.splits)
  have "stripOne (map rev whiteSpace) (rev (''key'' @ [CHR 0xC2, CHR 0xA0])) \<noteq> None" by code_simp
  then have "bearerToken header \<noteq> ''key'' @ [CHR 0xC2, CHR 0xA0]" for header
    using bearerToken_trimmed [of header] by auto
  then show ?thesis using sv by (simp add: bearerOK_def gget_def)
qed

end
