(* ===== verification/ScraperLoop.thy ===== *)
theory ScraperLoop
  imports Metrics BigbrainConfig GoTicker
begin

text \<open>
  The loop of the metrics scraper in time (\<open>Run\<close> of \<open>apiserver/scraper.go\<close>, started by
  \<open>startMetricsAPIServer\<close> of \<open>bigbrain/main.go\<close>), and the API server it feeds
  (\<open>apiserver/apiserver.go\<close>): a round lists the pods of every namespace and then scrapes them, each
  under a deadline of its own, all in parallel.
\<close>

definition scrapeTimeout :: duration where "scrapeTimeout = 2 * second"
definition listTimeout :: duration where "listTimeout = 5 * second"
definition metricsScrapeInterval :: duration where "metricsScrapeInterval = 5 * second"

section \<open>The API server\<close>

record apiserverConfig =
  SecurePort :: int
  CertDir :: string

definition apiserverArgs :: "apiserverConfig \<Rightarrow> string list" where
  "apiserverArgs conf = [''--secure-port='' @ FormatInt (SecurePort conf), ''--cert-dir='' @ CertDir conf]"

datatype 'e apiserverError = FlagsError 'e | ServerError 'e

text \<open>The library parses the flags (\<open>parse\<close>) and serves until its context ends (\<open>serve\<close>).\<close>

definition apiserverRun ::
  "(string list \<Rightarrow> 'e option) \<Rightarrow> 'e option \<Rightarrow> apiserverConfig \<Rightarrow> 'e apiserverError option" where
  "apiserverRun parse serve conf =
     (case parse (apiserverArgs conf) of
        Some e \<Rightarrow> Some (FlagsError e)
      | None \<Rightarrow> (case serve of Some e \<Rightarrow> Some (ServerError e) | None \<Rightarrow> None))"

section \<open>The scraper\<close>

record Scraper =
  sc_namespaces :: "string list"
  sc_interval :: duration
  sc_prov :: FunrunProvider

definition NewScraper :: "string list \<Rightarrow> duration \<Rightarrow> FunrunProvider \<Rightarrow> Scraper" where
  "NewScraper namespaces iv prov = \<lparr>sc_namespaces = namespaces, sc_interval = iv, sc_prov = prov\<rparr>"

definition metricsCertDir :: string where "metricsCertDir = ''/var/run/bigbrain-apiserver''"

text \<open>
  \<open>startMetricsAPIServer\<close>, if the API server is enabled: the scraper and the configuration of the
  server, which then run until bigbrain stops (their end is part of \<open>Lifecycle\<close>).
\<close>

definition startMetricsAPIServer ::
  "(string \<Rightarrow> string) \<Rightarrow> Registry \<Rightarrow> startError + (Scraper \<times> apiserverConfig) option" where
  "startMetricsAPIServer getenv rg =
     (case metricsPort getenv of
        Inl e \<Rightarrow> Inl e
      | Inr None \<Rightarrow> Inr None
      | Inr (Some port) \<Rightarrow>
          Inr (Some (NewScraper (metricsNamespaces rg) metricsScrapeInterval NewProvider,
                     \<lparr>SecurePort = port, CertDir = env getenv ''BIGBRAIN_METRICS_APISERVER_CERT_DIR'' metricsCertDir\<rparr>)))"

lemma namespacesLoop_exact:
  "set (namespacesLoop r ns out) = set out \<union> {s. \<exists>n \<in> set ns. Namespace r n = Some s}
   \<and> (distinct out \<longrightarrow> distinct (namespacesLoop r ns out))"
  by (induction ns arbitrary: out) (auto split: option.splits)

lemma started_scraper:
  assumes "startMetricsAPIServer getenv rg = Inr (Some (s, conf))"
  shows "sc_interval s = metricsScrapeInterval" "distinct (sc_namespaces s)"
    "set (sc_namespaces s) = {ns. \<exists>n \<in> set (Names rg). Namespace rg n = Some ns}"
    "1 \<le> SecurePort conf" "SecurePort conf \<le> 65535"
  using assms namespacesLoop_exact [of rg "Names rg" "[]"]
  by (auto simp: startMetricsAPIServer_def NewScraper_def metricsNamespaces_def metricsPort_def
      split: sum.splits option.splits bool.splits if_splits)

section \<open>Rounds in time\<close>

text \<open>
  What a round meets: the answers of the API server and of the pods, the instant at which each
  namespace has been listed, and the instant at which all are scraped.
\<close>

record 'e scrapeRound =
  sr_list :: "string \<Rightarrow> string \<Rightarrow> 'e + pod list"
  sr_fetch :: "string \<Rightarrow> (int \<times> string \<times> bool) option"
  sr_listed :: "string \<Rightarrow> instant"
  sr_end :: instant

fun scrapeRounds :: "(string \<Rightarrow> f64 option) \<Rightarrow> Scraper \<Rightarrow> 'e scrapeRound list \<Rightarrow> Scraper" where
  "scrapeRounds hex s [] = s"
| "scrapeRounds hex s (r # rs) =
     scrapeRounds hex
       (s\<lparr>sc_prov := scrapeAll (sr_list r) hex (sr_fetch r) (sr_listed r) (sc_namespaces s) (sc_prov s)\<rparr>) rs"

definition scrapeInTime :: "string list \<Rightarrow> instant \<Rightarrow> 'e scrapeRound \<Rightarrow> bool" where
  "scrapeInTime namespaces s r =
     (s \<le> sr_end r \<and> sr_end r \<le> s + (listTimeout + scrapeTimeout)
      \<and> (\<forall>ns \<in> set namespaces. s \<le> sr_listed r ns \<and> sr_listed r ns \<le> sr_end r))"

text \<open>The rounds of \<open>Run\<close>, whose ticker and first round start at \<open>t0\<close>.\<close>

definition scrapesInTime :: "Scraper \<Rightarrow> instant \<Rightarrow> 'e scrapeRound list \<Rightarrow> bool" where
  "scrapesInTime s t0 rs =
     list_all2 (scrapeInTime (sc_namespaces s)) (roundStarts (sc_interval s) t0 t0 (map sr_end rs)) rs"

interpretation scraper_loop: ticked_loop metricsScrapeInterval "listTimeout + scrapeTimeout"
  by unfold_locales (simp_all add: metricsScrapeInterval_def listTimeout_def scrapeTimeout_def second_def)

lemma scrapeRounds_snoc:
  "scrapeRounds hex s (rs @ [r]) = (let s' = scrapeRounds hex s rs in
     s'\<lparr>sc_prov := scrapeAll (sr_list r) hex (sr_fetch r) (sr_listed r) (sc_namespaces s') (sc_prov s')\<rparr>)
   \<and> sc_namespaces (scrapeRounds hex s rs) = sc_namespaces s"
  by (induction rs arbitrary: s) (simp_all add: Let_def)

lemma roundStarts_append:
  "roundStarts iv t0 s (es @ [d, e]) =
     roundStarts iv t0 s (es @ [d]) @ [nextRound iv t0 (last (roundStarts iv t0 s (es @ [d]))) d]"
proof (induction es arbitrary: s)
  case (Cons x es)
  have "roundStarts iv t0 (nextRound iv t0 s x) (es @ [d]) \<noteq> []"
    using length_roundStarts [of iv t0 "nextRound iv t0 s x" "es @ [d]"] by (auto simp del: length_roundStarts)
  then show ?case using Cons by simp
qed simp

lemma podSampleOf_ts: "podSampleOf hex fetch now p = Some s \<Longrightarrow> ps_ts s = now"
  by (auto simp: podSampleOf_def Let_def split: option.splits prod.splits if_splits)

text \<open>
  C33: served metrics are fresh, for the namespace of every deployment that bigbrain was started
  with. Between the end of one scraping round and the end of the next,
  every metric served, by name or by selector, was sampled from a pod that was listed in the last
  fourteen seconds: whatever fails, old samples are never served for longer.
\<close>

theorem metrics_fresh:
  assumes "startMetricsAPIServer getenv rg = Inr (Some (s, conf))" and "scrapesInTime s t0 (rs @ [r, q])"
    and "listing_ok (sr_list r)" and "sr_end r \<le> t" and "t \<le> sr_end q"
    and "p = sc_prov (scrapeRounds hex s (rs @ [r]))"
    and "GetMetricByName p (ns, name) info msel = Inr v
      \<or> (\<exists>vs. GetMetricBySelector p ns sel info msel = Inr vs \<and> v \<in> set vs)"
    and "n \<in> set (Names rg)" and "Namespace rg n = Some ns"
  shows "mv_Timestamp v \<le> t \<and> t \<le> mv_Timestamp v + 14 * second"
proof -
  let ?iv = metricsScrapeInterval and ?lim = "listTimeout + scrapeTimeout"
  let ?s = "last (roundStarts ?iv t0 t0 (map sr_end rs @ [sr_end r]))"
  note started = started_scraper [OF assms(1)]
  have ns: "ns \<in> set (sc_namespaces s)" using started(3) assms(8,9) by blast
  have lim: "?lim = 7 * second" by (simp add: listTimeout_def scrapeTimeout_def)
  have "roundStarts ?iv t0 t0 (map sr_end rs @ [sr_end r]) \<noteq> []"
    using length_roundStarts [of ?iv t0 t0 "map sr_end rs @ [sr_end r]"] by (auto simp del: length_roundStarts)
  then have starts: "roundStarts ?iv t0 t0 (map sr_end rs @ [sr_end r, sr_end q])
      = butlast (roundStarts ?iv t0 t0 (map sr_end rs @ [sr_end r])) @ [?s, nextRound ?iv t0 ?s (sr_end r)]"
    by (simp add: roundStarts_append)
  have "length (butlast (roundStarts ?iv t0 t0 (map sr_end rs @ [sr_end r]))) = length rs" by simp
  then have round: "scrapeInTime (sc_namespaces s) ?s r" "scrapeInTime (sc_namespaces s) (nextRound ?iv t0 ?s (sr_end r)) q"
    using started(1) assms(2) starts by (simp_all add: scrapesInTime_def list_all2_append)
  then have "nextRound ?iv t0 ?s (sr_end r) \<le> ?s + ?lim"
    by (intro scraper_loop.next_soon) (simp add: scrapeInTime_def)
  then have t: "t \<le> ?s + 14 * second" using round(2) assms(5) lim by (simp add: scrapeInTime_def)
  have c: "gwf (cache p)" "map_of (cache p) k = Some x \<longleftrightarrow> found (sr_list r) hex (sr_fetch r) (sr_listed r) (sc_namespaces s) k x" for k x
    using cache_iff [OF assms(3)] scrapeRounds_snoc [of hex s rs r] unfolding assms(6) by (simp_all add: Let_def)
  have "\<exists>x. found (sr_list r) hex (sr_fetch r) (sr_listed r) (sc_namespaces s) (ns, mv_Name v) x \<and> mv_Timestamp v = ps_ts x"
    using assms(7)
  proof (elim disjE exE conjE)
    assume "GetMetricByName p (ns, name) info msel = Inr v"
    then show ?thesis using c(2) by (auto simp: GetMetricByName_def metricFor_def split: if_splits option.splits)
  next
    fix vs assume "GetMetricBySelector p ns sel info msel = Inr vs" "v \<in> set vs"
    then obtain k x where k: "(k, x) \<in> set (cache p)" "fst k = ns" "v = metricFor k x"
      by (auto simp: GetMetricBySelector_def split: if_splits)
    then have "map_of (cache p) k = Some x" using c(1) by simp
    then show ?thesis using c(2) k by (cases k) (auto simp: metricFor_def)
  qed
  then have "mv_Timestamp v = sr_listed r ns" using podSampleOf_ts by (auto simp: found_def)
  moreover have "?s \<le> sr_listed r ns" "sr_listed r ns \<le> sr_end r"
    using round(1) ns by (simp_all add: scrapeInTime_def)
  ultimately show ?thesis using assms(4) t by simp
qed

definition sampleScrape :: "instant \<Rightarrow> string scrapeRound" where
  "sampleScrape e = \<lparr>sr_list = sampleList, sr_fetch = sampleFetch, sr_listed = (\<lambda>_. 5), sr_end = e\<rparr>"

definition sampleMetricsEnv :: "string \<Rightarrow> string" where
  "sampleMetricsEnv k = (if k = ''BIGBRAIN_METRICS_APISERVER_ENABLED'' then ''true'' else '''')"

definition sampleMetricsRegistry :: Registry where
  "sampleMetricsRegistry = EnsureDeployment (NewRegistry [1]) ''dev'' ''ns1''"

definition sampleScraper :: Scraper where
  "sampleScraper = NewScraper [''ns1''] metricsScrapeInterval NewProvider"

lemma sample_started:
  "startMetricsAPIServer sampleMetricsEnv sampleMetricsRegistry =
     Inr (Some (sampleScraper, \<lparr>SecurePort = 6443, CertDir = metricsCertDir\<rparr>))"
  "Names sampleMetricsRegistry = [''dev'']" "Namespace sampleMetricsRegistry ''dev'' = Some ''ns1''"
  by (simp_all add: startMetricsAPIServer_def metricsPort_def envBool_def envInt_def env_def ParseBool_def
      sampleMetricsEnv_def sampleMetricsRegistry_def sampleScraper_def metricsNamespaces_def
      EnsureDeployment_def NewRegistry_def Names_def Namespace_def)

theorem metrics_fresh_witness:
  "\<exists>v. GetMetricByName (sc_prov (scrapeRounds (\<lambda>_. None) sampleScraper [sampleScrape 6]))
      (''ns1'', ''funrun-0'') \<lparr>mi_Group = '''', mi_Resource = ''pods'', mi_Metric = MetricName\<rparr> (\<lambda>_. True) = Inr v
    \<and> mv_Timestamp v \<le> 7 \<and> 7 \<le> mv_Timestamp v + 14 * second"
proof -
  let ?s = sampleScraper
  let ?q = "(sampleScrape (5 * second))\<lparr>sr_listed := \<lambda>_. 5 * second\<rparr>"
  have n: "''dev'' \<in> set (Names sampleMetricsRegistry)" by (simp add: sample_started)
  have t: "scrapesInTime ?s 0 ([] @ [sampleScrape 6, ?q])"
    by (simp add: scrapesInTime_def scrapeInTime_def sampleScrape_def sampleScraper_def NewScraper_def nextRound_def tickAfter_def
        metricsScrapeInterval_def listTimeout_def scrapeTimeout_def second_def)
  have l: "listing_ok (sr_list (sampleScrape 6))" by (simp add: sampleScrape_def sampleList_ok)
  have "eligible sampleFunrun" by (simp add: eligible_def sampleFunrun_def PodReady_def)
  then have "found sampleList (\<lambda>_. None) sampleFetch (\<lambda>_. 5) [''ns1''] (''ns1'', ''funrun-0'')
      \<lparr>ps_labels = [], ps_value = 75000, ps_ts = 5\<rparr>"
    using sample_round by (simp add: found_def sampleList_def) (simp add: sampleFunrun_def)
  then have "map_of (cache (sc_prov (scrapeRounds (\<lambda>_. None) ?s [sampleScrape 6]))) (''ns1'', ''funrun-0'')
      = Some \<lparr>ps_labels = [], ps_value = 75000, ps_ts = 5\<rparr>"
    using cache_iff [OF sampleList_ok] by (simp add: sampleScrape_def sampleScraper_def NewScraper_def)
  then obtain v where v: "GetMetricByName (sc_prov (scrapeRounds (\<lambda>_. None) ?s [sampleScrape 6])) (''ns1'', ''funrun-0'')
      \<lparr>mi_Group = '''', mi_Resource = ''pods'', mi_Metric = MetricName\<rparr> (\<lambda>_. True) = Inr v"
    by (simp add: GetMetricByName_def knownMetric_def matchesUnlabeledMetric_def)
  have "sr_end (sampleScrape 6) \<le> 7" "7 \<le> sr_end ?q" by (simp_all add: sampleScrape_def second_def)
  from metrics_fresh [OF sample_started(1) t l this refl disjI1 n sample_started(3), unfolded append_Nil, OF v] v show ?thesis by blast
qed

end
