(* ===== verification/RequestFlow.thy ===== *)
theory RequestFlow
  imports UsherConfig
begin

text \<open>
  A request through the whole of usher (\<open>usher/main.go\<close>): from \<open>newMux\<close> over the checks of
  \<open>serveHTTP\<close> and the rewritten request to the leader, and back through \<open>ModifyResponse\<close> or
  \<open>ErrorHandler\<close>. The backends are the argument \<open>up\<close>: what the transport returns for a request.
  What \<open>httputil.ReverseProxy\<close> does to a response besides is not modelled; that it refuses an upgrade to a
  protocol of unprintable name by itself is an answer of \<open>up\<close>.
\<close>

section \<open>Responses\<close>

text \<open>\<open>http.Error\<close>, with \<open>Retry-After\<close> or not, and the answer of a probe.\<close>

definition httpError :: "int \<Rightarrow> string \<Rightarrow> bool \<Rightarrow> response" where
  "httpError code msg retry =
     (let h = hSet ''X-Content-Type-Options'' ''nosniff''
                (hSet ''Content-Type'' ''text/plain; charset=utf-8'' [])
      in \<lparr>rs_StatusCode = code, rs_Header = (if retry then hSet ''Retry-After'' ''1'' h else h), rs_Body = msg @ [CHR 0x0A]\<rparr>)"

definition probeResponse :: response where
  "probeResponse = \<lparr>rs_StatusCode = 200, rs_Header = [], rs_Body = ''ok''\<rparr>"

section \<open>The reverse proxy\<close>

text \<open>A request to a backend fails (the client may have gone), or is answered.\<close>

type_synonym upstream = "outRequest \<Rightarrow> bool \<times> upstreamError + response"

definition proxyServe ::
  "(string \<Rightarrow> string) \<Rightarrow> instant \<Rightarrow> instant \<Rightarrow> instant \<Rightarrow> instant \<Rightarrow> tracker \<Rightarrow> url \<Rightarrow> request \<Rightarrow> upstream \<Rightarrow> tracker \<times> response option" where
  "proxyServe reencode n1 n2 n3 n4 t u r up =
     (case up (Rewrite reencode u r) of
        Inl (gone, err) \<Rightarrow>
          (case ErrorHandler n1 n2 n3 n4 t gone err of
             (t', Some (Rejected code msg retry)) \<Rightarrow> (t', Some (httpError code msg retry))
           | (t', _) \<Rightarrow> (t', None))
      | Inr resp \<Rightarrow> (case ModifyResponse n3 n4 t resp of (t', resp') \<Rightarrow> (t', Some resp')))"

text \<open>What is answered without a backend.\<close>

definition ownResponse :: "verdict \<Rightarrow> response option" where
  "ownResponse v =
     (case v of
        Rejected code msg retry \<Rightarrow> Some (httpError code msg retry)
      | ProbeOk \<Rightarrow> Some probeResponse
      | ProxyTo u \<Rightarrow> None)"

text \<open>\<open>newMux\<close> with everything behind it; no response means that the client has gone.\<close>

definition serveUsher ::
  "(string \<Rightarrow> string) \<Rightarrow> (string \<Rightarrow> string) \<Rightarrow> (string, route) gomap \<Rightarrow> string \<Rightarrow> instant \<Rightarrow> instant \<Rightarrow> instant \<Rightarrow> instant
    \<Rightarrow> tracker list \<Rightarrow> request \<Rightarrow> upstream \<Rightarrow> tracker list \<times> response option" where
  "serveUsher reencode tbl routes monoHost n1 n2 n3 n4 trackers r up =
     (case newMux tbl routes monoHost n1 n2 trackers r of
        (trackers1, v) \<Rightarrow>
          (case (v, routeOf tbl routes monoHost r) of
             (ProxyTo u, Some rt) \<Rightarrow>
               (case proxyServe reencode n1 n2 n3 n4 (trackers1 ! rt_tracker rt) u r up of
                  (t, resp) \<Rightarrow> (trackers1[rt_tracker rt := t], resp))
           | _ \<Rightarrow> (trackers1, ownResponse v)))"

section \<open>One deployment, its leader, and nobody else\<close>

text \<open>What serving a request leaves of a tracker: everything that decides where requests go.\<close>

definition sameLeader :: "tracker \<Rightarrow> tracker \<Rightarrow> bool" where
  "sameLeader t t' =
     (curURL t' = curURL t \<and> proxy t' = proxy t \<and> siteProxy t' = siteProxy t \<and> lastEpoch t' = lastEpoch t
      \<and> lastAppliedSeq t' = lastAppliedSeq t \<and> resolved t' = resolved t \<and> t_name t' = t_name t)"

lemma sameLeader_simps [simp]:
  "sameLeader t t" "sameLeader t (t\<lparr>noLeaderLog := x\<rparr>)" "sameLeader t (t\<lparr>upstreamErrLog := x\<rparr>)"
  "sameLeader t (nudgeResolve t a b)" "sameLeader t (nudgeResolve (t\<lparr>upstreamErrLog := x\<rparr>) a b)"
  by (simp_all add: sameLeader_def nudgeResolve_def wakeResolve_def)

lemma serveHTTP_same:
  "serveHTTP tbl n1 n2 t r site = (t', v) \<Longrightarrow>
     sameLeader t t' \<and> (\<forall>u. v = ProxyTo u \<longrightarrow> t' = t \<and> currentLeader t site = Some u) \<and> v \<noteq> ProbeOk"
  by (auto simp: serveHTTP_def split: if_splits option.splits)

lemma gate_name:
  "followerGateHeader \<notin> {''Retry-After'', ''Content-Length'', ''Content-Type'', ''X-Content-Type-Options''}"
  by (simp add: followerGateHeader_def)

lemma hValues_Nil [simp]: "hValues [] k = []"
  by (simp add: hValues_def)

lemma hidden_gate [simp]:
  "hValues (rs_Header (httpError code msg retry)) followerGateHeader = []"
  "hValues (rs_Header probeResponse) followerGateHeader = []"
  using gate_name by (auto simp: httpError_def probeResponse_def Let_def)

lemma ModifyResponse_hides:
  "ModifyResponse a b t resp = (t', resp') \<Longrightarrow>
     sameLeader t t' \<and> hValues (rs_Header resp') followerGateHeader = []"
  using gate_name by (auto simp: ModifyResponse_def Let_def split: if_splits)

lemma proxyServe_same:
  "proxyServe reencode n1 n2 n3 n4 t u r up = (t', resp) \<Longrightarrow> sameLeader t t'
    \<and> (\<forall>q. resp = Some q \<longrightarrow> hValues (rs_Header q) followerGateHeader = [])
    \<and> (resp = None \<longrightarrow> (\<exists>err. up (Rewrite reencode u r) = Inl (True, err)))"
  by (auto simp: proxyServe_def ErrorHandler_def Let_def split: sum.splits prod.splits if_splits
      dest: ModifyResponse_hides)

lemma newMux_cases:
  assumes "newMux tbl routes monoHost n1 n2 trackers r = (trackers1, v)"
    and "\<forall>k rt. map_of routes k = Some rt \<longrightarrow> rt_tracker rt < length trackers"
  obtains (own) "ownResponse v \<noteq> None" "length trackers1 = length trackers"
      "\<forall>i < length trackers. sameLeader (trackers ! i) (trackers1 ! i)
        \<and> ((\<forall>rt. routeOf tbl routes monoHost r = Some rt \<longrightarrow> rt_tracker rt \<noteq> i) \<longrightarrow> trackers1 ! i = trackers ! i)"
  | (backend) rt u where "routeOf tbl routes monoHost r = Some rt" "v = ProxyTo u" "trackers1 = trackers"
      "currentLeader (trackers ! rt_tracker rt) (rt_site rt) = Some u" "rt_tracker rt < length trackers"
proof (cases "routeOf tbl routes monoHost r")
  case None
  then show thesis using assms(1) by (intro own) (auto simp: newMux_def serveProbe_def ownResponse_def)
next
  case (Some rt)
  then have l: "rt_tracker rt < length trackers"
    using assms(2) by (auto simp: routeOf_def split: option.splits if_splits)
  obtain t where t: "serveHTTP tbl n1 n2 (trackers ! rt_tracker rt) r (rt_site rt) = (t, v)"
    "trackers1 = trackers[rt_tracker rt := t]"
    using assms(1) Some by (auto simp: newMux_def split: prod.splits)
  note s = serveHTTP_same [OF t(1)]
  show thesis
  proof (cases "\<exists>u. v = ProxyTo u")
    case True
    then show thesis using s t(2) Some l by (auto intro: backend)
  next
    case False
    then have "ownResponse v \<noteq> None" by (cases v) (auto simp: ownResponse_def)
    moreover have "sameLeader (trackers ! i) (trackers1 ! i)
        \<and> ((\<forall>rt. routeOf tbl routes monoHost r = Some rt \<longrightarrow> rt_tracker rt \<noteq> i) \<longrightarrow> trackers1 ! i = trackers ! i)"
      if "i < length trackers" for i
      using s t(2) Some l that by (cases "i = rt_tracker rt") simp_all
    ultimately show thesis using t(2) by (intro own) simp_all
  qed
qed

text \<open>
  C8: what a request can do in usher. It touches one tracker at most, that of the deployment its
  host is routed to, and never any tracker's leader; the only backend that is consulted is the
  current leader of this deployment, with the rewritten request (what any other backend would
  answer makes no difference); the gate header never reaches the client; and the client is left
  without a response only when it has gone.
\<close>

theorem requests_isolated:
  assumes "serveUsher reencode tbl routes monoHost n1 n2 n3 n4 trackers r up = (trackers', resp)"
    and "\<forall>k rt. map_of routes k = Some rt \<longrightarrow> rt_tracker rt < length trackers"
  shows "length trackers' = length trackers
    \<and> (\<forall>i < length trackers. sameLeader (trackers ! i) (trackers' ! i)
         \<and> ((\<forall>rt. routeOf tbl routes monoHost r = Some rt \<longrightarrow> rt_tracker rt \<noteq> i) \<longrightarrow> trackers' ! i = trackers ! i))
    \<and> (\<forall>up'. (\<forall>rt u. routeOf tbl routes monoHost r = Some rt
           \<and> currentLeader (trackers ! rt_tracker rt) (rt_site rt) = Some u \<longrightarrow> up' (Rewrite reencode u r) = up (Rewrite reencode u r)) \<longrightarrow>
         serveUsher reencode tbl routes monoHost n1 n2 n3 n4 trackers r up' = (trackers', resp))
    \<and> (\<forall>q. resp = Some q \<longrightarrow> hValues (rs_Header q) followerGateHeader = [])
    \<and> (resp = None \<longrightarrow> (\<exists>rt u err. routeOf tbl routes monoHost r = Some rt
           \<and> currentLeader (trackers ! rt_tracker rt) (rt_site rt) = Some u \<and> up (Rewrite reencode u r) = Inl (True, err)))"
proof -
  obtain trackers1 v where m: "newMux tbl routes monoHost n1 n2 trackers r = (trackers1, v)"
    by (cases "newMux tbl routes monoHost n1 n2 trackers r")
  show ?thesis
    using m assms(2)
  proof (cases rule: newMux_cases)
    case own
    then have "serveUsher reencode tbl routes monoHost n1 n2 n3 n4 trackers r up' = (trackers1, ownResponse v)" for up'
      using m by (cases v) (auto simp: serveUsher_def ownResponse_def split: option.splits)
    then have "trackers' = trackers1" "resp = ownResponse v"
      "\<And>up'. serveUsher reencode tbl routes monoHost n1 n2 n3 n4 trackers r up' = (trackers', resp)"
      using assms(1) by auto
    then show ?thesis using own by (auto simp: ownResponse_def split: verdict.splits)
  next
    case (backend rt u)
    have eq: "serveUsher reencode tbl routes monoHost n1 n2 n3 n4 trackers r up' =
        (case proxyServe reencode n1 n2 n3 n4 (trackers ! rt_tracker rt) u r up' of (t, resp) \<Rightarrow> (trackers[rt_tracker rt := t], resp))" for up'
      using m backend by (simp add: serveUsher_def)
    obtain t where t: "proxyServe reencode n1 n2 n3 n4 (trackers ! rt_tracker rt) u r up = (t, resp)"
      "trackers' = trackers[rt_tracker rt := t]"
      using assms(1) eq [of up] by (auto split: prod.splits)
    have "proxyServe reencode n1 n2 n3 n4 (trackers ! rt_tracker rt) u r up' = (t, resp)"
      if "up' (Rewrite reencode u r) = up (Rewrite reencode u r)" for up'
      using t(1) that by (simp add: proxyServe_def)
    then have "serveUsher reencode tbl routes monoHost n1 n2 n3 n4 trackers r up' = (trackers', resp)"
      if "up' (Rewrite reencode u r) = up (Rewrite reencode u r)" for up'
      using eq [of up'] t(2) that by simp
    then show ?thesis
      using proxyServe_same [OF t(1)] t(2) backend by (auto simp: nth_list_update)
  qed
qed

text \<open>A site request whose leader answers with the follower gate.\<close>

definition sampleFlow :: "tracker list \<times> response option" where
  "sampleFlow =
     (let t = fst (applyLeader sampleParse (newTracker ''site.example'' ''http://bigbrain:8081'' ''dev'' 0)
                (noResponse\<lparr>lr_LeaderURL := ''http://a:3210'', lr_Seq := 1, lr_Epoch := 1\<rparr>) True)
      in serveUsher (\<lambda>s. s) (\<lambda>s. s) [(''site.example'', \<lparr>rt_tracker = 0, rt_site = True\<rparr>)] '''' 0 0 0 0 [t]
           (sampleRequest ''site.example'' ''/x'') (\<lambda>_. Inr gatedReply))"

lemma sampleFlow_answer: "\<not> Option.is_none (snd sampleFlow)" "rs_StatusCode (the (snd sampleFlow)) = 503"
  by code_simp+

theorem requests_isolated_witness:
  "rs_StatusCode (the (snd sampleFlow)) = 503 \<and> hValues (rs_Header (the (snd sampleFlow))) followerGateHeader = []"
proof -
  have *: "map_of [(''site.example'', \<lparr>rt_tracker = 0, rt_site = True\<rparr>)] k = Some rt \<Longrightarrow> rt_tracker rt < length [t]"
    for k :: string and rt :: route and t :: tracker
    by (auto split: if_splits)
  obtain q where "snd sampleFlow = Some q"
    using sampleFlow_answer(1) by (cases "snd sampleFlow") (auto simp: Option.is_none_def)
  then have "hValues (rs_Header q) followerGateHeader = []"
    using requests_isolated [OF sampleFlow_def [unfolded Let_def, symmetric, THEN trans, OF prod.collapse [symmetric]]] *
    by blast
  with \<open>snd sampleFlow = Some q\<close> show ?thesis
    using sampleFlow_answer(2) by simp
qed

end
