(* ===== verification/Transports.thy ===== *)
theory Transports
  imports RouterLoop
begin

text \<open>
  What usher hands to \<open>net/http\<close> (\<open>usher/main.go\<close>): the transports to bigbrain and to the backends,
  the options of both HTTP servers, and the pool of the copy buffers of the reverse proxies.
\<close>

section \<open>Transports\<close>

text \<open>The fields the code sets; \<open>restTransport\<close> stands for all others. A proxy function is opaque.\<close>

record keepAliveConfig =
  ka_Enable :: bool
  ka_Idle :: duration
  ka_Interval :: duration
  ka_Count :: int

record dialer =
  dl_Timeout :: duration
  dl_KeepAlive :: keepAliveConfig

record ('p, 'o) transport =
  tr_Proxy :: "'p option"
  tr_Dialer :: "dialer option"
  tr_MaxIdleConns :: int
  tr_MaxIdleConnsPerHost :: int
  tr_ResponseHeaderTimeout :: duration
  tr_IdleConnTimeout :: duration
  restTransport :: 'o

definition upstreamDialTimeout :: duration where "upstreamDialTimeout = 5 * second"
definition upstreamKeepAlive :: duration where "upstreamKeepAlive = 15 * second"
definition upstreamKeepAliveProbes :: int where "upstreamKeepAliveProbes = 3"
definition idleTimeout :: duration where "idleTimeout = 120 * second"
definition readHeaderTimeout :: duration where "readHeaderTimeout = 10 * second"
definition maxHeaderBytes :: int where "maxHeaderBytes = 64 * 1024"

text \<open>
  A clone of \<open>http.DefaultTransport\<close> if that is a transport (\<open>dt\<close>), otherwise one with zero fields
  (\<open>zero\<close> is the zero value of the others).
\<close>

definition clonedDefaultTransport :: "('p, 'o) transport option \<Rightarrow> 'o \<Rightarrow> ('p, 'o) transport" where
  "clonedDefaultTransport dt zero =
     (case dt of
        Some tr \<Rightarrow> tr
      | None \<Rightarrow> \<lparr>tr_Proxy = None, tr_Dialer = None, tr_MaxIdleConns = 0, tr_MaxIdleConnsPerHost = 0,
                 tr_ResponseHeaderTimeout = 0, tr_IdleConnTimeout = 0, restTransport = zero\<rparr>)"

definition newProxyTransport :: "('p, 'o) transport option \<Rightarrow> 'o \<Rightarrow> ('p, 'o) transport" where
  "newProxyTransport dt zero = (clonedDefaultTransport dt zero)
     \<lparr>tr_Proxy := None, tr_MaxIdleConns := 1024, tr_MaxIdleConnsPerHost := 512,
      tr_Dialer := Some \<lparr>dl_Timeout = upstreamDialTimeout,
        dl_KeepAlive = \<lparr>ka_Enable = True, ka_Idle = upstreamKeepAlive, ka_Interval = upstreamKeepAlive,
                        ka_Count = upstreamKeepAliveProbes\<rparr>\<rparr>\<rparr>"

definition newControlPlaneTransport :: "('p, 'o) transport option \<Rightarrow> 'o \<Rightarrow> ('p, 'o) transport" where
  "newControlPlaneTransport dt zero = (clonedDefaultTransport dt zero)
     \<lparr>tr_Proxy := None, tr_ResponseHeaderTimeout := resolveTimeout, tr_MaxIdleConns := 16,
      tr_MaxIdleConnsPerHost := 4, tr_IdleConnTimeout := idleTimeout\<rparr>"

text \<open>No request of usher is sent through a proxy of the environment.\<close>

lemma transports_direct:
  "tr_Proxy (newProxyTransport dt zero) = None" "tr_Proxy (newControlPlaneTransport dt zero) = None"
  by (simp_all add: newProxyTransport_def newControlPlaneTransport_def)

text \<open>
  A dead peer of an established connection is noticed within a minute: the idle time and the
  unanswered probes, as \<open>net.KeepAliveConfig\<close> documents them.
\<close>

definition deadPeerAfter :: "keepAliveConfig \<Rightarrow> duration" where
  "deadPeerAfter ka = ka_Idle ka + ka_Count ka * ka_Interval ka"

lemma dead_upstream_noticed:
  "\<exists>dl. tr_Dialer (newProxyTransport dt zero) = Some dl \<and> ka_Enable (dl_KeepAlive dl)
     \<and> deadPeerAfter (dl_KeepAlive dl) = 60 * second"
  by (simp add: newProxyTransport_def deadPeerAfter_def upstreamKeepAlive_def upstreamKeepAliveProbes_def)

section \<open>HTTP servers\<close>

text \<open>The options of \<open>http.Server\<close>; zero is no limit.\<close>

record serverOptions =
  so_ReadHeaderTimeout :: duration
  so_ReadTimeout :: duration
  so_IdleTimeout :: duration
  so_MaxHeaderBytes :: int

definition usherServer :: serverOptions where
  "usherServer = \<lparr>so_ReadHeaderTimeout = readHeaderTimeout, so_ReadTimeout = 0,
     so_IdleTimeout = idleTimeout, so_MaxHeaderBytes = maxHeaderBytes\<rparr>"

definition bigbrainServer :: serverOptions where
  "bigbrainServer = \<lparr>so_ReadHeaderTimeout = 10 * second, so_ReadTimeout = 15 * second,
     so_IdleTimeout = 60 * second, so_MaxHeaderBytes = 64 * 1024\<rparr>"

section \<open>The buffer pool\<close>

text \<open>
  Buffers are addresses. \<open>sync.Pool\<close> gives back one of the buffers put into it, or none at its own
  choice (\<open>pick\<close>), and may drop what it holds. \<open>bp_lent\<close> are the buffers the proxies copy with.
\<close>

record bufferPool =
  bp_free :: "nat list"
  bp_lent :: "nat list"
  bp_fresh :: nat

definition poolGet :: "nat option \<Rightarrow> bufferPool \<Rightarrow> bufferPool" where
  "poolGet pick p =
     (case pick of
        Some b \<Rightarrow> p\<lparr>bp_free := remove1 b (bp_free p), bp_lent := b # bp_lent p\<rparr>
      | None \<Rightarrow> p\<lparr>bp_fresh := bp_fresh p + 1, bp_lent := bp_fresh p # bp_lent p\<rparr>)"

definition poolPut :: "nat \<Rightarrow> bufferPool \<Rightarrow> bufferPool" where
  "poolPut b p = p\<lparr>bp_free := b # bp_free p, bp_lent := remove1 b (bp_lent p)\<rparr>"

inductive poolReachable :: "bufferPool \<Rightarrow> bool" where
  empty: "poolReachable \<lparr>bp_free = [], bp_lent = [], bp_fresh = 0\<rparr>"
| get: "poolReachable p \<Longrightarrow> (case pick of Some b \<Rightarrow> b \<in> set (bp_free p) | None \<Rightarrow> True) \<Longrightarrow> poolReachable (poolGet pick p)"
| put: "poolReachable p \<Longrightarrow> b \<in> set (bp_lent p) \<Longrightarrow> poolReachable (poolPut b p)"
| drop: "poolReachable p \<Longrightarrow> poolReachable (p\<lparr>bp_free := remove1 b (bp_free p)\<rparr>)"

text \<open>
  Two responses are never copied with the same buffer, although buffers are used again and again
  (the reverse proxy puts back each buffer it got, once).
\<close>

lemma buffers_never_shared:
  "poolReachable p \<Longrightarrow> distinct (bp_free p @ bp_lent p) \<and> (\<forall>b \<in> set (bp_free p @ bp_lent p). b < bp_fresh p)"
proof (induction rule: poolReachable.induct)
  case (get p pick)
  then show ?case
    by (cases pick) (auto simp: poolGet_def less_Suc_eq dest: notin_set_remove1)
next
  case (put p b)
  then show ?case by (auto simp: poolPut_def)
next
  case (drop p b)
  then show ?case by (auto dest: notin_set_remove1 simp: distinct_remove1)
qed simp

end
