(* ===== verification/Lifecycle.thy ===== *)
theory Lifecycle
  imports Prelude
begin

text \<open>
  How the two programs stop (\<open>run\<close> and \<open>shutdown\<close> of \<open>bigbrain/main.go\<close>, \<open>run\<close> of
  \<open>usher/main.go\<close>): the main goroutine and the goroutines it waits for, interleaved, with
  explicit time. Time passes only while nobody can proceed, and not beyond a deadline that
  somebody waits for; nothing is assumed of how long reconcile loops, actuations and requests
  take. \<open>drain\<close> is the time bigbrain grants its controller and its metrics server
  (\<open>ActuationTimeout\<close> and the slack); usher has none.
\<close>

section \<open>State\<close>

definition shutdownTimeout :: duration where "shutdownTimeout = 10 * second"
definition actuationDrainSlack :: duration where "actuationDrainSlack = 5 * second"

text \<open>The main goroutine: waiting for the context, in \<open>Shutdown\<close>, in \<open>wg.Wait\<close>, at \<open>serveErr\<close>, gone.\<close>

datatype mainPhase = Serving | Closing | Draining | Joining | Exited int

text \<open>The goroutine that serves: still listening, or what it has sent to \<open>serveErr\<close>.\<close>

datatype serverState = Listening | ServeFailed | ServeClosed

text \<open>
  \<open>p_done\<close> is the channel leader streams watch, \<open>p_closing\<close> that \<open>Shutdown\<close> has been called;
  open streams, other requests, reconcile loops and actuations are counted. \<open>p_stopAt\<close> and
  \<open>p_busy\<close> remember when the program began to stop, and the requests then in flight.
\<close>

record process =
  p_clock :: instant
  p_main :: mainPhase
  p_canceled :: bool
  p_server :: serverState
  p_closing :: bool
  p_done :: bool
  p_streams :: nat
  p_requests :: nat
  p_loops :: nat
  p_tasks :: nat
  p_scraping :: bool
  p_api :: bool
  p_apiFailed :: bool
  p_httpBy :: instant
  p_drainBy :: instant
  p_stopAt :: instant
  p_busy :: nat

text \<open>A program that has started, with its reconcile loops and perhaps its metrics server.\<close>

definition startProcess :: "instant \<Rightarrow> nat \<Rightarrow> bool \<Rightarrow> process" where
  "startProcess now loops metrics =
     \<lparr>p_clock = now, p_main = Serving, p_canceled = False, p_server = Listening, p_closing = False,
      p_done = False, p_streams = 0, p_requests = 0, p_loops = loops, p_tasks = 0, p_scraping = metrics,
      p_api = metrics, p_apiFailed = False, p_httpBy = now, p_drainBy = now, p_stopAt = now, p_busy = 0\<rparr>"

section \<open>Steps\<close>

text \<open>Leaving \<open><-ctx.Done()\<close>: bigbrain closes the channel of its streams, then both call \<open>Shutdown\<close>.\<close>

definition beginStop :: "duration option \<Rightarrow> process \<Rightarrow> process" where
  "beginStop drain s =
     s\<lparr>p_main := Closing, p_done := (drain \<noteq> None), p_closing := True,
       p_httpBy := p_clock s + shutdownTimeout, p_stopAt := p_clock s, p_busy := p_requests s\<rparr>"

definition httpIdle :: "process \<Rightarrow> bool" where
  "httpIdle s = (p_streams s = 0 \<and> p_requests s = 0)"

definition endShutdown :: "duration option \<Rightarrow> process \<Rightarrow> process" where
  "endShutdown drain s =
     (case drain of
        None \<Rightarrow> s\<lparr>p_main := Joining\<rparr>
      | Some d \<Rightarrow> s\<lparr>p_main := Draining, p_drainBy := p_clock s + d\<rparr>)"

text \<open>\<open>ctrlDone\<close> and \<open>metricsDone\<close> are closed.\<close>

definition drained :: "process \<Rightarrow> bool" where
  "drained s = (p_loops s = 0 \<and> p_tasks s = 0 \<and> \<not> p_scraping s \<and> \<not> p_api s)"

definition exitCode :: "process \<Rightarrow> int" where
  "exitCode s = (if p_server s = ServeFailed then 1 else if p_apiFailed s then 1 else 0)"

definition mayPass :: "duration \<Rightarrow> process \<Rightarrow> bool" where
  "mayPass d s =
     (0 < d
      \<and> \<not> (p_done s \<and> 0 < p_streams s)
      \<and> \<not> (p_closing s \<and> p_server s = Listening)
      \<and> (case p_main s of
           Serving \<Rightarrow> \<not> p_canceled s
         | Closing \<Rightarrow> \<not> httpIdle s \<and> p_clock s + d \<le> p_httpBy s
         | Draining \<Rightarrow> \<not> drained s \<and> p_clock s + d \<le> p_drainBy s
         | Joining \<Rightarrow> p_server s = Listening
         | Exited _ \<Rightarrow> False))"

text \<open>The goroutine that serves: a failure ends the program, a regular end does not.\<close>

definition serveFailed :: "process \<Rightarrow> process" where
  "serveFailed s = s\<lparr>p_server := ServeFailed, p_canceled := True\<rparr>"

definition serveClosed :: "process \<Rightarrow> process" where
  "serveClosed s = s\<lparr>p_server := ServeClosed\<rparr>"

text \<open>The goroutine of the metrics API server, when it returns an error.\<close>

definition apiserverExited :: "process \<Rightarrow> process" where
  "apiserverExited s = s\<lparr>p_api := False, p_apiFailed := True, p_canceled := True\<rparr>"

inductive processStep :: "duration option \<Rightarrow> process \<Rightarrow> process \<Rightarrow> bool" for drain where
  signal: "processStep drain s (s\<lparr>p_canceled := True\<rparr>)"
| serveFails: "p_server s = Listening \<Longrightarrow> \<not> p_closing s \<Longrightarrow>
    processStep drain s (serveFailed s)"
| serveCloses: "p_server s = Listening \<Longrightarrow> p_closing s \<Longrightarrow> processStep drain s (serveClosed s)"
| streamOpens: "p_server s = Listening \<Longrightarrow> \<not> p_closing s \<Longrightarrow> drain \<noteq> None \<Longrightarrow>
    processStep drain s (s\<lparr>p_streams := p_streams s + 1\<rparr>)"
| streamEnds: "0 < p_streams s \<Longrightarrow> processStep drain s (s\<lparr>p_streams := p_streams s - 1\<rparr>)"
| requestOpens: "p_server s = Listening \<Longrightarrow> \<not> p_closing s \<Longrightarrow>
    processStep drain s (s\<lparr>p_requests := p_requests s + 1\<rparr>)"
| requestEnds: "0 < p_requests s \<Longrightarrow> processStep drain s (s\<lparr>p_requests := p_requests s - 1\<rparr>)"
| loopEnds: "p_canceled s \<Longrightarrow> 0 < p_loops s \<Longrightarrow> processStep drain s (s\<lparr>p_loops := p_loops s - 1\<rparr>)"
| actuates: "0 < p_loops s \<Longrightarrow> processStep drain s (s\<lparr>p_tasks := p_tasks s + 1\<rparr>)"
| taskEnds: "0 < p_tasks s \<Longrightarrow> processStep drain s (s\<lparr>p_tasks := p_tasks s - 1\<rparr>)"
| scraperEnds: "p_canceled s \<Longrightarrow> processStep drain s (s\<lparr>p_scraping := False\<rparr>)"
| apiEnds: "p_canceled s \<Longrightarrow> processStep drain s (s\<lparr>p_api := False\<rparr>)"
| apiFails: "p_api s \<Longrightarrow>
    processStep drain s (apiserverExited s)"
| stops: "p_main s = Serving \<Longrightarrow> p_canceled s \<Longrightarrow> processStep drain s (beginStop drain s)"
| httpDown: "p_main s = Closing \<Longrightarrow> httpIdle s \<or> p_httpBy s \<le> p_clock s \<Longrightarrow>
    processStep drain s (endShutdown drain s)"
| drains: "p_main s = Draining \<Longrightarrow> drained s \<or> p_drainBy s \<le> p_clock s \<Longrightarrow>
    processStep drain s (s\<lparr>p_main := Joining\<rparr>)"
| joins: "p_main s = Joining \<Longrightarrow> p_server s \<noteq> Listening \<Longrightarrow>
    processStep drain s (s\<lparr>p_main := Exited (exitCode s)\<rparr>)"
| passes: "mayPass d s \<Longrightarrow> processStep drain s (s\<lparr>p_clock := p_clock s + d\<rparr>)"

text \<open>A process that has exited takes no step.\<close>

inductive processReachable :: "duration option \<Rightarrow> process \<Rightarrow> bool" for drain where
  start: "processReachable drain (startProcess now loops metrics)"
| step: "processReachable drain s \<Longrightarrow> (\<forall>c. p_main s \<noteq> Exited c) \<Longrightarrow> processStep drain s s' \<Longrightarrow>
    processReachable drain s'"


section \<open>How long stopping takes, and how it ends\<close>

definition grace :: "duration option \<Rightarrow> duration" where
  "grace drain = (case drain of None \<Rightarrow> 0 | Some d \<Rightarrow> d)"

definition httpGrace :: "process \<Rightarrow> duration" where
  "httpGrace s = (if p_busy s = 0 then 0 else shutdownTimeout)"

text \<open>Whoever has to be waited for is done, or the time granted is over.\<close>

definition settled :: "duration option \<Rightarrow> process \<Rightarrow> bool" where
  "settled drain s = (drain = None \<or> drained s \<or> p_stopAt s + grace drain \<le> p_clock s)"

definition stopping :: "duration option \<Rightarrow> process \<Rightarrow> bool" where
  "stopping drain s =
     ((drain = None \<longrightarrow> p_streams s = 0)
      \<and> (case p_main s of
           Serving \<Rightarrow> \<not> p_closing s
         | Closing \<Rightarrow> p_httpBy s = p_stopAt s + shutdownTimeout \<and> p_clock s \<le> p_stopAt s + httpGrace s
         | Draining \<Rightarrow> drain \<noteq> None \<and> p_clock s \<le> p_drainBy s
             \<and> p_drainBy s \<le> p_stopAt s + httpGrace s + grace drain \<and> p_stopAt s + grace drain \<le> p_drainBy s
         | Joining \<Rightarrow> p_clock s \<le> p_stopAt s + httpGrace s + grace drain \<and> settled drain s
         | Exited c \<Rightarrow> p_clock s \<le> p_stopAt s + httpGrace s + grace drain \<and> settled drain s
             \<and> c = exitCode s)
      \<and> (p_main s \<noteq> Serving \<longrightarrow>
           p_canceled s \<and> p_closing s \<and> p_done s = (drain \<noteq> None) \<and> p_stopAt s \<le> p_clock s
           \<and> p_requests s \<le> p_busy s))"

lemma stopping_step:
  assumes "processStep drain s s'" and "stopping drain s" and "\<forall>c. p_main s \<noteq> Exited c" and "0 \<le> grace drain"
  shows "stopping drain s'"
  using assms
proof (induction rule: processStep.induct)
  case (passes d s)
  then show ?case
    by (cases "p_main s") (auto simp: stopping_def mayPass_def settled_def httpIdle_def httpGrace_def drained_def)
next
  case (stops s)
  then show ?case
    by (simp add: stopping_def beginStop_def httpGrace_def shutdownTimeout_def second_def)
next
  case (httpDown s)
  then show ?case
    by (auto simp: stopping_def endShutdown_def settled_def httpGrace_def grace_def split: option.splits)
next
  case (drains s)
  then show ?case by (auto simp: stopping_def settled_def httpGrace_def drained_def)
next
  case (joins s)
  then show ?case by (auto simp: stopping_def settled_def exitCode_def drained_def httpGrace_def)
qed (auto simp: stopping_def settled_def drained_def httpGrace_def serveFailed_def serveClosed_def apiserverExited_def
    split: mainPhase.splits)

lemma reachable_stopping:
  assumes "processReachable drain s" and "0 \<le> grace drain"
  shows "stopping drain s"
  using assms
proof (induction rule: processReachable.induct)
  case (step s s')
  then show ?case using stopping_step by blast
qed (simp add: stopping_def startProcess_def)

text \<open>
  C26: stopping is bounded and orderly. From the moment a program begins to stop it is gone within
  the ten seconds granted to requests (none, if none was in flight: open leader streams end at
  once and never delay it) and the time granted to the controller; when bigbrain exits,
  no reconcile loop, no actuation and no part of the metrics server is running any more unless
  that time is over; and the exit code is 1 exactly if the HTTP or the metrics server has failed.
\<close>

theorem stop_bounded:
  assumes "processReachable drain s" and "p_main s \<noteq> Serving" and "\<forall>d. drain = Some d \<longrightarrow> 0 \<le> d"
  shows "p_stopAt s \<le> p_clock s
    \<and> p_clock s \<le> p_stopAt s + (if p_busy s = 0 then 0 else 10 * second) + (case drain of None \<Rightarrow> 0 | Some d \<Rightarrow> d)
    \<and> (\<forall>c. p_main s = Exited c \<longrightarrow>
         (c = 1 \<longleftrightarrow> p_server s = ServeFailed \<or> p_apiFailed s) \<and> c \<in> {0, 1}
         \<and> (\<forall>d. drain = Some d \<longrightarrow>
              p_loops s = 0 \<and> p_tasks s = 0 \<and> \<not> p_scraping s \<and> \<not> p_api s \<or> p_stopAt s + d \<le> p_clock s))"
proof -
  have g: "0 \<le> grace drain" using assms(3) by (auto simp: grace_def split: option.splits)
  note inv = reachable_stopping [OF assms(1) g]
  have h: "httpGrace s = (if p_busy s = 0 then 0 else 10 * second)"
    by (simp add: httpGrace_def shutdownTimeout_def)
  have "p_clock s \<le> p_stopAt s + httpGrace s + grace drain"
    using inv assms(2) g by (cases "p_main s") (auto simp: stopping_def)
  moreover have "p_stopAt s \<le> p_clock s" using inv assms(2) by (simp add: stopping_def)
  moreover have "c = exitCode s \<and> settled drain s" if "p_main s = Exited c" for c
    using inv that by (simp add: stopping_def)
  ultimately show ?thesis
    unfolding h grace_def by (auto simp: settled_def drained_def exitCode_def grace_def split: if_splits)
qed


text \<open>Work left in the phase the main goroutine is in, for the existence of an orderly end.\<close>

fun phaseRank :: "mainPhase \<Rightarrow> nat" where
  "phaseRank Serving = 4"
| "phaseRank Closing = 3"
| "phaseRank Draining = 2"
| "phaseRank Joining = 1"
| "phaseRank (Exited _) = 0"

definition pendingWork :: "process \<Rightarrow> nat" where
  "pendingWork s = p_streams s + p_requests s + p_loops s + p_tasks s + of_bool (p_scraping s) + of_bool (p_api s)
     + of_bool (p_server s = Listening)"

text \<open>A step of a stopping program that brings its end closer and takes no time.\<close>

definition advances :: "duration option \<Rightarrow> process \<Rightarrow> process \<Rightarrow> bool" where
  "advances drain s s' =
     (processStep drain s s' \<and> p_canceled s' \<and> (p_main s' \<noteq> Serving \<longrightarrow> p_closing s')
      \<and> p_clock s' = p_clock s
      \<and> (phaseRank (p_main s') < phaseRank (p_main s)
         \<or> p_main s' = p_main s \<and> pendingWork s' < pendingWork s))"

lemma advances_Closing:
  assumes "p_canceled s" and "p_closing s" and "p_main s = Closing"
  shows "\<exists>s'. advances drain s s'"
proof (cases "httpIdle s")
  case True
  then show ?thesis
    using processStep.httpDown [OF assms(3), of drain] assms
    by (auto simp: advances_def endShutdown_def split: option.splits)
next
  case False
  then consider "0 < p_streams s" | "0 < p_requests s" by (auto simp: httpIdle_def)
  then show ?thesis
  proof cases
    case 1
    then show ?thesis
      using processStep.streamEnds [OF 1, of drain] assms
      by (intro exI [of _ "s\<lparr>p_streams := p_streams s - 1\<rparr>"]) (simp add: advances_def pendingWork_def)
  next
    case 2
    then show ?thesis
      using processStep.requestEnds [OF 2, of drain] assms
      by (intro exI [of _ "s\<lparr>p_requests := p_requests s - 1\<rparr>"]) (simp add: advances_def pendingWork_def)
  qed
qed

lemma advances_Draining:
  assumes "p_canceled s" and "p_closing s" and "p_main s = Draining"
  shows "\<exists>s'. advances drain s s'"
proof (cases "drained s")
  case True
  then show ?thesis
    using processStep.drains [OF assms(3), of drain] assms
    by (intro exI [of _ "s\<lparr>p_main := Joining\<rparr>"]) (simp add: advances_def)
next
  case False
  then consider "0 < p_loops s" | "0 < p_tasks s" | "p_scraping s" | "p_api s" by (auto simp: drained_def)
  then show ?thesis
  proof cases
    case 1
    then show ?thesis
      using processStep.loopEnds [OF assms(1) 1, of drain] assms
      by (intro exI [of _ "s\<lparr>p_loops := p_loops s - 1\<rparr>"]) (simp add: advances_def pendingWork_def)
  next
    case 2
    then show ?thesis
      using processStep.taskEnds [OF 2, of drain] assms
      by (intro exI [of _ "s\<lparr>p_tasks := p_tasks s - 1\<rparr>"]) (simp add: advances_def pendingWork_def)
  next
    case 3
    then show ?thesis
      using processStep.scraperEnds [OF assms(1), of drain] assms
      by (intro exI [of _ "s\<lparr>p_scraping := False\<rparr>"]) (simp add: advances_def pendingWork_def)
  next
    case 4
    then show ?thesis
      using processStep.apiEnds [OF assms(1), of drain] assms
      by (intro exI [of _ "s\<lparr>p_api := False\<rparr>"]) (simp add: advances_def pendingWork_def)
  qed
qed

lemma advances_Joining:
  assumes "p_canceled s" and "p_closing s" and "p_main s = Joining"
  shows "\<exists>s'. advances drain s s'"
proof (cases "p_server s = Listening")
  case True
  then show ?thesis
    using processStep.serveCloses [OF True assms(2), of drain] assms
    by (intro exI [of _ "serveClosed s"]) (simp add: advances_def pendingWork_def serveClosed_def)
next
  case False
  then show ?thesis
    using processStep.joins [OF assms(3) False, of drain] assms
    by (intro exI [of _ "s\<lparr>p_main := Exited (exitCode s)\<rparr>"]) (simp add: advances_def)
qed

lemma progress:
  assumes "p_canceled s" and "\<forall>c. p_main s \<noteq> Exited c" and "p_main s \<noteq> Serving \<Longrightarrow> p_closing s"
  shows "\<exists>s'. advances drain s s'"
proof (cases "p_main s = Serving")
  case True
  then show ?thesis
    using processStep.stops [OF _ assms(1), of drain] assms(1) by (auto simp: beginStop_def advances_def)
next
  case False
  then have "p_main s \<in> {Closing, Draining, Joining}" using assms(2) by (cases "p_main s") auto
  then show ?thesis
    using assms(1) assms(3) [OF False] advances_Closing advances_Draining advances_Joining by blast
qed

lemma canceled_exits:
  assumes "p_canceled s" and "p_main s \<noteq> Serving \<longrightarrow> p_closing s"
  shows "\<exists>s' c. (processStep drain)\<^sup>*\<^sup>* s s' \<and> p_main s' = Exited c \<and> p_clock s' = p_clock s"
  using assms
proof (induction s rule: wf_induct_rule [OF wf_measures [of "[\<lambda>s. phaseRank (p_main s), pendingWork]"]])
  case (1 s)
  show ?case
  proof (cases "\<exists>c. p_main s = Exited c")
    case True
    then show ?thesis by blast
  next
    case False
    then obtain s' where s': "processStep drain s s'" "p_canceled s'" "p_main s' \<noteq> Serving \<longrightarrow> p_closing s'"
      "p_clock s' = p_clock s" "phaseRank (p_main s') < phaseRank (p_main s)
       \<or> p_main s' = p_main s \<and> pendingWork s' < pendingWork s"
      using progress [OF 1(2)] 1(3) unfolding advances_def by blast
    have "(s', s) \<in> measures [\<lambda>s. phaseRank (p_main s), pendingWork]" using s'(5) by auto
    from 1(1) [OF this s'(2,3)] s'(1,4) show ?thesis
      by (metis converse_rtranclp_into_rtranclp)
  qed
qed

text \<open>
  A signal always ends the program: from every reachable state there is a run to its exit,
  without any time passing, in which everybody who is waited for just finishes.
\<close>

theorem signal_ends_program:
  assumes "processReachable drain s" and "0 \<le> grace drain"
  shows "\<exists>s' c. (processStep drain)\<^sup>*\<^sup>* s s' \<and> p_main s' = Exited c \<and> p_clock s' = p_clock s"
proof -
  have "p_main s \<noteq> Serving \<longrightarrow> p_closing s"
    using reachable_stopping [OF assms] by (simp add: stopping_def)
  then have "\<exists>s' c. (processStep drain)\<^sup>*\<^sup>* (s\<lparr>p_canceled := True\<rparr>) s' \<and> p_main s' = Exited c \<and> p_clock s' = p_clock s"
    using canceled_exits [of "s\<lparr>p_canceled := True\<rparr>" drain] by simp
  then show ?thesis using processStep.signal [of drain s] by (metis converse_rtranclp_into_rtranclp)
qed


text \<open>usher, stopped by a signal with nothing in flight.\<close>

definition sampleStopped :: process where
  "sampleStopped =
     (let s = serveClosed (endShutdown None (beginStop None ((startProcess 0 0 False)\<lparr>p_canceled := True\<rparr>)))
      in s\<lparr>p_main := Exited (exitCode s)\<rparr>)"

lemma sampleStopped_reachable: "processReachable None sampleStopped"
proof -
  let ?s1 = "(startProcess 0 0 False)\<lparr>p_canceled := True\<rparr>"
  have r1: "processReachable None ?s1"
    by (rule processReachable.step [OF processReachable.start _ processStep.signal]) (simp add: startProcess_def)
  have r2: "processReachable None (beginStop None ?s1)"
    by (rule processReachable.step [OF r1 _ processStep.stops]) (simp_all add: startProcess_def)
  have r3: "processReachable None (endShutdown None (beginStop None ?s1))"
    by (rule processReachable.step [OF r2 _ processStep.httpDown])
      (simp_all add: startProcess_def beginStop_def httpIdle_def)
  have r4: "processReachable None (serveClosed (endShutdown None (beginStop None ?s1)))"
    by (rule processReachable.step [OF r3 _ processStep.serveCloses])
      (simp_all add: startProcess_def beginStop_def endShutdown_def)
  show ?thesis
    unfolding sampleStopped_def Let_def
    by (rule processReachable.step [OF r4 _ processStep.joins])
      (simp_all add: startProcess_def beginStop_def endShutdown_def serveClosed_def)
qed

theorem stop_bounded_witness:
  "p_clock sampleStopped \<le> p_stopAt sampleStopped \<and> p_main sampleStopped = Exited 0"
proof -
  have s: "p_main sampleStopped = Exited 0" "p_busy sampleStopped = 0"
    by (simp_all add: sampleStopped_def Let_def exitCode_def startProcess_def beginStop_def endShutdown_def serveClosed_def)
  then have "p_main sampleStopped \<noteq> Serving" by simp
  from stop_bounded [OF sampleStopped_reachable this] s show ?thesis by simp
qed

theorem signal_ends_program_witness:
  "\<exists>s' c. (processStep None)\<^sup>*\<^sup>* (startProcess 0 3 False) s' \<and> p_main s' = Exited c"
  using signal_ends_program [OF processReachable.start, of None 0 3 False] by (auto simp: grace_def)

end
