(* ===== verification/Spec2Isabelle.thy ===== *)
theory Spec2Isabelle
  imports Cluster Pacing BackendApi ServerApi ScraperLoop RequestFlow Transports Lifecycle
begin

text \<open>
  A verification development for \<^emph>\<open>concave\<close> (Go sources under \<open>src/router/\<close>): high availability
  for replicated backends, by a control plane and a router.

  \<^bold>\<open>The program.\<close> \<open>bigbrain\<close> is the control plane. For every deployment it discovers the pods
  (\<open>bigbrain/k8sclient\<close>), polls them (\<open>bigbrain/backend\<close>), decides who leads (\<open>decide.go\<close> of
  \<open>bigbrain/election\<close>), promotes and demotes pods in goroutines of their own (\<open>act.go\<close>) and
  publishes the leader in a registry (\<open>bigbrain/registry\<close>). An HTTP server (\<open>bigbrain/server\<close>)
  answers leader queries, streams leader events, and takes and answers usage events
  (\<open>bigbrain/insights\<close>); a metrics API serves the load of the pods that run functions
  (\<open>bigbrain/apiserver\<close>). \<open>usher\<close> (\<open>usher/main.go\<close>) is the router: a tracker per deployment
  follows the leader events of bigbrain by polls and a stream, and a reverse proxy forwards each
  request to the leader of the deployment its host names.

  \<^bold>\<open>Theories and code.\<close>
  \<^item> \<open>Prelude\<close>: instants and durations, 64-bit integers, Go maps as association lists.
  \<^item> \<open>GoStd\<close>, \<open>GoNet\<close>, \<open>GoProxy\<close>, \<open>GoRegexp\<close>, \<open>GoTime\<close>, \<open>GoTimeFacts\<close>, \<open>GoFloat\<close>, \<open>Json\<close>,
    \<open>JsonDecode\<close>, \<open>JsonFacts\<close>: what the code uses of Go's standard library (strings, hosts and headers,
    what the reverse proxy does to a request before its hook, regular expressions by derivatives,
    dates, float64 with its rounding, the JSON encoder and decoder), with the facts about it.
  \<^item> \<open>K8sClient\<close>, \<open>BackendClient\<close>: \<open>k8sclient.go\<close> and \<open>backend.go\<close>; \<open>BackendApi\<close> decodes the status a
    backend answers a poll with.
  \<^item> \<open>Decide\<close>: \<open>decide.go\<close>. \<open>Election\<close>: \<open>election.go\<close> and \<open>act.go\<close>; \<open>ElectionFacts\<close> has the facts
    about one round and about sequences of rounds, \<open>ElectionSafety\<close> the interleaving of rounds
    with the actuation goroutines, \<open>ElectionProgress\<close> what can be reached in it, \<open>Pacing\<close> the
    rounds in time, under the ticker and the deadlines of the code (\<open>GoTicker\<close> has what a loop over a
    \<open>time.Ticker\<close> promises).
  \<^item> \<open>Registry\<close>: \<open>registry.go\<close>. \<open>Server\<close>, \<open>UsageApi\<close>, \<open>ServerApi\<close>: \<open>server.go\<close>
    (the leader endpoints, the usage endpoints, the interface as a whole).
  \<^item> \<open>Insights\<close>, \<open>InsightsFacts\<close>: \<open>insights.go\<close>. \<open>Metrics\<close>: one round of \<open>scraper.go\<close>, and
    \<open>provider.go\<close>; \<open>ScraperLoop\<close>: the rounds in time, \<open>apiserver.go\<close> and \<open>startMetricsAPIServer\<close>.
  \<^item> \<open>BigbrainConfig\<close>: the start-up of \<open>bigbrain/main.go\<close>; \<open>Lifecycle\<close>: how both programs stop.
  \<^item> \<open>Tracker\<close>, \<open>UsherHttp\<close>, \<open>UsherConfig\<close>: the tracker, the HTTP front end and the
    configuration of \<open>usher/main.go\<close>. \<open>LeaderFeed\<close> joins \<open>Server\<close> and \<open>Tracker\<close> by the bytes that
    one writes and the other reads; \<open>RouterLoop\<close> runs the two goroutines of a tracker against a
    bigbrain that changes, with their timers; \<open>RequestFlow\<close> follows a request from \<open>newMux\<close> to the
    backend and back to the client; \<open>Transports\<close>: transports, server options and the buffer pool.
  \<^item> \<open>Cluster\<close>: the interleaved election and the loops of a router in one run.

  \<^bold>\<open>How code becomes definitions.\<close> A function that holds its mutex for its whole body is one function
  from state to state. Where goroutines interleave, each critical section is a step of an
  inductive relation. A panic of Go is \<open>None\<close>; an error is a value of a sum or an option. Map and
  slice accesses keep Go's behaviour for absent keys and indices out of range. Unsigned counters
  are 64-bit words; \<open>int\<close> values that can wrap are wrapped explicitly. Where time matters between
  goroutines (\<open>RouterLoop\<close>, \<open>Lifecycle\<close>), it passes in steps of its own, never beyond a deadline
  that somebody waits for, which idealises the Go scheduler. Clock readings, answers of
  the network and of the API server, and the order in which Go ranges over a map are arguments.
  So are third-party functions the code calls and the standard-library functions whose code
  matters only through documented facts: the URL parser, SHA-256, hexadecimal floats, the
  Unicode lower-case table, the validators of Kubernetes, the parser and encoder of query strings.
  The record \<open>choices\<close> of \<open>Insights\<close> collects the unstable sort by time and the orders of ranging.

  \<^bold>\<open>What is shown.\<close>
  \<^item> Election: promotions of one deployment never overlap and rest on fresh polls; when the leader is
    gone, every pod that is discovered answers without leading or being mid-transition and one of them
    is promotable, failover happens after exactly the debounced rounds, by default within 28 seconds
    (\<open>failover_in_seconds\<close> lists the conditions); a leader that is still discovered but does not answer
    stays published for its grace while no other pod claims to lead; failback comes only after a stable
    window; unanswered promotions hold back new ones; several claimants are reduced to the best;
    retries rotate over the candidates; locks can always be released; the sequential rounds, which some
    of these are stated over, are runs of the interleaved system (\<open>reconcile_refines_steps\<close>).
  \<^item> Registry and stream: no send on a closed channel; a subscriber always sees the current state, and
    a session ends up with it; bytes written by bigbrain drive a tracker of usher to the same leader, and
    so does a poll, also after a restart of bigbrain; polls come in time, so that, while they succeed, the
    router forwards to the leader the election had published at some instant of the last 66 seconds,
    and this is a pod that had claimed leadership itself (\<open>router_follows_election\<close>, over both programs).
  \<^item> Router: a request reaches nobody but the current leader of the deployment it names and changes no
    tracker's leader; only checked requests are forwarded, never to an internal endpoint of the backend; the
    follower gate; the rewritten request, the validation of the configuration and routing are exact.
  \<^item> Usage: the ring keeps the newest rows; a query answers with exactly one row per group, in ascending
    order, whatever order Go ranges over its maps in; thresholds and counts are exact; a token only
    reaches its own deployment; no request changes a leader.
  \<^item> Start-up, stopping and metrics: both programs start soundly or not at all and stop within their
    deadlines; usher has one tracker with its own routes per configured deployment; discovery finds
    exactly the pods that can serve; the metrics API serves the last scraping round, as percentages
    (at most 100 as long as a page does not report more busy threads than there are, which the code
    does not check), and no sample older than 14 seconds.

  \<^bold>\<open>Interfaces.\<close> The locales are contracts between components, interpreted on the code's model: \<open>preference\<close> (a
  comparison that picks one best element, for the three orders of \<open>decide.go\<close>), \<open>leader_store\<close>
  (what publishing promises its readers), \<open>versioned_reader\<close> (what a reader of versioned events
  promises, for polls and for stream lines), \<open>bounded_log\<close> (the ring) and \<open>ticked_loop\<close> (rounds of
  limited length under a ticker, for the election and for the scraper).

  \<^bold>\<open>Bounds and fuel.\<close> The JSON parser recurses with fuel twice the length of its input plus one;
  \<open>parse_fuel\<close> proves that this is always enough, so a failure is a failure of Go's parser (which
  also refuses nesting beyond 10000). All other loops are structural or have a termination proof.

  \<^bold>\<open>Not modelled.\<close> Logging; the enforcement of the timeouts of connections by \<open>net/http\<close>; what
  \<open>httputil.ReverseProxy\<close> does to a response besides calling the hooks, the escaped spelling of a path
  (\<open>RawPath\<close>; paths are decoded here), and that it keeps an absent \<open>User-Agent\<close> absent. client-go and the
  library of the metrics API server are arguments where the code calls them. That a process
  can be killed with \<open>os.Exit\<close> by a bad variable after goroutines were started is an error of the
  start-up here. The Helm charts and the patches of the backend are not Go programs of this repository.
\<close>

end
